(* ===== verification/Prelude.thy ===== *)
theory Prelude
  imports Main "HOL-Library.Word"
begin

text \<open>
  Shared vocabulary of the development: the machine types of the C++ sources, the
  faults an execution can run into, the error monad in which fallible code is written,
  C byte buffers and the string functions of the C library that the sources call
  (\<open>strlen\<close>, \<open>strtok_r\<close>, \<open>strncmp\<close>, \<open>memcpy\<close>), and generic lemmas on lists.
\<close>

section \<open>Collections of facts\<close>

named_theorems fault_simps \<open>rules of the error monad\<close>
named_theorems buf_simps \<open>rules for C buffers\<close>
named_theorems rep_simps \<open>unfolding of representation predicates\<close>

section \<open>Machine types\<close>

type_synonym byte = "8 word"
type_synonym u8 = "8 word"
type_synonym u16 = "16 word"
type_synonym u32 = "32 word"
type_synonym u64 = "64 word"
type_synonym bytes = "byte list"
type_synonym ptr = "nat option"

section \<open>Faults and the error monad\<close>

text \<open>
  A fault is a way in which the C++ code leaves its defined behaviour: a null or wild
  pointer is dereferenced, a buffer is read or written out of its bounds, an integer is
  divided by zero, an \<open>assert\<close> fails in a build without \<open>NDEBUG\<close>, a value the library
  leaves unspecified is used, or a loop does not end; or the process ends with \<open>exit\<close>.
\<close>

datatype fault = NullDeref | BadPointer | OutOfBounds | DivByZero | AssertFail
  | Unspecified | Diverges | Exited

type_synonym 'a res = "fault + 'a"

definition bindE :: "'a res \<Rightarrow> ('a \<Rightarrow> 'b res) \<Rightarrow> 'b res" where
  "bindE m f = (case m of Inl e \<Rightarrow> Inl e | Inr x \<Rightarrow> f x)"

definition requireE :: "bool \<Rightarrow> fault \<Rightarrow> unit res" where
  "requireE b e = (if b then Inr () else Inl e)"

lemma bindE_Inl [simp]: "bindE (Inl e) f = Inl e"
  by (simp add: bindE_def)

lemma bindE_Inr [simp]: "bindE (Inr x) f = f x"
  by (simp add: bindE_def)

lemma bindE_eq_Inr: "bindE m f = Inr y \<longleftrightarrow> (\<exists>x. m = Inr x \<and> f x = Inr y)"
  by (cases m) auto

lemma bindE_eq_Inl: "bindE m f = Inl e \<longleftrightarrow> m = Inl e \<or> (\<exists>x. m = Inr x \<and> f x = Inl e)"
  by (cases m) auto

lemma bindE_assoc: "bindE (bindE m f) g = bindE m (\<lambda>x. bindE (f x) g)"
  by (cases m) auto

lemma bindE_cong [fundef_cong]:
  "m = m' \<Longrightarrow> (\<And>x. m' = Inr x \<Longrightarrow> f x = f' x) \<Longrightarrow> bindE m f = bindE m' f'"
  by (cases m') auto

lemma requireE_True [simp]: "requireE True e = Inr ()"
  by (simp add: requireE_def)

lemma requireE_False [simp]: "requireE False e = Inl e"
  by (simp add: requireE_def)

lemma requireE_eq_Inr [simp]: "requireE b e = Inr u \<longleftrightarrow> b"
  by (simp add: requireE_def)

lemmas [fault_simps] = bindE_eq_Inr bindE_eq_Inl

section \<open>Lists\<close>

lemma takeWhile_upto_first:
  "x \<notin> set xs \<Longrightarrow> takeWhile (\<lambda>c. c \<noteq> x) (xs @ x # ys) = xs"
  by (induction xs) auto

lemma takeWhile_id [simp]: "x \<notin> set xs \<Longrightarrow> takeWhile (\<lambda>c. c \<noteq> x) xs = xs"
  by (induction xs) auto

lemma in_set_tl: "x \<in> set (tl xs) \<Longrightarrow> x \<in> set xs"
  by (cases xs) auto

lemma concat_replicate_len:
  "(\<forall>x \<in> set xs. length x = n) \<Longrightarrow> length (concat xs) = n * length xs"
  by (induction xs) auto

lemma append_same_suffix:
  "xs @ us = ys @ vs \<Longrightarrow> length us = length vs \<Longrightarrow> xs = ys \<and> us = vs"
  by simp

lemma concat_map_concat: "concat (map (\<lambda>i. concat (f i)) xs) = concat (concat (map f xs))"
  by (induction xs) auto

text \<open>A list of equal-width blocks, cut and overwritten at block boundaries.\<close>

lemma take_concat_blocks:
  "(\<forall>x \<in> set xs. length x = n) \<Longrightarrow> take (n * i) (concat xs) = concat (take i xs)"
proof (induction xs arbitrary: i)
  case (Cons x xs)
  show ?case
  proof (cases i)
    case (Suc j)
    with Cons show ?thesis by (auto simp: algebra_simps)
  qed simp
qed simp

lemma drop_concat_blocks:
  "(\<forall>x \<in> set xs. length x = n) \<Longrightarrow> drop (n * i) (concat xs) = concat (drop i xs)"
proof (induction xs arbitrary: i)
  case (Cons x xs)
  show ?case
  proof (cases i)
    case (Suc j)
    with Cons show ?thesis by (auto simp: algebra_simps)
  qed simp
qed simp

lemma concat_update_block:
  assumes "\<forall>x \<in> set xs. length x = n" "i < length xs"
  shows "take (n * i) (concat xs) @ y @ drop (n * Suc i) (concat xs) = concat (xs[i := y])"
  using assms
  by (simp add: take_concat_blocks drop_concat_blocks upd_conv_take_nth_drop del: mult_Suc_right)

lemma concat_remove_block:
  assumes "\<forall>x \<in> set xs. length x = n"
  shows "take (n * i) (concat xs) @ drop (n * Suc i) (concat xs) = concat (take i xs @ drop (Suc i) xs)"
  using assms by (simp add: take_concat_blocks drop_concat_blocks del: mult_Suc_right)

text \<open>Bytes overwritten inside a buffer.\<close>

lemma length_overwrite:
  "p + length m \<le> length b \<Longrightarrow> length (take p b @ m @ drop (p + length m) b) = length b"
  by simp

lemma take_overwrite:
  "p + length m \<le> q \<Longrightarrow> q \<le> length b \<Longrightarrow>
   take q (take p b @ m @ drop (p + length m) b) = take p (take q b) @ m @ drop (p + length m) (take q b)"
proof -
  assume a: "p + length m \<le> q" "q \<le> length b"
  then have "p \<le> q" "length m \<le> q - p" "p + length m \<le> length b" by linarith+
  with a show ?thesis by (simp add: min_absorb2 drop_take)
qed

lemma take_overwrite_end:
  "p + length m \<le> length b \<Longrightarrow> take (p + length m) (take p b @ m @ drop (p + length m) b) = take p b @ m"
  by simp

lemma concat_blocks_inj:
  assumes "\<forall>x \<in> set xs. length x = n" "\<forall>y \<in> set ys. length y = n" "0 < n"
    and "concat xs = concat ys"
  shows "xs = ys"
proof -
  have "length xs = length ys"
    using assms by (metis concat_replicate_len mult_cancel1 neq0_conv)
  then show ?thesis using assms
  proof (induction xs ys rule: list_induct2)
    case (Cons x xs y ys)
    then show ?case by auto
  qed simp
qed

lemma map_of_map_upd_nth:
  assumes "distinct (map fst xs)" "i < length xs" "fst (xs ! i) = k"
  shows "map_of (xs[i := (k, v)]) = (map_of xs)(k \<mapsto> v)"
  using assms
proof (induction xs arbitrary: i)
  case (Cons x xs)
  show ?case
  proof (cases i)
    case 0
    with Cons.prems show ?thesis by (cases x) auto
  next
    case (Suc j)
    with Cons.prems have "fst x \<noteq> k" by auto
    moreover have "map_of (xs[j := (k, v)]) = (map_of xs)(k \<mapsto> v)"
      using Cons Suc by auto
    ultimately show ?thesis using Suc by (cases x) (auto simp: fun_eq_iff)
  qed
qed simp

section \<open>C buffers and strings\<close>

text \<open>
  A buffer is the list of the bytes it holds. A C string ends at the first NUL byte of
  its buffer; reading it without finding a NUL runs out of the buffer.
\<close>

definition lit :: "string \<Rightarrow> bytes" where
  "lit s = map of_char s"

definition c_str :: "bytes \<Rightarrow> bytes res" where
  "c_str b = (if 0 \<in> set b then Inr (takeWhile (\<lambda>c. c \<noteq> 0) b) else Inl OutOfBounds)"

definition strlen :: "bytes \<Rightarrow> nat res" where
  "strlen b = bindE (c_str b) (\<lambda>s. Inr (length s))"

text \<open>\<open>strncmp(a, b, n) == 0\<close>: equal up to \<open>n\<close> bytes or up to a common NUL.\<close>

fun strncmp_eq :: "nat \<Rightarrow> bytes \<Rightarrow> bytes \<Rightarrow> bool res" where
  "strncmp_eq 0 a b = Inr True"
| "strncmp_eq (Suc n) (x # a) (y # b) =
     (if x \<noteq> y then Inr False else if x = 0 then Inr True else strncmp_eq n a b)"
| "strncmp_eq (Suc n) a b = Inl OutOfBounds"

lemma strncmp_eq_numeral [simp]:
  "strncmp_eq (numeral n) (x # a) (y # b) =
     (if x \<noteq> y then Inr False else if x = 0 then Inr True else strncmp_eq (pred_numeral n) a b)"
  by (simp add: numeral_eq_Suc)

text \<open>\<open>strcmp(a, b) == 0\<close>.\<close>

fun strcmp_eq :: "bytes \<Rightarrow> bytes \<Rightarrow> bool res" where
  "strcmp_eq (x # a) (y # b) =
     (if x \<noteq> y then Inr False else if x = 0 then Inr True else strcmp_eq a b)"
| "strcmp_eq a b = Inl OutOfBounds"

lemma strcmp_eq_c_str [buf_simps]:
  "0 \<notin> set a \<Longrightarrow> 0 \<notin> set b \<Longrightarrow> strcmp_eq (a @ 0 # c) (b @ 0 # d) = Inr (a = b)"
proof (induction a arbitrary: b)
  case Nil
  then show ?case by (cases b) auto
next
  case (Cons x a)
  then show ?case by (cases b) auto
qed

lemma strcmp_eq_defined: "strcmp_eq a b \<noteq> Inl Diverges"
  by (induction a b rule: strcmp_eq.induct) auto

text \<open>An \<open>int\<close> passed where a \<open>size_t\<close> is expected.\<close>

definition size_arg :: "int \<Rightarrow> nat" where
  "size_arg n = unat (word_of_int n :: u64)"

lemma size_arg_nat [simp]: "n < 2 ^ 64 \<Longrightarrow> size_arg (int n) = n"
  by (simp add: size_arg_def unsigned_of_int take_bit_int_eq_self nat_less_iff unat_of_nat)

text \<open>
  The bytes \<open>memcpy(dst, src, n)\<close> reads from \<open>src\<close>, and the buffer that results from
  copying \<open>n\<close> bytes of \<open>src\<close> to the offset \<open>off\<close> of \<open>dst\<close>.
\<close>

definition memread :: "nat \<Rightarrow> bytes \<Rightarrow> bytes res" where
  "memread n src = (if n \<le> length src then Inr (take n src) else Inl OutOfBounds)"

definition memcpy_at :: "bytes \<Rightarrow> nat \<Rightarrow> nat \<Rightarrow> bytes \<Rightarrow> bytes res" where
  "memcpy_at dst off n src =
     (if n \<le> length src \<and> off + n \<le> length dst
      then Inr (take off dst @ take n src @ drop (off + n) dst)
      else Inl OutOfBounds)"

text \<open>
  \<open>strtok_r(s, " ", &save)\<close>: skips leading blanks, cuts the token at the next blank by
  overwriting it with NUL and remembers the position behind it. The result is the token
  (\<open>None\<close> is the null pointer), the remembered rest and the buffer afterwards. When the
  token ends at the terminating NUL, what \<open>save\<close> holds is unspecified: \<open>None\<close>.
\<close>

definition blank :: byte where
  "blank = 32"

definition strtok_r :: "bytes \<Rightarrow> (bytes option \<times> bytes option \<times> bytes) res" where
  "strtok_r s =
     (let skipped = takeWhile (\<lambda>c. c = blank) s;
          s1 = drop (length skipped) s;
          tok = takeWhile (\<lambda>c. c \<noteq> blank \<and> c \<noteq> 0) s1
      in case drop (length tok) s1 of
           [] \<Rightarrow> Inl OutOfBounds
         | c # rest \<Rightarrow>
             if tok = [] then Inr (None, None, s)
             else if c = 0 then Inr (Some tok, None, s)
             else Inr (Some tok, Some rest, skipped @ tok @ 0 # rest))"

lemma c_str_terminated [buf_simps]: "0 \<notin> set xs \<Longrightarrow> c_str (xs @ 0 # ys) = Inr xs"
  by (simp add: c_str_def takeWhile_upto_first)

lemma strlen_terminated [buf_simps]: "0 \<notin> set xs \<Longrightarrow> strlen (xs @ 0 # ys) = Inr (length xs)"
  by (simp add: strlen_def c_str_terminated)

lemma memread_ok [buf_simps]: "n \<le> length src \<Longrightarrow> memread n src = Inr (take n src)"
  by (simp add: memread_def)

lemma memcpy_at_length: "memcpy_at dst off n src = Inr b \<Longrightarrow> length b = length dst"
  by (auto simp: memcpy_at_def split: if_splits)

definition plain_word :: "bytes \<Rightarrow> bool" where
  "plain_word k \<longleftrightarrow> k \<noteq> [] \<and> 0 \<notin> set k \<and> blank \<notin> set k"

lemma takeWhile_token:
  "0 \<notin> set k \<Longrightarrow> blank \<notin> set k \<Longrightarrow> c = 0 \<or> c = blank \<Longrightarrow>
   takeWhile (\<lambda>c. c \<noteq> blank \<and> c \<noteq> 0) (k @ c # rest) = k"
  by (induction k) auto

lemma takeWhile_no_blank: "plain_word k \<Longrightarrow> takeWhile (\<lambda>c. c = blank) (k @ rest) = []"
  by (cases k) (auto simp: plain_word_def)

lemma strtok_r_word_end:
  "plain_word k \<Longrightarrow> strtok_r (k @ 0 # rest) = Inr (Some k, None, k @ 0 # rest)"
  using takeWhile_token [of k 0 rest]
  by (simp add: strtok_r_def Let_def takeWhile_no_blank) (simp add: plain_word_def)

lemma strtok_r_word_blank:
  "plain_word k \<Longrightarrow> strtok_r (k @ blank # rest) = Inr (Some k, Some rest, k @ 0 # rest)"
  using takeWhile_token [of k blank rest]
  by (simp add: strtok_r_def Let_def takeWhile_no_blank) (simp add: plain_word_def blank_def)

lemma strtok_r_unterminated:
  assumes "0 \<notin> set s" "blank \<notin> set s"
  shows "strtok_r s = Inl OutOfBounds"
proof -
  have b: "takeWhile (\<lambda>x. x = blank) s = []" using assms(2) by (cases s) auto
  have t: "takeWhile (\<lambda>x. x \<noteq> blank \<and> x \<noteq> 0) s = s"
    unfolding takeWhile_eq_all_conv using assms by auto
  show ?thesis by (simp add: strtok_r_def Let_def b t)
qed

section \<open>Little-endian 32-bit fields\<close>

text \<open>\<open>memcpy(p, &w, sizeof(uint32_t))\<close> on a little-endian machine.\<close>

definition le32 :: "u32 \<Rightarrow> bytes" where
  "le32 w = [ucast w, ucast (drop_bit 8 w), ucast (drop_bit 16 w), ucast (drop_bit 24 w)]"

lemma length_le32 [simp]: "length (le32 w) = 4"
  by (simp add: le32_def)

lemma le32_inj: "le32 v = le32 w \<longleftrightarrow> v = w"
proof
  assume eq: "le32 v = le32 w"
  show "v = w"
  proof (rule bit_word_eqI)
    fix n assume "n < LENGTH(32)"
    then have n: "n < 32" by simp
    have b: "bit (ucast (drop_bit m v) :: byte) k = bit (ucast (drop_bit m w) :: byte) k"
      if "m \<in> {0, 8, 16, 24}" for m k
      using eq that by (auto simp: le32_def)
    have "n div 8 * 8 \<in> {0, 8, 16, 24}" "n mod 8 < 8" "n = n div 8 * 8 + n mod 8"
      using n by auto
    with b [of "n div 8 * 8" "n mod 8"] show "bit v n = bit w n"
      by (simp add: bit_simps)
  qed
qed simp

section \<open>Widening\<close>

lemma unat_ucast_up: "unat (ucast (w :: u32) :: u64) = unat w"
  by transfer (simp add: take_bit_eq_mod)

lemma unat_scast_small:
  assumes "unat (w :: u32) < 2 ^ 31"
  shows "unat (scast w :: u64) = unat w"
proof -
  have "signed_take_bit 31 (uint w) = uint w"
  proof (rule signed_take_bit_int_eq_self)
    show "uint w < 2 ^ 31"
      using assms unfolding unat_eq_nat_uint
      by (metis int_nat_eq of_nat_less_iff of_nat_numeral of_nat_power uint_ge_0)
    show "- (2 ^ 31) \<le> uint w" by (rule order_trans [OF _ uint_ge_0]) simp
  qed
  then have "sint w = uint w" unfolding sint_uint by simp
  then have "scast w = (ucast w :: u64)" by (metis of_int_uint scast_eq)
  then show ?thesis by (simp only: unat_ucast_up)
qed

end
