(* ===== verification/Common_Types.thy ===== *)
theory Common_Types
  imports Prelude
begin

text \<open>
  The data of \<open>Common/common.h\<close> and \<open>Enclave/Enclave.h\<close> (entries, MAC buckets, hash
  table, configuration, the enclave's globals) and the outside world of the enclave:
  the SGX cryptographic library, the allocator of untrusted memory and the build mode.

  The untrusted memory that holds the entries is the list \<open>heap\<close>; an \<open>entry *\<close> is an
  index into it, \<open>None\<close> is \<open>NULL\<close>. Entries are allocated and never freed by the sources, so
  every allocation is a new last cell. The table, the entries and the MAC buckets are
  outside the enclave and may hold anything; the MAC table is inside.
\<close>

section \<open>Status codes\<close>

datatype sgx_status = SGX_SUCCESS | SGX_ERROR_UNEXPECTED | SGX_ERROR_INVALID_PARAMETER
  | SGX_ERROR_OUT_OF_MEMORY | SGX_ERROR_ENCLAVE_LOST | SGX_ERROR_INVALID_ENCLAVE
  | SGX_ERROR_INVALID_ENCLAVE_ID | SGX_ERROR_INVALID_SIGNATURE | SGX_ERROR_OUT_OF_EPC
  | SGX_ERROR_NO_DEVICE | SGX_ERROR_MEMORY_MAP_CONFLICT | SGX_ERROR_INVALID_METADATA
  | SGX_ERROR_DEVICE_BUSY | SGX_ERROR_INVALID_VERSION | SGX_ERROR_ENCLAVE_FILE_ACCESS
  | SGX_ERROR_INVALID_FUNCTION | SGX_ERROR_OUT_OF_TCS | SGX_ERROR_ENCLAVE_CRASHED
  | SGX_ERROR_MAC_MISMATCH | SGX_ERROR_INVALID_ATTRIBUTE | SGX_ERROR_INVALID_CPUSVN
  | SGX_ERROR_INVALID_ISVSVN | SGX_ERROR_INVALID_KEYNAME | SGX_ERROR_SERVICE_UNAVAILABLE
  | SGX_ERROR_SERVICE_TIMEOUT | SGX_ERROR_SERVICE_INVALID_PRIVILEGE | SGX_ERROR_OTHER nat

section \<open>Structures of common.h\<close>

definition MAC_SIZE :: nat where
  "MAC_SIZE = 16"

definition NAC_SIZE :: nat where
  "NAC_SIZE = 16"

lemmas size_defs = MAC_SIZE_def NAC_SIZE_def

text \<open>\<open>struct entry\<close>; \<open>sizeof(entry)\<close> is 64 on x86-64.\<close>

record entry =
  key_size :: u32
  val_size :: u32
  key_hash :: u8
  key_val :: "bytes option"
  nac :: bytes
  mac :: bytes
  nxt :: ptr

definition sizeof_entry :: nat where
  "sizeof_entry = 64"

text \<open>\<open>struct mac_entry\<close>: the MAC bucket of one hash bucket, with room for 30 MACs.\<close>

record MACentry =
  msize :: int
  mmac :: bytes

definition MAC_SLOTS :: nat where
  "MAC_SLOTS = 30"

record hashtable =
  hsize :: int
  table :: "ptr list"

record Arg =
  port_num :: int
  num_threads :: int
  max_buf_size :: int
  bucket_size :: int
  tree_root_size :: int
  key_opt :: bool
  mac_opt :: bool

record job =
  client_sock :: int
  buf :: bytes

text \<open>The globals of \<open>Enclave.cpp\<close>, the untrusted memory they point to, and the lines the
  enclave has printed through the \<open>print\<close> call-out.\<close>

record enclave =
  ht :: hashtable
  heap :: "entry list"
  MACbuf :: "MACentry list"
  MACTable :: "bytes list"
  arg :: Arg
  ratio_root_per_buckets :: int
  out :: "string list"

definition print :: "string \<Rightarrow> enclave \<Rightarrow> enclave" where
  "print msg s = s\<lparr>out := out s @ [msg]\<rparr>"

lemma print_simps [simp]:
  "ht (print m s) = ht s" "heap (print m s) = heap s" "MACbuf (print m s) = MACbuf s"
  "MACTable (print m s) = MACTable s" "arg (print m s) = arg s"
  "ratio_root_per_buckets (print m s) = ratio_root_per_buckets s"
  "out (print m s) = out s @ [m]"
  by (simp_all add: print_def)

section \<open>The world outside the sources\<close>

text \<open>
  \<open>sgx_aes_ctr_encrypt\<close> and \<open>sgx_aes_ctr_decrypt\<close> take the key, the data, the counter
  block and the number of counter bits to increment, and give a status, the output and
  the counter block they leave behind. \<open>sgx_rijndael128_cmac_msg\<close> gives a status and a
  tag. \<open>malloc_ok n m\<close> says whether an allocation of \<open>m\<close> bytes of untrusted memory succeeds
  when \<open>n\<close> entries exist; \<open>outside\<close> is \<open>sgx_is_outside_enclave\<close> on an entry's address.
  \<open>ndebug\<close> is whether \<open>assert\<close> is compiled out, as the Makefile does for the enclave.
\<close>

record env =
  ndebug :: bool
  aes_ctr_encrypt :: "bytes \<Rightarrow> bytes \<Rightarrow> bytes \<Rightarrow> nat \<Rightarrow> sgx_status \<times> bytes \<times> bytes"
  aes_ctr_decrypt :: "bytes \<Rightarrow> bytes \<Rightarrow> bytes \<Rightarrow> nat \<Rightarrow> sgx_status \<times> bytes \<times> bytes"
  cmac_msg :: "bytes \<Rightarrow> bytes \<Rightarrow> sgx_status \<times> bytes"
  malloc_ok :: "nat \<Rightarrow> nat \<Rightarrow> bool"
  outside :: "nat \<Rightarrow> bool"

text \<open>\<open>assert(b)\<close>.\<close>

definition assertE :: "env \<Rightarrow> bool \<Rightarrow> unit res" where
  "assertE E b = requireE (ndebug E \<or> b) AssertFail"

lemma assertE_ok [simp]: "b \<Longrightarrow> assertE E b = Inr ()"
  by (simp add: assertE_def)

lemma assertE_ndebug [simp]: "ndebug E \<Longrightarrow> assertE E b = Inr ()"
  by (simp add: assertE_def)

lemma assertE_debug_fail [simp]: "\<not> ndebug E \<Longrightarrow> \<not> b \<Longrightarrow> assertE E b = Inl AssertFail"
  by (simp add: assertE_def)

text \<open>
  What the code relies on. AES in counter mode succeeds on non-empty data and a 16-byte
  counter block, keeps the length, is undone by decrypting with the same counter block, and
  leaves a 16-byte counter block behind. CMAC succeeds on a non-empty message and gives 16
  bytes. Untrusted memory is not exhausted and the allocator hands out memory outside the
  enclave. Nothing is assumed on collisions.
\<close>

definition aes_ok :: "env \<Rightarrow> bool" where
  "aes_ok E \<longleftrightarrow> (\<forall>key d c n. d \<noteq> [] \<longrightarrow> length c = NAC_SIZE \<longrightarrow>
     (\<exists>x c'. aes_ctr_encrypt E key d c n = (SGX_SUCCESS, x, c') \<and>
        length x = length d \<and> length c' = NAC_SIZE \<and>
        aes_ctr_decrypt E key x c n = (SGX_SUCCESS, d, c')))"

definition cmac_ok :: "env \<Rightarrow> bool" where
  "cmac_ok E \<longleftrightarrow>
     (\<forall>key d. d \<noteq> [] \<longrightarrow> (\<exists>t. cmac_msg E key d = (SGX_SUCCESS, t) \<and> length t = MAC_SIZE))"

definition memory_ok :: "env \<Rightarrow> bool" where
  "memory_ok E \<longleftrightarrow> (\<forall>n m. malloc_ok E n m) \<and> (\<forall>a. outside E a)"

definition env_ok :: "env \<Rightarrow> bool" where
  "env_ok E \<longleftrightarrow> aes_ok E \<and> cmac_ok E \<and> memory_ok E"

text \<open>The tag of a message under the key \<open>key\<close>.\<close>

definition tag :: "env \<Rightarrow> bytes \<Rightarrow> bytes \<Rightarrow> bytes" where
  "tag E key d = snd (cmac_msg E key d)"

lemma cmac_okD: "cmac_ok E \<Longrightarrow> d \<noteq> [] \<Longrightarrow> cmac_msg E key d = (SGX_SUCCESS, tag E key d)"
  by (metis cmac_ok_def snd_conv tag_def)

lemma length_tag: "cmac_ok E \<Longrightarrow> d \<noteq> [] \<Longrightarrow> length (tag E key d) = MAC_SIZE"
  by (metis cmac_ok_def snd_conv tag_def)

lemma aes_encryptE:
  assumes "aes_ok E" "d \<noteq> []" "length c = NAC_SIZE"
  obtains x c' where "aes_ctr_encrypt E key d c n = (SGX_SUCCESS, x, c')"
    "length x = length d" "length c' = NAC_SIZE"
    "aes_ctr_decrypt E key x c n = (SGX_SUCCESS, d, c')"
  using assms unfolding aes_ok_def by blast

end
