(* ===== verification/Hash_Functions.thy ===== *)
theory Hash_Functions
  imports Common_Types
begin

text \<open>
  The two hash functions of \<open>Enclave/ht.cpp\<close>: \<open>ht_hash\<close> selects the bucket of a key,
  \<open>key_hash_func\<close> computes the one-byte key hint stored with an entry. Both run the same
  loop with a different multiplier over the bytes of the NUL-terminated key.
\<close>

text \<open>
  The loop \<open>while(hashval < ULONG_MAX && i < strlen(key))\<close> in 64-bit unsigned arithmetic.
  A \<open>char\<close> is signed on x86-64, so \<open>hashval += key[i]\<close> adds the sign-extended byte.
\<close>

fun hash_loop :: "u64 \<Rightarrow> u64 \<Rightarrow> bytes \<Rightarrow> u64" where
  "hash_loop m hashval [] = hashval"
| "hash_loop m hashval (c # cs) =
     (if hashval < -1 \<and> c \<noteq> 0 then hash_loop m (hashval * m + scast c) cs else hashval)"

definition key_hash_func :: "bytes \<Rightarrow> u8" where
  "key_hash_func key = ucast (hash_loop 11 7 key mod 256)"

text \<open>
  \<open>return hashval % ht_enclave->size\<close>: the \<open>int\<close> size is converted to \<open>unsigned long\<close> and the
  remainder back to \<open>int\<close>.
\<close>

definition ht_hash :: "int \<Rightarrow> bytes \<Rightarrow> int" where
  "ht_hash sz key = sint (ucast (hash_loop 61 7 key mod word_of_int sz) :: u32)"

section \<open>Range of the hash\<close>

lemma word_mod_size:
  assumes "0 < sz" "sz < 2 ^ 31"
  shows "unat ((w :: u64) mod word_of_int sz) < nat sz"
proof -
  have "unat (word_of_int sz :: u64) = nat sz"
    using assms by (simp add: unsigned_of_int take_bit_int_eq_self nat_less_iff)
  then show ?thesis
    using assms by (simp add: unat_mod)
qed

lemma sint_small_u32:
  assumes "unat (w :: u64) < 2 ^ 31"
  shows "sint (ucast w :: u32) = int (unat w)"
proof -
  have "int (unat w) < int (2 ^ 31)" using assms by (simp only: of_nat_less_iff)
  then have "uint w < 2 ^ 31" by simp
  then have "uint (ucast w :: u32) = uint w"
    by (simp add: unsigned_ucast_eq take_bit_int_eq_self)
  moreover have "- (2 ^ 31) \<le> uint w" by (rule order_trans [of _ 0]) simp_all
  ultimately show ?thesis
    using signed_take_bit_int_eq_self [of 31 "uint w"] \<open>uint w < 2 ^ 31\<close> by (simp add: sint_uint)
qed

lemma ht_hash_eq:
  assumes "0 < sz" "sz < 2 ^ 31"
  shows "ht_hash sz key = int (unat (hash_loop 61 7 key mod word_of_int sz))"
proof -
  have "unat (hash_loop 61 7 key mod word_of_int sz) < 2 ^ 31"
    using word_mod_size [OF assms, of "hash_loop 61 7 key"] assms by simp
  then show ?thesis by (simp add: ht_hash_def sint_small_u32)
qed

lemma ht_hash_bounds:
  assumes "0 < sz" "sz < 2 ^ 31"
  shows "0 \<le> ht_hash sz key" "ht_hash sz key < sz"
  using ht_hash_eq [OF assms, of key] word_mod_size [OF assms, of "hash_loop 61 7 key"]
  by (simp_all only: zless_nat_eq_int_zless of_nat_0_le_iff)

section \<open>Only the string part of the buffer counts\<close>

lemma hash_loop_c_str:
  "0 \<notin> set k \<Longrightarrow> hash_loop m h (k @ 0 # rest) = hash_loop m h k"
  by (induction k arbitrary: h) auto

lemma ht_hash_c_str: "0 \<notin> set k \<Longrightarrow> ht_hash sz (k @ 0 # rest) = ht_hash sz k"
  by (simp add: ht_hash_def hash_loop_c_str)

lemma key_hash_func_c_str: "0 \<notin> set k \<Longrightarrow> key_hash_func (k @ 0 # rest) = key_hash_func k"
  by (simp add: key_hash_func_def hash_loop_c_str)

text \<open>
  Unless an intermediate value is exactly \<open>ULONG_MAX\<close>, where the loop stops early, the loop
  is the polynomial hash of the whole key.
\<close>

fun poly_hash :: "u64 \<Rightarrow> u64 \<Rightarrow> bytes \<Rightarrow> u64" where
  "poly_hash m h [] = h"
| "poly_hash m h (c # cs) = poly_hash m (h * m + scast c) cs"

fun hits_max :: "u64 \<Rightarrow> u64 \<Rightarrow> bytes \<Rightarrow> bool" where
  "hits_max m h [] = False"
| "hits_max m h (c # cs) = (h = -1 \<or> hits_max m (h * m + scast c) cs)"

lemma word_less_max: "(h :: u64) < -1 \<longleftrightarrow> h \<noteq> -1"
  by (metis not_less_iff_gr_or_eq word_order.not_eq_extremum)

lemma hash_loop_poly:
  "0 \<notin> set k \<Longrightarrow> \<not> hits_max m h k \<Longrightarrow> hash_loop m h k = poly_hash m h k"
  by (induction k arbitrary: h) (auto simp: word_less_max)

end
