(* ===== verification/Entry_Crypto.thy ===== *)
theory Entry_Crypto
  imports Common_Types
begin

text \<open>
  Encryption, decryption and authentication of a single entry, from \<open>Enclave/core.cpp\<close>:
  \<open>decrypt_key_val_and_compare\<close>, \<open>decrypt_and_get_key\<close>, \<open>enclave_encrypt\<close>,
  \<open>enclave_verification\<close> and \<open>enclave_decrypt\<close>. Sizes are \<open>uint32_t\<close> and wrap around where the
  source adds them before widening.
\<close>

text \<open>The global symmetric key.\<close>

definition gsk :: bytes where
  "gsk = [0x72, 0x12, 0x8a, 0x7a, 0x17, 0x52, 0x6e, 0xbf,
          0x85, 0xd0, 0x3a, 0x62, 0x37, 0x30, 0xae, 0xad]"

definition decrypt_key_val_and_compare ::
  "env \<Rightarrow> bytes \<Rightarrow> bytes \<Rightarrow> u32 \<Rightarrow> u32 \<Rightarrow> bytes \<Rightarrow> (bytes \<times> bytes) option res" where
  "decrypt_key_val_and_compare E key cipher key_len val_len nac0 =
     bindE (memread (unat (key_len + val_len)) cipher) (\<lambda>src.
       let (ret, temp_plain, temp_nac) = aes_ctr_decrypt E gsk src nac0 NAC_SIZE in
       bindE (assertE E (ret = SGX_SUCCESS)) (\<lambda>_.
       bindE (memread (unat key_len) temp_plain) (\<lambda>a.
       bindE (memread (unat key_len) key) (\<lambda>b.
         Inr (if a = b then Some (temp_plain, temp_nac) else None)))))"

definition decrypt_and_get_key :: "env \<Rightarrow> bytes \<Rightarrow> u32 \<Rightarrow> u32 \<Rightarrow> bytes \<Rightarrow> bytes res" where
  "decrypt_and_get_key E cipher key_len val_len nac0 =
     bindE (memread (unat (key_len + val_len)) cipher) (\<lambda>src.
       let (ret, temp_plain, temp_nac) = aes_ctr_decrypt E gsk src nac0 NAC_SIZE in
       bindE (assertE E (ret = SGX_SUCCESS)) (\<lambda>_. memread (unat key_len) temp_plain))"

text \<open>
  The buffer \<open>temp_all\<close> that is authenticated. It is allocated with the size computed in
  32-bit arithmetic, but filled through pointers that do not wrap.
\<close>

definition temp_all_size :: "u32 \<Rightarrow> u32 \<Rightarrow> nat" where
  "temp_all_size key_len val_len = unat (key_len + val_len + of_nat NAC_SIZE + 1) + 4 * 2"

definition temp_all :: "bytes \<Rightarrow> u8 \<Rightarrow> u32 \<Rightarrow> u32 \<Rightarrow> bytes \<Rightarrow> bytes res" where
  "temp_all cipher key_idx key_len val_len nac0 =
     bindE (memread (unat (key_len + val_len)) cipher) (\<lambda>c.
     bindE (requireE (unat key_len + unat val_len + NAC_SIZE + 1 + 4 + 4
                        \<le> temp_all_size key_len val_len) OutOfBounds) (\<lambda>_.
       Inr (c @ nac0 @ [key_idx] @ le32 key_len @ le32 val_len)))"

text \<open>
  \<open>enclave_encrypt\<close>: both callers pass the same buffer as plain text and cipher text, so the
  buffer is encrypted in place. The status of the CMAC call is ignored.
\<close>

definition enclave_encrypt ::
  "env \<Rightarrow> bytes \<Rightarrow> u8 \<Rightarrow> u32 \<Rightarrow> u32 \<Rightarrow> bytes \<Rightarrow> (bytes \<times> bytes) res" where
  "enclave_encrypt E key_val0 key_idx key_len val_len nac0 =
     bindE (memread (unat (key_len + val_len)) key_val0) (\<lambda>src.
       let (ret, temp_cipher, temp_nac) = aes_ctr_encrypt E gsk src nac0 NAC_SIZE in
       bindE (assertE E (ret = SGX_SUCCESS)) (\<lambda>_.
       bindE (temp_all temp_cipher key_idx key_len val_len nac0) (\<lambda>msg.
         Inr (temp_cipher @ drop (unat (key_len + val_len)) key_val0, snd (cmac_msg E gsk msg)))))"

text \<open>
  \<open>enclave_verification\<close> returns the status of the CMAC call. A tag that does not match is
  reported on the console only.
\<close>

definition enclave_verification ::
  "env \<Rightarrow> bytes \<Rightarrow> u8 \<Rightarrow> u32 \<Rightarrow> u32 \<Rightarrow> bytes \<Rightarrow> bytes \<Rightarrow> enclave \<Rightarrow> (sgx_status \<times> enclave) res" where
  "enclave_verification E cipher key_idx key_len val_len nac0 mac0 s =
     bindE (temp_all cipher key_idx key_len val_len nac0) (\<lambda>msg.
       let (ret, temp_mac) = cmac_msg E gsk msg in
       Inr (ret, if temp_mac = mac0 then s else print ''MAC matching failed'' s))"

definition enclave_decrypt ::
  "env \<Rightarrow> bytes \<Rightarrow> u8 \<Rightarrow> u32 \<Rightarrow> u32 \<Rightarrow> bytes \<Rightarrow> bytes \<Rightarrow> enclave \<Rightarrow> (bytes option \<times> enclave) res" where
  "enclave_decrypt E cipher key_idx key_len val_len nac0 mac0 s =
     bindE (temp_all cipher key_idx key_len val_len nac0) (\<lambda>msg.
       let (ret, temp_mac) = cmac_msg E gsk msg in
       bindE (assertE E (ret = SGX_SUCCESS)) (\<lambda>_.
       if temp_mac = mac0
       then bindE (memread (unat (key_len + val_len)) cipher) (\<lambda>src.
              let (ret', temp_plain, temp_nac) = aes_ctr_decrypt E gsk src nac0 NAC_SIZE in
              Inr (Some temp_plain, s))
       else Inr (None, print ''MAC matching failed'' s)))"

section \<open>Sizes without wrap-around\<close>

text \<open>Sizes small enough that neither the data nor the authenticated buffer wraps.\<close>

definition sizes_fit :: "u32 \<Rightarrow> u32 \<Rightarrow> bool" where
  "sizes_fit key_len val_len \<longleftrightarrow> unat key_len + unat val_len + 17 < 2 ^ 31"

lemma unat_add_fit:
  assumes "sizes_fit kl vl"
  shows "unat (kl + vl) = unat kl + unat vl"
proof -
  have "unat kl + unat vl < 2 ^ LENGTH(32)"
    using assms by (simp add: sizes_fit_def)
  then show ?thesis by (simp only: unat_word_ariths(1) mod_less)
qed

lemma temp_all_size_fit:
  assumes "sizes_fit kl vl"
  shows "temp_all_size kl vl = unat kl + unat vl + 25"
proof -
  have "unat (kl + vl + 17) = unat (kl + vl) + 17"
  proof -
    have "unat (kl + vl) + unat (17 :: u32) < 2 ^ LENGTH(32)"
      using assms unat_add_fit [OF assms] by (simp add: sizes_fit_def)
    then have "unat (kl + vl + 17) = unat (kl + vl) + unat (17 :: u32)"
      by (simp only: unat_word_ariths(1) mod_less)
    then show ?thesis by simp
  qed
  moreover have "kl + vl + of_nat NAC_SIZE + 1 = kl + vl + 17"
    by (simp add: NAC_SIZE_def add.assoc)
  ultimately show ?thesis
    using unat_add_fit [OF assms] by (simp only: temp_all_size_def)
qed

lemma temp_all_fit:
  assumes "sizes_fit kl vl" "length c = unat kl + unat vl"
  shows "temp_all c ki kl vl n = Inr (c @ n @ [ki] @ le32 kl @ le32 vl)"
  using assms
  by (simp add: temp_all_def unat_add_fit temp_all_size_fit memread_ok NAC_SIZE_def)

text \<open>
  The authenticated message determines every field of the entry: it is the cipher text
  followed by fields of fixed width that include both lengths.
\<close>

lemma authenticated_fields:
  assumes "d @ n @ [ki] @ le32 kl @ le32 vl = d' @ n' @ [ki'] @ le32 kl' @ le32 vl'"
    "length n = NAC_SIZE" "length n' = NAC_SIZE"
  shows "kl = kl' \<and> vl = vl' \<and> ki = ki' \<and> n = n' \<and> d = d'"
proof -
  have "(d @ n @ [ki] @ le32 kl) @ le32 vl = (d' @ n' @ [ki'] @ le32 kl') @ le32 vl'"
    using assms(1) by simp
  from append_same_suffix [OF this]
  have *: "d @ n @ [ki] @ le32 kl = d' @ n' @ [ki'] @ le32 kl'" "vl = vl'"
    by (simp_all only: le32_inj length_le32)
  have "(d @ n @ [ki]) @ le32 kl = (d' @ n' @ [ki']) @ le32 kl'"
    using *(1) by simp
  from append_same_suffix [OF this]
  have **: "d @ n @ [ki] = d' @ n' @ [ki']" "kl = kl'"
    by (simp_all only: le32_inj length_le32)
  have "(d @ n) @ [ki] = (d' @ n') @ [ki']"
    using **(1) by simp
  from append_same_suffix [OF this] have ***: "d @ n = d' @ n'" "ki = ki'"
    by simp_all
  from append_same_suffix [OF ***(1)] assms(2,3) have "d = d'" "n = n'"
    by simp_all
  with * ** *** show ?thesis by simp
qed

lemma temp_all_inj:
  assumes "temp_all c ki kl vl n = Inr m" "temp_all c' ki' kl' vl' n' = Inr m"
    and "length n = NAC_SIZE" "length n' = NAC_SIZE"
  shows "kl = kl' \<and> vl = vl' \<and> ki = ki' \<and> n = n' \<and>
    take (unat (kl + vl)) c = take (unat (kl + vl)) c'"
proof -
  have m: "m = take (unat (kl + vl)) c @ n @ [ki] @ le32 kl @ le32 vl"
    and m': "m = take (unat (kl' + vl')) c' @ n' @ [ki'] @ le32 kl' @ le32 vl'"
    using assms by (auto simp: temp_all_def fault_simps memread_def split: if_splits)
  from authenticated_fields [OF _ assms(3,4)] m m' show ?thesis by metis
qed

section \<open>Round trips\<close>

text \<open>What \<open>enclave_encrypt\<close> stores for the plain text \<open>p\<close>, written as a relation.\<close>

definition sealed :: "env \<Rightarrow> bytes \<Rightarrow> u8 \<Rightarrow> u32 \<Rightarrow> u32 \<Rightarrow> bytes \<Rightarrow> bytes \<Rightarrow> bytes \<Rightarrow> bool" where
  "sealed E p ki kl vl n c t \<longleftrightarrow>
     sizes_fit kl vl \<and> length n = NAC_SIZE \<and> length p = unat kl + unat vl \<and> length c = length p \<and>
     (\<exists>n'. aes_ctr_decrypt E gsk c n NAC_SIZE = (SGX_SUCCESS, p, n') \<and> length n' = NAC_SIZE) \<and>
     t = tag E gsk (c @ n @ [ki] @ le32 kl @ le32 vl)"

lemma enclave_encrypt_sealed:
  assumes "env_ok E" "sizes_fit kl vl" "length n = NAC_SIZE" "length p = unat kl + unat vl"
    "p \<noteq> []"
  obtains c t where "enclave_encrypt E p ki kl vl n = Inr (c, t)" "sealed E p ki kl vl n c t"
proof -
  have "aes_ok E" using assms(1) by (simp add: env_ok_def)
  from this assms(5,3) obtain c n' where c: "aes_ctr_encrypt E gsk p n NAC_SIZE = (SGX_SUCCESS, c, n')"
    "length c = length p" "length n' = NAC_SIZE"
    "aes_ctr_decrypt E gsk c n NAC_SIZE = (SGX_SUCCESS, p, n')"
    by (rule aes_encryptE)
  let ?m = "c @ n @ [ki] @ le32 kl @ le32 vl"
  have "enclave_encrypt E p ki kl vl n = Inr (c, tag E gsk ?m)"
    using assms c by (simp add: enclave_encrypt_def unat_add_fit memread_ok temp_all_fit tag_def)
  moreover have "sealed E p ki kl vl n c (tag E gsk ?m)"
    using assms c by (simp add: sealed_def)
  ultimately show thesis by (rule that)
qed

lemma decrypt_sealed:
  assumes "sealed E p ki kl vl n c t" "length key = unat kl"
  obtains n' where "length n' = NAC_SIZE"
    "decrypt_key_val_and_compare E key c kl vl n =
       Inr (if take (unat kl) p = key then Some (p, n') else None)"
proof -
  from assms obtain n' where
    "aes_ctr_decrypt E gsk c n NAC_SIZE = (SGX_SUCCESS, p, n')" "length n' = NAC_SIZE"
    by (auto simp: sealed_def)
  with assms that show thesis
    by (auto simp: decrypt_key_val_and_compare_def sealed_def unat_add_fit memread_ok)
qed

lemma enclave_verification_sealed:
  assumes "env_ok E" "sealed E p ki kl vl n c t"
  shows "enclave_verification E c ki kl vl n t s = Inr (SGX_SUCCESS, s)"
  using assms cmac_okD [of E]
  by (simp add: enclave_verification_def sealed_def temp_all_fit env_ok_def)

lemma decrypt_and_get_key_sealed:
  "sealed E p ki kl vl n c t \<Longrightarrow> decrypt_and_get_key E c kl vl n = Inr (take (unat kl) p)"
  by (auto simp: decrypt_and_get_key_def sealed_def unat_add_fit memread_ok)

lemma enclave_decrypt_sealed:
  assumes "env_ok E" "sealed E p ki kl vl n c t"
  shows "enclave_decrypt E c ki kl vl n t s = Inr (Some p, s)"
  using assms cmac_okD [of E]
  by (auto simp: enclave_decrypt_def sealed_def temp_all_fit env_ok_def unat_add_fit memread_ok)

end
