(* ===== verification/Linked_Chain.thy ===== *)
theory Linked_Chain
  imports Prelude
begin

text \<open>
  Memory as a list of cells and chains through it, for any kind of cell with a \<open>next\<close> pointer:
  \<open>chain_of nx h p as\<close> says that the chain from \<open>p\<close> visits the addresses \<open>as\<close> and ends.
\<close>

definition deref :: "'e list \<Rightarrow> nat \<Rightarrow> 'e res" where
  "deref h a = (if a < length h then Inr (h ! a) else Inl BadPointer)"

primrec chain_of :: "('e \<Rightarrow> ptr) \<Rightarrow> 'e list \<Rightarrow> ptr \<Rightarrow> nat list \<Rightarrow> bool" where
  "chain_of nx h p [] \<longleftrightarrow> p = None"
| "chain_of nx h p (a # as) \<longleftrightarrow> p = Some a \<and> a < length h \<and> chain_of nx h (nx (h ! a)) as"

lemma chain_None [simp]: "chain_of nx h None as \<longleftrightarrow> as = []"
  by (cases as) auto

lemma chain_unique: "chain_of nx h p as \<Longrightarrow> chain_of nx h p bs \<Longrightarrow> as = bs"
proof (induction as arbitrary: p bs)
  case (Cons a as)
  then show ?case by (cases bs) auto
qed auto

lemma chain_split: "chain_of nx h p (as @ b # bs) \<Longrightarrow> chain_of nx h (Some b) (b # bs)"
  by (induction as arbitrary: p) auto

lemma chain_bounds: "chain_of nx h p as \<Longrightarrow> \<forall>a \<in> set as. a < length h"
  by (induction as arbitrary: p) auto

lemma chain_distinct: "chain_of nx h p as \<Longrightarrow> distinct as"
proof (induction as arbitrary: p)
  case (Cons a as)
  have "a \<notin> set as"
  proof
    assume "a \<in> set as"
    then obtain us vs where as: "as = us @ a # vs" by (auto simp: in_set_conv_decomp)
    have "chain_of nx h (Some a) (a # as)" using Cons.prems by simp
    moreover have "chain_of nx h (Some a) (a # vs)"
      using Cons.prems as chain_split [of nx h "nx (h ! a)" us a vs] by simp
    ultimately have "a # as = a # vs" by (rule chain_unique)
    with as show False by simp
  qed
  with Cons show ?case by auto
qed simp

lemma chain_length: "chain_of nx h p as \<Longrightarrow> length as \<le> length h"
proof -
  assume c: "chain_of nx h p as"
  then have "set as \<subseteq> {..<length h}" using chain_bounds [OF c] by auto
  then have "card (set as) \<le> length h"
    by (metis card_lessThan card_mono finite_lessThan)
  with chain_distinct [OF c] show ?thesis by (simp add: distinct_card)
qed

text \<open>Updates that keep a chain: a cell whose \<open>next\<close> stays, a new cell at the end.\<close>

lemma chain_update:
  "chain_of nx h p as \<Longrightarrow> nx e = nx (h ! a) \<Longrightarrow> chain_of nx (h[a := e]) p as"
proof (induction as arbitrary: p)
  case (Cons b as)
  then show ?case by (cases "a = b") auto
qed simp

lemma chain_extend: "chain_of nx h p as \<Longrightarrow> chain_of nx (h @ es) p as"
  by (induction as arbitrary: p) (auto simp: nth_append)

lemma chain_push:
  "chain_of nx h p as \<Longrightarrow> nx e = p \<Longrightarrow> chain_of nx (h @ [e]) (Some (length h)) (length h # as)"
  by (simp add: chain_extend)

text \<open>A cell off the chain may change; a new cell may be hung to the last one.\<close>

lemma chain_update_other: "chain_of nx h p as \<Longrightarrow> a \<notin> set as \<Longrightarrow> chain_of nx (h[a := e]) p as"
  by (induction as arbitrary: p) auto

lemma chain_snoc:
  assumes "chain_of nx h p as" "as \<noteq> []" "nx e = Some (length h)" "nx e' = None"
  shows "chain_of nx (h[last as := e] @ [e']) p (as @ [length h])"
  using assms(1,2)
proof (induction as arbitrary: p)
  case (Cons a as)
  show ?case
  proof (cases "as = []")
    case True
    then show ?thesis using Cons.prems assms(3,4) by (auto simp: nth_append)
  next
    case False
    then have "a \<noteq> last as" using chain_distinct [OF Cons.prems(1)] by (metis distinct.simps(2) last_in_set)
    then show ?thesis using Cons False by (auto simp: nth_append)
  qed
qed simp

text \<open>The chain as a function of the memory; \<open>None\<close> for a cyclic or wild chain.\<close>

fun addrs_of :: "('e \<Rightarrow> ptr) \<Rightarrow> nat \<Rightarrow> 'e list \<Rightarrow> ptr \<Rightarrow> nat list option" where
  "addrs_of nx 0 h p = None"
| "addrs_of nx (Suc n) h None = Some []"
| "addrs_of nx (Suc n) h (Some a) =
     (if a < length h then map_option (Cons a) (addrs_of nx n h (nx (h ! a))) else None)"

lemma chain_addrs_complete: "chain_of nx h p as \<Longrightarrow> length as < n \<Longrightarrow> addrs_of nx n h p = Some as"
proof (induction as arbitrary: p n)
  case Nil
  then show ?case by (cases n) auto
next
  case (Cons a as)
  then show ?case by (cases n) auto
qed

lemma chain_addrs_sound: "addrs_of nx n h p = Some as \<Longrightarrow> chain_of nx h p as"
proof (induction nx n h p arbitrary: as rule: addrs_of.induct)
  case (3 nx n h a)
  then show ?case by (auto split: if_splits)
qed auto

lemma chain_iff_addrs: "chain_of nx h p as \<longleftrightarrow> addrs_of nx (Suc (length h)) h p = Some as"
  using chain_addrs_complete chain_addrs_sound chain_length by (metis le_imp_less_Suc)

end
