(* ===== verification/Hash_Table.thy ===== *)
theory Hash_Table
  imports Hash_Functions Entry_Crypto Linked_Chain
begin

text \<open>
  The chained hash table of \<open>Enclave/ht.cpp\<close> in untrusted memory: \<open>ht_get_o\<close>, \<open>ht_newpair\<close>,
  \<open>ht_set_o\<close> and \<open>ht_append_o\<close>. A chain is followed through the \<open>next\<close> pointers of the heap.
  The memory is untrusted, so a chain may be cyclic; the loop over a chain is given as many
  steps as there are cells and one more, and a loop that needs more never ends.
\<close>

section \<open>Operations\<close>

text \<open>\<open>ht_enclave->table[ht_hash(key)]\<close>: the index that is used.\<close>

definition bucket_index :: "enclave \<Rightarrow> bytes \<Rightarrow> nat res" where
  "bucket_index s key =
     (let n = hsize (ht s); b = ht_hash n key in
      if n = 0 then Inl DivByZero
      else if 0 \<le> b \<and> b < int (length (table (ht s))) then Inr (nat b)
      else Inl OutOfBounds)"

text \<open>
  The search loops of \<open>ht_get_o\<close>; the source writes the loop once with and once without the
  comparison of the key hint. The result is the entry with the decrypted data and the
  advanced counter block (\<open>None\<close> is \<open>NULL\<close>), and \<open>*kv_pos\<close>.
\<close>

fun ht_get_loop :: "nat \<Rightarrow> env \<Rightarrow> bool \<Rightarrow> entry list \<Rightarrow> bytes \<Rightarrow> u32 \<Rightarrow> u8 \<Rightarrow> ptr \<Rightarrow> nat \<Rightarrow>
    ((nat \<times> bytes \<times> bytes) option \<times> nat) res" where
  "ht_get_loop 0 E opt h key ks kh pair kv_pos = Inl Diverges"
| "ht_get_loop (Suc n) E opt h key ks kh None kv_pos = Inr (None, kv_pos)"
| "ht_get_loop (Suc n) E opt h key ks kh (Some a) kv_pos =
     bindE (deref h a) (\<lambda>e.
     bindE (case key_val e of
              None \<Rightarrow> Inr None
            | Some cipher \<Rightarrow>
                if key_size e = ks \<and> (opt \<longrightarrow> kh = key_hash e)
                then decrypt_key_val_and_compare E key cipher (key_size e) (val_size e) (nac e)
                else Inr None) (\<lambda>r.
     case r of
       Some (plain, updated_nac) \<Rightarrow>
         bindE (assertE E (outside E a)) (\<lambda>_. Inr (Some (a, plain, updated_nac), kv_pos))
     | None \<Rightarrow> ht_get_loop n E opt h key ks kh (nxt e) (Suc kv_pos)))"

definition ht_get_o ::
  "env \<Rightarrow> enclave \<Rightarrow> bytes \<Rightarrow> u32 \<Rightarrow> ((nat \<times> bytes \<times> bytes) option \<times> nat) res" where
  "ht_get_o E s key ks =
     bindE (bucket_index s key) (\<lambda>bin.
       let opt = key_opt (arg s); kh = (if opt then key_hash_func key else 0) in
       ht_get_loop (Suc (length (heap s))) E opt (heap s) key ks kh (table (ht s) ! bin) 0)"

text \<open>\<open>sizeof(char) * (key_size + val_size)\<close> with \<open>int\<close> operands: sign-extended to \<open>size_t\<close>.\<close>

definition int_size_sum :: "u32 \<Rightarrow> u32 \<Rightarrow> nat" where
  "int_size_sum ks vs = unat (scast (ks + vs) :: u64)"

text \<open>
  \<open>ht_newpair\<close>: the address of the new entry and the memory with it, or \<open>NULL\<close> when one of the
  two allocations fails. Cells are never freed, so the new cell is the next one.
\<close>

definition ht_newpair ::
  "env \<Rightarrow> entry list \<Rightarrow> u32 \<Rightarrow> u32 \<Rightarrow> u8 \<Rightarrow> bytes \<Rightarrow> bytes \<Rightarrow> bytes \<Rightarrow> (ptr \<times> entry list) res" where
  "ht_newpair E h ks vs kh kv n m =
     (if \<not> malloc_ok E (length h) sizeof_entry then Inr (None, h)
      else if \<not> malloc_ok E (length h) (int_size_sum ks vs) then Inr (None, h)
      else bindE (memread (int_size_sum ks vs) kv) (\<lambda>d.
        Inr (Some (length h),
             h @ [\<lparr>key_size = ks, val_size = vs, key_hash = kh, key_val = Some d,
                    nac = n, mac = m, nxt = None\<rparr>])))"

text \<open>\<open>memcpy(MACbuf_enclave->entry[bin].mac + (MAC_SIZE * pos), mac, MAC_SIZE)\<close>.\<close>

definition macbuf_write :: "MACentry list \<Rightarrow> nat \<Rightarrow> int \<Rightarrow> bytes \<Rightarrow> MACentry list res" where
  "macbuf_write mb bin pos m =
     (if bin < length mb \<and> 0 \<le> pos
      then bindE (memcpy_at (mmac (mb ! bin)) (MAC_SIZE * nat pos) MAC_SIZE m) (\<lambda>b.
             Inr (mb[bin := (mb ! bin)\<lparr>mmac := b\<rparr>]))
      else Inl OutOfBounds)"

text \<open>
  Overwriting an existing entry: \<open>key_val\<close> is reallocated to \<open>n\<close> bytes where \<open>realloc\<close> says so,
  \<open>n\<close> bytes are copied and the other fields replaced.
\<close>

definition entry_store :: "env \<Rightarrow> nat \<Rightarrow> bool \<Rightarrow> entry \<Rightarrow> bytes \<Rightarrow> bytes \<Rightarrow> bytes \<Rightarrow> u32 \<Rightarrow> u32 \<Rightarrow> entry res" where
  "entry_store E cells realloc e kv n m key_len val_len =
     bindE (if realloc
            then if malloc_ok E cells (unat (key_len + val_len))
                 then memread (unat (key_len + val_len)) kv
                 else Inl NullDeref
            else case key_val e of
                   None \<Rightarrow> Inl NullDeref
                 | Some old \<Rightarrow> memcpy_at old 0 (unat (key_len + val_len)) kv) (\<lambda>d.
       Inr (e\<lparr>key_val := Some d, nac := n, mac := m, val_size := val_len\<rparr>))"

definition ht_set_o ::
  "env \<Rightarrow> enclave \<Rightarrow> ptr \<Rightarrow> bytes \<Rightarrow> bytes \<Rightarrow> bytes \<Rightarrow> bytes \<Rightarrow> u32 \<Rightarrow> u32 \<Rightarrow> nat \<Rightarrow> enclave res" where
  "ht_set_o E s updated_entry key kv n m key_len val_len kv_pos =
     bindE (bucket_index s key) (\<lambda>bin.
     case updated_entry of
       Some a \<Rightarrow>
         bindE (deref (heap s) a) (\<lambda>e.
         bindE (entry_store E (length (heap s)) (val_size e \<noteq> val_len) e kv n m key_len val_len) (\<lambda>e'.
           let s1 = s\<lparr>heap := (heap s)[a := e']\<rparr> in
           if mac_opt (arg s1)
           then bindE (requireE (bin < length (MACbuf s1)) OutOfBounds) (\<lambda>_.
                bindE (macbuf_write (MACbuf s1) bin
                         (msize (MACbuf s1 ! bin) - int kv_pos - 1) m) (\<lambda>mb.
                  Inr (s1\<lparr>MACbuf := mb\<rparr>)))
           else Inr s1))
     | None \<Rightarrow>
         bindE (ht_newpair E (heap s) key_len val_len (key_hash_func key) kv n m) (\<lambda>(newpair, h).
         case newpair of
           None \<Rightarrow> Inl NullDeref
         | Some a \<Rightarrow>
             let nx = (if table (ht s) ! bin = None then None else table (ht s) ! bin);
                 s1 = s\<lparr>heap := h[a := (h ! a)\<lparr>nxt := nx\<rparr>],
                         ht := (ht s)\<lparr>table := (table (ht s))[bin := Some a]\<rparr>\<rparr> in
             if mac_opt (arg s1)
             then bindE (requireE (bin < length (MACbuf s1)) OutOfBounds) (\<lambda>_.
                  let mb = (MACbuf s1)[bin := (MACbuf s1 ! bin)\<lparr>msize := msize (MACbuf s1 ! bin) + 1\<rparr>] in
                  bindE (macbuf_write mb bin (int kv_pos) m) (\<lambda>mb'.
                    Inr (s1\<lparr>MACbuf := mb'\<rparr>)))
             else Inr s1))"

definition ht_append_o ::
  "env \<Rightarrow> enclave \<Rightarrow> ptr \<Rightarrow> bytes \<Rightarrow> bytes \<Rightarrow> bytes \<Rightarrow> bytes \<Rightarrow> u32 \<Rightarrow> u32 \<Rightarrow> nat \<Rightarrow> enclave res" where
  "ht_append_o E s updated_entry key kv n m key_len val_len kv_pos =
     bindE (bucket_index s key) (\<lambda>bin.
     case updated_entry of
       Some a \<Rightarrow>
         bindE (deref (heap s) a) (\<lambda>e.
         bindE (entry_store E (length (heap s)) True e kv n m key_len val_len) (\<lambda>e'.
           let s1 = s\<lparr>heap := (heap s)[a := e']\<rparr> in
           if mac_opt (arg s1)
           then bindE (macbuf_write (MACbuf s1) bin (int kv_pos) m) (\<lambda>mb.
                  Inr (s1\<lparr>MACbuf := mb\<rparr>))
           else Inr s1))
     | None \<Rightarrow> Inr (print ''There's no data in database'' s))"

section \<open>Chains in memory\<close>

abbreviation chain :: "entry list \<Rightarrow> ptr \<Rightarrow> nat list \<Rightarrow> bool" where
  "chain \<equiv> chain_of nxt"

abbreviation chain_addrs :: "nat \<Rightarrow> entry list \<Rightarrow> ptr \<Rightarrow> nat list option" where
  "chain_addrs \<equiv> addrs_of nxt"

end
