(* ===== verification/Table_Semantics.thy ===== *)
theory Table_Semantics
  imports Hash_Table
begin

text \<open>
  What the entries of a chain mean and what the operations of the hash table do to that
  meaning: an entry holds a key and a value when its cipher text decrypts to them and its
  tag authenticates it; searching a chain of such entries finds the first entry of the key.
\<close>

section \<open>The meaning of an entry\<close>

definition packed :: "bytes \<Rightarrow> bytes \<Rightarrow> bytes" where
  "packed k v = k @ [0] @ v @ [0]"

definition kv_fits :: "bytes \<Rightarrow> bytes \<Rightarrow> bool" where
  "kv_fits k v \<longleftrightarrow> 0 \<notin> set k \<and> 0 \<notin> set v \<and> length k + length v + 19 < 2 ^ 31"

definition len32 :: "bytes \<Rightarrow> u32" where
  "len32 k = of_nat (length k + 1)"

definition entry_holds :: "env \<Rightarrow> entry \<Rightarrow> bytes \<Rightarrow> bytes \<Rightarrow> bool" where
  "entry_holds E e k v \<longleftrightarrow>
     kv_fits k v \<and> key_size e = len32 k \<and> val_size e = len32 v \<and>
     key_hash e = key_hash_func k \<and> length (nac e) = NAC_SIZE \<and>
     (\<exists>c. key_val e = Some c \<and>
        sealed E (packed k v) (key_hash e) (key_size e) (val_size e) (nac e) c (mac e))"

lemma unat_len32: "length k + 1 < 2 ^ 32 \<Longrightarrow> unat (len32 k) = length k + 1"
  unfolding len32_def unat_of_nat by (rule mod_less) simp

lemma len32_eq:
  assumes "length k + 1 < 2 ^ 32" "length k' + 1 < 2 ^ 32"
  shows "len32 k = len32 k' \<longleftrightarrow> length k = length k'"
proof
  assume "len32 k = len32 k'"
  then have "unat (len32 k) = unat (len32 k')" by simp
  then show "length k = length k'"
    unfolding unat_len32 [OF assms(1)] unat_len32 [OF assms(2)] by simp
qed (simp add: len32_def)

lemma kv_fitsD:
  assumes "kv_fits k v"
  shows "length k + 1 < 2 ^ 32" "length v + 1 < 2 ^ 32" "0 \<notin> set k" "0 \<notin> set v"
    "unat (len32 k) = length k + 1" "unat (len32 v) = length v + 1"
    "sizes_fit (len32 k) (len32 v)"
    "unat (len32 k + len32 v) = length k + length v + 2"
proof -
  show *: "length k + 1 < 2 ^ 32" "length v + 1 < 2 ^ 32" "0 \<notin> set k" "0 \<notin> set v"
    using assms by (simp_all add: kv_fits_def)
  show **: "unat (len32 k) = length k + 1" "unat (len32 v) = length v + 1"
    using * by (simp_all only: unat_len32)
  show ***: "sizes_fit (len32 k) (len32 v)"
    unfolding sizes_fit_def ** using assms by (simp add: kv_fits_def)
  show "unat (len32 k + len32 v) = length k + length v + 2"
    unfolding unat_add_fit [OF ***] ** by simp
qed

lemma length_packed [simp]: "length (packed k v) = length k + length v + 2"
  by (simp add: packed_def)

lemma take_packed [simp]: "take (Suc (length k)) (packed k v) = k @ [0]"
  by (simp add: packed_def)

lemma drop_packed [simp]: "drop (Suc (length k)) (packed k v) = v @ [0]"
  by (simp add: packed_def)

lemma entry_holds_fits: "entry_holds E e k v \<Longrightarrow> kv_fits k v"
  by (simp add: entry_holds_def)

lemma entry_holds_mac: "cmac_ok E \<Longrightarrow> entry_holds E e k v \<Longrightarrow> length (mac e) = MAC_SIZE"
  by (auto simp: entry_holds_def sealed_def length_tag)

lemma entry_holds_nxt [simp]: "entry_holds E (e\<lparr>nxt := p\<rparr>) k v = entry_holds E e k v"
  by (simp add: entry_holds_def)

text \<open>The key and the value are determined by the entry.\<close>

lemma packed_inj:
  assumes "packed k v = packed k' v'" "0 \<notin> set k" "0 \<notin> set k'"
  shows "k = k' \<and> v = v'"
proof -
  have "takeWhile (\<lambda>c. c \<noteq> 0) (packed k v) = k" "takeWhile (\<lambda>c. c \<noteq> 0) (packed k' v') = k'"
    using assms(2,3) by (simp_all add: packed_def takeWhile_upto_first)
  with assms(1) have "k = k'" by simp
  with assms(1) show ?thesis by (simp add: packed_def)
qed

lemma entry_holds_unique:
  assumes "entry_holds E e k v" "entry_holds E e k' v'"
  shows "k = k' \<and> v = v'"
proof (rule packed_inj)
  show "packed k v = packed k' v'" using assms by (auto simp: entry_holds_def sealed_def)
  show "0 \<notin> set k" "0 \<notin> set k'" using assms by (auto dest: entry_holds_fits simp: kv_fits_def)
qed

section \<open>Searching a chain\<close>

text \<open>The entries at the addresses \<open>as\<close> hold the pairs \<open>kvs\<close>.\<close>

definition holds :: "env \<Rightarrow> entry list \<Rightarrow> nat list \<Rightarrow> (bytes \<times> bytes) list \<Rightarrow> bool" where
  "holds E h as kvs \<longleftrightarrow> list_all2 (\<lambda>a (k, v). entry_holds E (h ! a) k v) as kvs"

lemma holds_length: "holds E h as kvs \<Longrightarrow> length as = length kvs"
  by (auto simp: holds_def dest: list_all2_lengthD)

lemma holds_nth:
  "holds E h as kvs \<Longrightarrow> i < length kvs \<Longrightarrow> entry_holds E (h ! (as ! i)) (fst (kvs ! i)) (snd (kvs ! i))"
  by (auto simp: holds_def list_all2_conv_all_nth split_beta)

lemma holds_Nil [simp]: "holds E h [] kvs \<longleftrightarrow> kvs = []"
  by (simp add: holds_def)

lemma holds_Cons:
  "holds E h (a # as) kvs \<longleftrightarrow>
     (\<exists>k v kvs'. kvs = (k, v) # kvs' \<and> entry_holds E (h ! a) k v \<and> holds E h as kvs')"
  by (auto simp: holds_def list_all2_Cons1)

lemma ht_get_step:
  assumes "entry_holds E (h ! a) k' v'" "a < length h" "0 \<notin> set k" "length k + 1 < 2 ^ 32"
    and "memory_ok E" "\<not> opt \<or> kh = key_hash_func k"
  obtains n' where "length n' = NAC_SIZE"
    "ht_get_loop (Suc n) E opt h (k @ [0]) (len32 k) kh (Some a) pos =
      (if k' = k then Inr (Some (a, packed k' v', n'), pos)
       else ht_get_loop n E opt h (k @ [0]) (len32 k) kh (nxt (h ! a)) (Suc pos))"
proof (cases "length k' = length k \<and> (opt \<longrightarrow> kh = key_hash (h ! a))")
  case True
  let ?e = "h ! a"
  from assms(1) obtain c where c: "key_val ?e = Some c"
    "sealed E (packed k' v') (key_hash ?e) (key_size ?e) (val_size ?e) (nac ?e) c (mac ?e)"
    and f: "kv_fits k' v'" "key_size ?e = len32 k'"
    by (auto simp: entry_holds_def)
  have ks: "key_size ?e = len32 k" using f True by (simp add: len32_def)
  have "length (k @ [0]) = unat (key_size ?e)" using f True kv_fitsD(5) [OF f(1)] by simp
  with c(2) obtain n' where n': "length n' = NAC_SIZE"
    "decrypt_key_val_and_compare E (k @ [0]) c (key_size ?e) (val_size ?e) (nac ?e) =
      Inr (if take (unat (key_size ?e)) (packed k' v') = k @ [0] then Some (packed k' v', n') else None)"
    by (rule decrypt_sealed)
  have "take (unat (key_size ?e)) (packed k' v') = k' @ [0]"
    using f kv_fitsD(5) [OF f(1)] by simp
  with n' have "decrypt_key_val_and_compare E (k @ [0]) c (key_size ?e) (val_size ?e) (nac ?e) =
      Inr (if k' = k then Some (packed k' v', n') else None)" by simp
  with c ks True assms(2,5) that [OF n'(1)] show thesis
    by (simp add: deref_def memory_ok_def)
next
  case False
  have "length k' + 1 < 2 ^ 32" "key_size (h ! a) = len32 k'" "key_hash (h ! a) = key_hash_func k'"
    using assms(1) kv_fitsD(1) [of k' v'] by (auto simp: entry_holds_def)
  with False assms have "\<not> (key_size (h ! a) = len32 k \<and> (opt \<longrightarrow> kh = key_hash (h ! a)))" "k' \<noteq> k"
    by (auto simp: len32_eq)
  moreover obtain n' :: bytes where "length n' = NAC_SIZE"
    using Ex_list_of_length by blast
  ultimately show thesis
    using that [of n'] assms(2) by (auto simp: deref_def split: option.splits)
qed

lemma ht_get_loop_absent:
  assumes "chain h p as" "holds E h as kvs" "k \<notin> fst ` set kvs" "length as < n"
    and "0 \<notin> set k" "length k + 1 < 2 ^ 32" "memory_ok E" "\<not> opt \<or> kh = key_hash_func k"
  shows "ht_get_loop n E opt h (k @ [0]) (len32 k) kh p pos = Inr (None, pos + length as)"
  using assms
proof (induction as arbitrary: p kvs n pos)
  case Nil
  then show ?case by (cases n) auto
next
  case (Cons a as)
  then obtain k' v' kvs' where kvs: "kvs = (k', v') # kvs'" "entry_holds E (h ! a) k' v'"
    "holds E h as kvs'" by (auto simp: holds_Cons)
  obtain m where n: "n = Suc m" using Cons.prems by (cases n) auto
  have "a < length h" "p = Some a" using Cons.prems by auto
  with kvs Cons.prems(3,5-8) obtain n' where
    "ht_get_loop (Suc m) E opt h (k @ [0]) (len32 k) kh (Some a) pos =
      (if k' = k then Inr (Some (a, packed k' v', n'), pos)
       else ht_get_loop m E opt h (k @ [0]) (len32 k) kh (nxt (h ! a)) (Suc pos))"
    by (metis ht_get_step)
  with Cons.IH [of "nxt (h ! a)" kvs' m "Suc pos"] Cons.prems kvs n show ?case by auto
qed

lemma ht_get_loop_found:
  assumes "chain h p as" "holds E h as kvs" "i < length kvs" "kvs ! i = (k, v)"
    "k \<notin> fst ` set (take i kvs)" "length as < n"
    and "0 \<notin> set k" "length k + 1 < 2 ^ 32" "memory_ok E" "\<not> opt \<or> kh = key_hash_func k"
  shows "\<exists>n'. length n' = NAC_SIZE \<and>
    ht_get_loop n E opt h (k @ [0]) (len32 k) kh p pos = Inr (Some (as ! i, packed k v, n'), pos + i)"
  using assms
proof (induction as arbitrary: p kvs n pos i)
  case Nil
  then show ?case by simp
next
  case (Cons a as)
  then obtain k' v' kvs' where kvs: "kvs = (k', v') # kvs'" "entry_holds E (h ! a) k' v'"
    "holds E h as kvs'" by (auto simp: holds_Cons)
  obtain m where n: "n = Suc m" using Cons.prems by (cases n) auto
  have a: "a < length h" "p = Some a" using Cons.prems by auto
  from kvs(2) a(1) Cons.prems(7-10) obtain n' where n': "length n' = NAC_SIZE"
    "ht_get_loop (Suc m) E opt h (k @ [0]) (len32 k) kh (Some a) pos =
      (if k' = k then Inr (Some (a, packed k' v', n'), pos)
       else ht_get_loop m E opt h (k @ [0]) (len32 k) kh (nxt (h ! a)) (Suc pos))"
    by (rule ht_get_step)
  show ?case
  proof (cases i)
    case 0
    with n' n a kvs Cons.prems show ?thesis by auto
  next
    case (Suc j)
    with Cons.prems kvs have "k' \<noteq> k" "kvs' ! j = (k, v)" "j < length kvs'"
      "k \<notin> fst ` set (take j kvs')" by auto
    with Cons.IH [of "nxt (h ! a)" kvs' j m "Suc pos"] Cons.prems kvs n n' a Suc
    show ?thesis by simp
  qed
qed

end
