(* ===== verification/Mac_Tree.thy ===== *)
theory Mac_Tree
  imports Table_Semantics
begin

text \<open>
  The integrity tree of \<open>Enclave/core.cpp\<close>: \<open>get_chain_mac\<close>, \<open>enclave_verify_tree_root\<close> and
  \<open>enclave_rebuild_tree_root\<close>. The buckets are divided into groups of
  \<open>ratio_root_per_buckets\<close>; the MACs of the entries of a group, one behind the other, are
  authenticated by one root, which the enclave keeps in \<open>MACTable\<close>. With the option
  \<open>mac_opt\<close> the MACs are read from the MAC buckets, otherwise from the chains.
\<close>

section \<open>Operations\<close>

text \<open>
  The buckets \<open>start_index\<close> to \<open>start_index + ratio_root_per_buckets - 1\<close> of the group of
  \<open>hash_val\<close>. A negative ratio (a negative number of roots) goes with a MAC table that was
  never allocated: every use of it faults.
\<close>

definition group_indices :: "enclave \<Rightarrow> nat \<Rightarrow> nat list res" where
  "group_indices s hash_val =
     (let r = ratio_root_per_buckets s; start_index = hash_val div nat r * nat r in
      if r = 0 then Inl DivByZero else if r < 0 then Inl OutOfBounds
      else Inr [start_index..<start_index + nat r])"

text \<open>\<open>MACTable[hash_val/ratio_root_per_buckets]\<close>.\<close>

definition root_slot :: "enclave \<Rightarrow> nat \<Rightarrow> nat res" where
  "root_slot s hash_val =
     (let r = ratio_root_per_buckets s; g = hash_val div nat r in
      if r = 0 then Inl DivByZero
      else if r < 0 \<or> length (MACTable s) \<le> g then Inl OutOfBounds else Inr g)"

text \<open>The MACs of a chain, as the loops over \<open>pair->next\<close> copy them.\<close>

fun chain_macs :: "nat \<Rightarrow> entry list \<Rightarrow> ptr \<Rightarrow> bytes list res" where
  "chain_macs 0 h p = Inl Diverges"
| "chain_macs (Suc n) h None = Inr []"
| "chain_macs (Suc n) h (Some a) =
     bindE (deref h a) (\<lambda>e.
     bindE (memread MAC_SIZE (mac e)) (\<lambda>m.
     bindE (chain_macs n h (nxt e)) (\<lambda>ms. Inr (m # ms))))"

definition bucket_macs :: "enclave \<Rightarrow> nat \<Rightarrow> bytes list res" where
  "bucket_macs s i =
     (if i < length (table (ht s))
      then chain_macs (Suc (length (heap s))) (heap s) (table (ht s) ! i)
      else Inl OutOfBounds)"

text \<open>\<open>memcpy(.., MACbuf_enclave->entry[index].mac, MAC_SIZE * MACbuf_enclave->entry[index].size)\<close>.\<close>

definition macbuf_read :: "MACentry list \<Rightarrow> nat \<Rightarrow> bytes res" where
  "macbuf_read mb i =
     (if i < length mb \<and> 0 \<le> msize (mb ! i)
      then memread (MAC_SIZE * nat (msize (mb ! i))) (mmac (mb ! i))
      else Inl OutOfBounds)"

fun aggregate :: "(nat \<Rightarrow> bytes res) \<Rightarrow> nat list \<Rightarrow> bytes res" where
  "aggregate rd [] = Inr []"
| "aggregate rd (i # is) = bindE (rd i) (\<lambda>b. bindE (aggregate rd is) (\<lambda>bs. Inr (b @ bs)))"

definition aggregate_mac :: "enclave \<Rightarrow> nat list \<Rightarrow> bytes res" where
  "aggregate_mac s idx =
     (if mac_opt (arg s) then aggregate (macbuf_read (MACbuf s)) idx
      else aggregate (\<lambda>i. bindE (bucket_macs s i) (\<lambda>ms. Inr (concat ms))) idx)"

definition get_chain_mac :: "env \<Rightarrow> enclave \<Rightarrow> nat \<Rightarrow> bytes res" where
  "get_chain_mac E s hash_val =
     bindE (group_indices s hash_val) (\<lambda>idx.
     bindE (aggregate_mac s idx) (\<lambda>agg.
       let (ret, temp_mac) = cmac_msg E gsk agg in
       bindE (assertE E (ret = SGX_SUCCESS)) (\<lambda>_. Inr temp_mac)))"

definition enclave_verify_tree_root :: "env \<Rightarrow> enclave \<Rightarrow> nat \<Rightarrow> sgx_status res" where
  "enclave_verify_tree_root E s hash_val =
     bindE (get_chain_mac E s hash_val) (\<lambda>cur_mac.
     bindE (root_slot s hash_val) (\<lambda>g.
       Inr (if cur_mac \<noteq> MACTable s ! g then SGX_ERROR_UNEXPECTED else SGX_SUCCESS)))"

text \<open>
  The counting loops of \<open>enclave_rebuild_tree_root\<close>: \<open>total_mac_count\<close> and \<open>updated_idx\<close>, the
  position of the new or updated MAC in the aggregate. The MAC buckets are in the order of
  insertion, the chains in the reverse order.
\<close>

fun macbuf_counts :: "MACentry list \<Rightarrow> nat \<Rightarrow> bool \<Rightarrow> int \<Rightarrow> nat list \<Rightarrow> int \<Rightarrow> int \<Rightarrow> (int \<times> int) res" where
  "macbuf_counts mb hash_val is_insert kv_pos [] tot upd = Inr (tot, upd)"
| "macbuf_counts mb hash_val is_insert kv_pos (i # is) tot upd =
     (if i < length mb
      then macbuf_counts mb hash_val is_insert kv_pos is (tot + msize (mb ! i))
             (if i = hash_val
              then if is_insert then tot + kv_pos else tot + (msize (mb ! i) - kv_pos - 1)
              else upd)
      else Inl OutOfBounds)"

fun chain_counts :: "enclave \<Rightarrow> nat \<Rightarrow> nat list \<Rightarrow> int \<Rightarrow> int \<Rightarrow> int \<Rightarrow> (int \<times> int \<times> int) res" where
  "chain_counts s hash_val [] tot prev cur = Inr (tot, prev, cur)"
| "chain_counts s hash_val (i # is) tot prev cur =
     bindE (bucket_macs s i) (\<lambda>ms.
       if i = hash_val
       then chain_counts s hash_val is (tot + int (length ms)) tot (cur + int (length ms))
       else chain_counts s hash_val is (tot + int (length ms)) prev cur)"

definition rebuild_counts :: "enclave \<Rightarrow> nat \<Rightarrow> int \<Rightarrow> bool \<Rightarrow> nat list \<Rightarrow> (int \<times> int) res" where
  "rebuild_counts s hash_val kv_pos is_insert idx =
     (if mac_opt (arg s) then macbuf_counts (MACbuf s) hash_val is_insert kv_pos idx 0 (- 1)
      else bindE (chain_counts s hash_val idx 0 0 0) (\<lambda>(tot, prev, cur).
             Inr (tot, if is_insert then prev + (cur - kv_pos - 1) else prev + kv_pos)))"

text \<open>The aggregate before the change; \<open>None\<close> where the code has nothing to verify.\<close>

definition previous_aggregate :: "bool \<Rightarrow> int \<Rightarrow> int \<Rightarrow> bytes \<Rightarrow> bytes \<Rightarrow> bytes option res" where
  "previous_aggregate is_insert tot upd agg prev_mac =
     (if is_insert
      then if tot > 1
           then if 0 \<le> upd \<and> upd < tot
                then Inr (Some (take (MAC_SIZE * nat upd) agg @ drop (MAC_SIZE * Suc (nat upd)) agg))
                else Inl OutOfBounds
           else Inr None
      else if 0 \<le> upd
           then bindE (memcpy_at agg (MAC_SIZE * nat upd) MAC_SIZE prev_mac) (\<lambda>b. Inr (Some b))
           else Inl OutOfBounds)"

definition store_root :: "env \<Rightarrow> enclave \<Rightarrow> nat \<Rightarrow> bytes \<Rightarrow> (sgx_status \<times> enclave) res" where
  "store_root E s hash_val agg =
     (let (ret, temp_mac) = cmac_msg E gsk agg in
      bindE (root_slot s hash_val) (\<lambda>g.
        Inr (ret, s\<lparr>MACTable := (MACTable s)[g := temp_mac]\<rparr>)))"

definition enclave_rebuild_tree_root ::
  "env \<Rightarrow> enclave \<Rightarrow> nat \<Rightarrow> nat \<Rightarrow> bool \<Rightarrow> bytes \<Rightarrow> (sgx_status \<times> enclave) res" where
  "enclave_rebuild_tree_root E s hash_val kv_pos is_insert prev_mac =
     bindE (group_indices s hash_val) (\<lambda>idx.
     bindE (rebuild_counts s hash_val (int kv_pos) is_insert idx) (\<lambda>(tot, upd).
     bindE (aggregate_mac s idx) (\<lambda>agg.
     bindE (assertE E (is_insert \<longrightarrow> kv_pos = 0)) (\<lambda>_.
     bindE (previous_aggregate is_insert tot upd agg prev_mac) (\<lambda>prev.
     case prev of
       None \<Rightarrow> store_root E s hash_val agg
     | Some p \<Rightarrow>
         let (ret, temp_mac) = cmac_msg E gsk p in
         if ret \<noteq> SGX_SUCCESS then Inr (SGX_ERROR_UNEXPECTED, s)
         else bindE (root_slot s hash_val) (\<lambda>g.
                if temp_mac \<noteq> MACTable s ! g
                then Inr (SGX_ERROR_UNEXPECTED, print ''Previous MAC compare failed'' s)
                else store_root E s hash_val agg))))))"

end
