(* ===== verification/Tree_Semantics.thy ===== *)
theory Tree_Semantics
  imports Mac_Tree
begin

text \<open>
  What the integrity tree computes, in terms of the MACs a bucket holds: the aggregate of a
  group is the concatenation of its buckets' MACs in either representation, the root
  verification compares the tag of that aggregate with the stored root, and a rebuild
  succeeds exactly when the stored root authenticates the aggregate before the change.
\<close>

section \<open>MACs of a bucket\<close>

definition all_macs :: "bytes list \<Rightarrow> bool" where
  "all_macs ms \<longleftrightarrow> (\<forall>m \<in> set ms. length m = MAC_SIZE)"

text \<open>A MAC bucket holds the MACs \<open>ms\<close> in its first slots.\<close>

definition macbuf_holds :: "MACentry \<Rightarrow> bytes list \<Rightarrow> bool" where
  "macbuf_holds b ms \<longleftrightarrow> msize b = int (length ms) \<and> all_macs ms \<and>
     length (mmac b) = MAC_SIZE * MAC_SLOTS \<and> length ms \<le> MAC_SLOTS \<and>
     take (MAC_SIZE * length ms) (mmac b) = concat ms"

text \<open>The buckets \<open>idx\<close> hold the MACs \<open>bm\<close>, in the representation the options select.\<close>

definition group_blocks :: "enclave \<Rightarrow> nat list \<Rightarrow> (nat \<Rightarrow> bytes list) \<Rightarrow> bool" where
  "group_blocks s idx bm \<longleftrightarrow>
     (\<forall>i \<in> set idx. all_macs (bm i) \<and>
        (if mac_opt (arg s) then i < length (MACbuf s) \<and> macbuf_holds (MACbuf s ! i) (bm i)
         else bucket_macs s i = Inr (bm i)))"

abbreviation flat :: "(nat \<Rightarrow> bytes list) \<Rightarrow> nat list \<Rightarrow> bytes list" where
  "flat bm idx \<equiv> concat (map bm idx)"

lemma all_macs_flat: "group_blocks s idx bm \<Longrightarrow> all_macs (flat bm idx)"
  by (auto simp: group_blocks_def all_macs_def)

lemma length_concat_macs: "all_macs ms \<Longrightarrow> length (concat ms) = MAC_SIZE * length ms"
  by (simp add: all_macs_def concat_replicate_len)

lemma concat_macs_Nil: "all_macs ms \<Longrightarrow> concat ms = [] \<longleftrightarrow> ms = []"
  by (cases ms) (auto simp: all_macs_def MAC_SIZE_def)

lemma chain_macs_chain:
  assumes "chain h p as" "\<forall>a \<in> set as. length (mac (h ! a)) = MAC_SIZE" "length as < n"
  shows "chain_macs n h p = Inr (map (\<lambda>a. mac (h ! a)) as)"
  using assms
proof (induction as arbitrary: p n)
  case Nil
  then show ?case by (cases n) auto
next
  case (Cons a as)
  then obtain m where "n = Suc m" by (cases n) auto
  with Cons show ?case by (auto simp: deref_def memread_def)
qed

lemma macbuf_read_holds:
  "i < length mb \<Longrightarrow> macbuf_holds (mb ! i) ms \<Longrightarrow> macbuf_read mb i = Inr (concat ms)"
  by (auto simp: macbuf_read_def macbuf_holds_def memread_def)

lemma aggregate_concat:
  "(\<And>i. i \<in> set idx \<Longrightarrow> rd i = Inr (f i)) \<Longrightarrow> aggregate rd idx = Inr (concat (map f idx))"
  by (induction idx) auto

lemma aggregate_mac_blocks:
  assumes "group_blocks s idx bm"
  shows "aggregate_mac s idx = Inr (concat (flat bm idx))"
proof -
  have "concat (flat bm idx) = concat (map (\<lambda>i. concat (bm i)) idx)"
    by (simp add: concat_map_concat)
  with assms show ?thesis
    by (auto simp: aggregate_mac_def group_blocks_def macbuf_read_holds intro!: aggregate_concat)
qed

section \<open>Counting\<close>

lemma macbuf_counts_skip:
  assumes "hash_val \<notin> set xs" "\<forall>i \<in> set xs. i < length mb"
  shows "macbuf_counts mb hash_val ins pos (xs @ ys) t u =
    macbuf_counts mb hash_val ins pos ys (t + (\<Sum>i\<leftarrow>xs. msize (mb ! i))) u"
  using assms by (induction xs arbitrary: t) (auto simp: add.assoc)

lemma macbuf_counts_end:
  assumes "hash_val \<notin> set xs" "\<forall>i \<in> set xs. i < length mb"
  shows "macbuf_counts mb hash_val ins pos xs t u = Inr (t + (\<Sum>i\<leftarrow>xs. msize (mb ! i)), u)"
  using macbuf_counts_skip [OF assms, of ins pos "[]"] by simp

lemma chain_counts_skip:
  assumes "hash_val \<notin> set xs" "\<forall>i \<in> set xs. bucket_macs s i = Inr (bm i)"
  shows "chain_counts s hash_val (xs @ ys) t p c =
    chain_counts s hash_val ys (t + int (length (flat bm xs))) p c"
  using assms by (induction xs arbitrary: t) (auto simp: add.assoc)

lemma chain_counts_end:
  assumes "hash_val \<notin> set xs" "\<forall>i \<in> set xs. bucket_macs s i = Inr (bm i)"
  shows "chain_counts s hash_val xs t p c = Inr (t + int (length (flat bm xs)), p, c)"
  using chain_counts_skip [OF assms, of "[]"] by simp

lemma sum_msize_flat:
  "\<forall>i \<in> set xs. macbuf_holds (mb ! i) (bm i) \<Longrightarrow> (\<Sum>i\<leftarrow>xs. msize (mb ! i)) = int (length (flat bm xs))"
  by (induction xs) (auto simp: macbuf_holds_def)

text \<open>
  The position of the changed MAC inside its bucket. A MAC bucket grows at its end and a
  chain at its front, so an insertion at depth \<open>kv_pos\<close> and an update at depth \<open>kv_pos\<close> count
  from opposite ends.
\<close>

definition mac_index :: "bool \<Rightarrow> bool \<Rightarrow> nat \<Rightarrow> nat \<Rightarrow> int" where
  "mac_index mac_opt0 is_insert len kv_pos =
     (if mac_opt0 = is_insert then int kv_pos else int len - int kv_pos - 1)"

lemma rebuild_counts_blocks:
  assumes "group_blocks s (xs @ hash_val # ys) bm" "hash_val \<notin> set xs" "hash_val \<notin> set ys"
  shows "rebuild_counts s hash_val (int kv_pos) ins (xs @ hash_val # ys) =
    Inr (int (length (flat bm (xs @ hash_val # ys))),
         int (length (flat bm xs)) + mac_index (mac_opt (arg s)) ins (length (bm hash_val)) kv_pos)"
proof (cases "mac_opt (arg s)")
  case True
  have b: "\<forall>i \<in> set xs. i < length (MACbuf s)" "\<forall>i \<in> set ys. i < length (MACbuf s)"
    "hash_val < length (MACbuf s)"
    and f: "\<forall>i \<in> set xs. macbuf_holds (MACbuf s ! i) (bm i)"
      "\<forall>i \<in> set ys. macbuf_holds (MACbuf s ! i) (bm i)"
      "macbuf_holds (MACbuf s ! hash_val) (bm hash_val)"
    using assms(1) True by (auto simp: group_blocks_def)
  from f(3) have "msize (MACbuf s ! hash_val) = int (length (bm hash_val))"
    by (simp add: macbuf_holds_def)
  with True b assms(2,3) sum_msize_flat [OF f(1)] sum_msize_flat [OF f(2)] show ?thesis
    by (auto simp: rebuild_counts_def macbuf_counts_skip macbuf_counts_end mac_index_def)
next
  case False
  then have b: "\<forall>i \<in> set xs. bucket_macs s i = Inr (bm i)" "\<forall>i \<in> set ys. bucket_macs s i = Inr (bm i)"
    "bucket_macs s hash_val = Inr (bm hash_val)"
    using assms(1) by (auto simp: group_blocks_def)
  with False assms(2,3) show ?thesis
    by (auto simp: rebuild_counts_def chain_counts_skip [OF _ b(1)] chain_counts_end [OF _ b(2)]
        mac_index_def)
qed

section \<open>The group of a bucket\<close>

lemma group_indices_split:
  assumes "0 < ratio_root_per_buckets s"
  obtains xs ys where "group_indices s b = Inr (xs @ b # ys)" "b \<notin> set xs" "b \<notin> set ys"
proof -
  let ?r = "nat (ratio_root_per_buckets s)"
  let ?st = "b div ?r * ?r"
  have r: "0 < ?r" using assms by simp
  have "?st \<le> b" "b < ?st + ?r"
    using r by (simp, metis div_mult_mod_eq mod_less_divisor nat_add_left_cancel_less)
  then have "[?st..<?st + ?r] = [?st..<b] @ b # [Suc b..<?st + ?r]"
    by (metis append_Cons append_Nil le_add_diff_inverse less_imp_le upt_add_eq_append upt_conv_Cons)
  with assms show thesis
    using that [of "[?st..<b]" "[Suc b..<?st + ?r]"] by (simp add: group_indices_def Let_def)
qed

section \<open>Verification and rebuilding\<close>

lemma verify_tree_root_eq:
  assumes "env_ok E" "group_indices s b = Inr idx" "group_blocks s idx bm" "root_slot s b = Inr g"
    "flat bm idx \<noteq> []"
  shows "enclave_verify_tree_root E s b =
    Inr (if MACTable s ! g = tag E gsk (concat (flat bm idx)) then SGX_SUCCESS else SGX_ERROR_UNEXPECTED)"
  using assms(1,2,4) aggregate_mac_blocks [OF assms(3)] concat_macs_Nil [OF all_macs_flat [OF assms(3)]]
    cmac_okD [of E "concat (flat bm idx)"] assms(5)
  by (auto simp: enclave_verify_tree_root_def get_chain_mac_def env_ok_def)

lemma store_root_eq:
  assumes "env_ok E" "root_slot s b = Inr g" "agg \<noteq> []"
  shows "store_root E s b agg = Inr (SGX_SUCCESS, s\<lparr>MACTable := (MACTable s)[g := tag E gsk agg]\<rparr>)"
  using assms cmac_okD [of E agg] by (simp add: store_root_def env_ok_def)

lemma rebuild_update_eq:
  assumes "env_ok E" "group_indices s b = Inr (xs @ b # ys)" "b \<notin> set xs" "b \<notin> set ys"
    and "group_blocks s (xs @ b # ys) bm" "root_slot s b = Inr g"
    and "mac_index (mac_opt (arg s)) False (length (bm b)) pos = int j" "j < length (bm b)"
    and "length prev_mac = MAC_SIZE"
  defines "old \<equiv> (flat bm (xs @ b # ys))[length (flat bm xs) + j := prev_mac]"
  shows "enclave_rebuild_tree_root E s b pos False prev_mac =
    (if MACTable s ! g = tag E gsk (concat old)
     then Inr (SGX_SUCCESS, s\<lparr>MACTable := (MACTable s)[g := tag E gsk (concat (flat bm (xs @ b # ys)))]\<rparr>)
     else Inr (SGX_ERROR_UNEXPECTED, print ''Previous MAC compare failed'' s))"
proof -
  let ?new = "flat bm (xs @ b # ys)" and ?u = "length (flat bm xs) + j"
  have m: "all_macs ?new" using assms(5) by (rule all_macs_flat)
  have u: "?u < length ?new" using assms(8) by simp
  have "MAC_SIZE * ?u + MAC_SIZE \<le> MAC_SIZE * length ?new"
    using u by (metis Suc_leI mult_Suc_right mult_le_mono2 add.commute)
  then have "memcpy_at (concat ?new) (MAC_SIZE * ?u) MAC_SIZE prev_mac = Inr (concat old)"
    using concat_update_block [of ?new MAC_SIZE ?u prev_mac] m u assms(9) length_concat_macs [OF m]
    by (simp add: memcpy_at_def old_def all_macs_def add.commute)
  moreover have "nat (int (length (flat bm xs)) + int j) = ?u" by simp
  ultimately have "previous_aggregate False (int (length ?new)) (int (length (flat bm xs)) + int j)
      (concat ?new) prev_mac = Inr (Some (concat old))"
    by (simp add: previous_aggregate_def)
  moreover have ne: "concat ?new \<noteq> []" "concat old \<noteq> []"
  proof -
    have "?new \<noteq> []" using assms(8) by auto
    then show "concat ?new \<noteq> []" by (simp only: concat_macs_Nil [OF m]) simp
    have "all_macs old" using m assms(9) set_update_subset_insert [of ?new ?u prev_mac]
      by (auto simp: old_def all_macs_def)
    moreover have "old \<noteq> []" using \<open>?new \<noteq> []\<close> unfolding old_def by (simp only: list_update_nonempty) simp
    ultimately show "concat old \<noteq> []" using concat_macs_Nil by blast
  qed
  moreover have "cmac_ok E" using assms(1) by (simp add: env_ok_def)
  ultimately show ?thesis
    using assms(2,6) rebuild_counts_blocks [OF assms(5,3,4), of pos False] assms(7)
      aggregate_mac_blocks [OF assms(5)] cmac_okD [of E "concat old"] store_root_eq [OF assms(1,6) ne(1)]
    by (simp only: enclave_rebuild_tree_root_def bindE_Inr prod.case) simp
qed

lemma rebuild_insert_eq:
  assumes "env_ok E" "group_indices s b = Inr (xs @ b # ys)" "b \<notin> set xs" "b \<notin> set ys"
    and "group_blocks s (xs @ b # ys) bm" "root_slot s b = Inr g"
    and "mac_index (mac_opt (arg s)) True (length (bm b)) pos = int j" "j < length (bm b)"
    and "ndebug E \<or> pos = 0"
  defines "new \<equiv> flat bm (xs @ b # ys)" and "u \<equiv> length (flat bm xs) + j"
  defines "old \<equiv> take u new @ drop (Suc u) new"
  shows "enclave_rebuild_tree_root E s b pos True prev_mac =
    (if old = [] \<or> MACTable s ! g = tag E gsk (concat old)
     then Inr (SGX_SUCCESS, s\<lparr>MACTable := (MACTable s)[g := tag E gsk (concat new)]\<rparr>)
     else Inr (SGX_ERROR_UNEXPECTED, print ''Previous MAC compare failed'' s))"
proof -
  have m: "all_macs new" unfolding new_def using assms(5) by (rule all_macs_flat)
  have u: "u < length new" using assms(8) by (simp add: u_def new_def)
  have len: "length old = length new - 1" using u by (simp add: old_def)
  then have old: "old = [] \<longleftrightarrow> \<not> 1 < length new" by (cases old) auto
  have "concat old = take (MAC_SIZE * u) (concat new) @ drop (MAC_SIZE * Suc u) (concat new)"
    using m by (simp only: old_def all_macs_def concat_remove_block)
  moreover have "nat (int (length (flat bm xs)) + int j) = u" by (simp add: u_def)
  moreover have "int (length (flat bm xs)) + int j < int (length new)" using u by (simp add: u_def)
  ultimately have "previous_aggregate True (int (length new)) (int (length (flat bm xs)) + int j)
      (concat new) prev_mac = Inr (if old = [] then None else Some (concat old))"
    using old by (auto simp: previous_aggregate_def simp del: mult_Suc_right)
  moreover have "rebuild_counts s b (int pos) True (xs @ b # ys) =
      Inr (int (length new), int (length (flat bm xs)) + int j)"
    unfolding new_def assms(7) [symmetric] by (rule rebuild_counts_blocks [OF assms(5,3,4)])
  moreover have "aggregate_mac s (xs @ b # ys) = Inr (concat new)"
    unfolding new_def using assms(5) by (rule aggregate_mac_blocks)
  moreover have "concat new \<noteq> []" using u concat_macs_Nil [OF m] by auto
  moreover have "old \<noteq> [] \<Longrightarrow> concat old \<noteq> []"
  proof -
    have "all_macs old" using m by (auto simp: old_def all_macs_def dest: in_set_takeD in_set_dropD)
    then show "old \<noteq> [] \<Longrightarrow> concat old \<noteq> []" by (simp only: concat_macs_Nil) simp
  qed
  ultimately show ?thesis
    using assms(1,2,6,9) cmac_okD [of E "concat old"] store_root_eq [of E s b g "concat new"]
    by (auto simp: enclave_rebuild_tree_root_def env_ok_def)
qed

end
