(* ===== verification/C_Library.thy ===== *)
theory C_Library
  imports Prelude
begin

text \<open>
  Library functions and idioms the programs share: integer division and \<open>atoi\<close>, reading a file
  line by line, the comparison of a command, and cutting a request into its key and its value.
\<close>

section \<open>Numbers\<close>

text \<open>C division truncates towards zero.\<close>

definition c_div :: "int \<Rightarrow> int \<Rightarrow> int" where
  "c_div a b = sgn a * sgn b * (\<bar>a\<bar> div \<bar>b\<bar>)"

text \<open>
  The value \<open>atoi\<close> gives for a decimal string: optional white space, an optional sign, and
  the digits up to the first other character. (Numbers outside the range of \<open>int\<close> are undefined
  behaviour in C and stay unconverted here.)
\<close>

definition is_space :: "char \<Rightarrow> bool" where
  "is_space c \<longleftrightarrow> of_char c \<in> {9, 10, 11, 12, 13, 32 :: nat}"

definition digit_value :: "char \<Rightarrow> int option" where
  "digit_value c =
     (let n = of_char c :: nat in if 48 \<le> n \<and> n \<le> 57 then Some (int n - 48) else None)"

fun atoi_digits :: "int \<Rightarrow> string \<Rightarrow> int" where
  "atoi_digits acc [] = acc"
| "atoi_digits acc (c # cs) =
     (case digit_value c of None \<Rightarrow> acc | Some d \<Rightarrow> atoi_digits (acc * 10 + d) cs)"

definition atoi :: "string \<Rightarrow> int" where
  "atoi s =
     (case dropWhile is_space s of
        [] \<Rightarrow> 0
      | c # cs \<Rightarrow>
          if c = CHR ''-'' then - atoi_digits 0 cs
          else if c = CHR ''+'' then atoi_digits 0 cs
          else atoi_digits 0 (c # cs))"

lemma c_div_pos: "0 \<le> a \<Longrightarrow> 0 < b \<Longrightarrow> c_div a b = a div b"
  by (cases "a = 0") (auto simp: c_div_def)

text \<open>What \<open>%d\<close> prints.\<close>

definition digit_char :: "nat \<Rightarrow> char" where
  "digit_char d = char_of (48 + d)"

fun decimal_nat :: "nat \<Rightarrow> string" where
  "decimal_nat n =
     (if n < 10 then [digit_char n] else decimal_nat (n div 10) @ [digit_char (n mod 10)])"

declare decimal_nat.simps [simp del]

definition decimal :: "int \<Rightarrow> string" where
  "decimal n = (if n < 0 then CHR ''-'' # decimal_nat (nat (- n)) else decimal_nat (nat n))"

lemma digit_value_char: "d < 10 \<Longrightarrow> digit_value (digit_char d) = Some (int d)"
  by (simp add: digit_value_def digit_char_def Let_def)

lemma atoi_digits_append:
  "\<forall>c \<in> set xs. digit_value c \<noteq> None \<Longrightarrow> atoi_digits a (xs @ ys) = atoi_digits (atoi_digits a xs) ys"
  by (induction xs arbitrary: a) auto

lemma decimal_nat_digits:
  "(\<forall>c \<in> set (decimal_nat n). digit_value c \<noteq> None) \<and> atoi_digits 0 (decimal_nat n) = int n \<and> decimal_nat n \<noteq> []"
proof (induction n rule: decimal_nat.induct)
  case (1 n)
  show ?case
  proof (cases "n < 10")
    case True
    then show ?thesis by (simp add: decimal_nat.simps [of n] digit_value_char)
  next
    case False
    moreover have "int (n div 10) * 10 + int (n mod 10) = int n" by presburger
    ultimately show ?thesis using 1
      by (auto simp: decimal_nat.simps [of n] digit_value_char atoi_digits_append)
  qed
qed

text \<open>\<open>atoi\<close> reads back what was printed.\<close>

lemma digit_not_space: "digit_value c \<noteq> None \<Longrightarrow> \<not> is_space c \<and> c \<noteq> CHR ''-'' \<and> c \<noteq> CHR ''+''"
  by (auto simp: digit_value_def is_space_def Let_def split: if_splits)

lemma atoi_decimal: "atoi (decimal n) = n"
proof -
  obtain c cs where d: "decimal_nat (nat \<bar>n\<bar>) = c # cs" using decimal_nat_digits by (metis neq_Nil_conv)
  with decimal_nat_digits [of "nat \<bar>n\<bar>"] have c: "digit_value c \<noteq> None" "atoi_digits 0 (c # cs) = \<bar>n\<bar>" by auto
  have m: "\<not> is_space (CHR ''-'')" by (simp add: is_space_def)
  show ?thesis
    using d c digit_not_space [OF c(1)] m by (auto simp: atoi_def decimal_def simp del: atoi_digits.simps)
qed

section \<open>Requests\<close>

text \<open>\<open>strncmp(cipher, name, n) == 0 || strncmp(cipher, name', n) == 0\<close>.\<close>

definition is_command :: "nat \<Rightarrow> string \<Rightarrow> string \<Rightarrow> bytes \<Rightarrow> bool res" where
  "is_command n upper lower b =
     bindE (strncmp_eq n b (lit upper @ [0])) (\<lambda>y.
       if y then Inr True else strncmp_eq n b (lit lower @ [0]))"

text \<open>
  \<open>tok = strtok_r(cipher+4, " ", &temp)\<close> and the NUL-terminated copy of the token: the key, what
  \<open>temp\<close> points to, and the request buffer afterwards.
\<close>

definition parse_key :: "bytes \<Rightarrow> (bytes \<times> bytes option \<times> bytes) res" where
  "parse_key cipher =
     bindE (requireE (4 \<le> length cipher) OutOfBounds) (\<lambda>_.
     bindE (strtok_r (drop 4 cipher)) (\<lambda>(tok, temp, b).
     case tok of
       None \<Rightarrow> Inl NullDeref
     | Some t \<Rightarrow> Inr (t @ [0], temp, take 4 cipher @ b)))"

text \<open>The NUL-terminated copy of the rest of the request.\<close>

definition parse_val :: "bytes option \<Rightarrow> bytes res" where
  "parse_val temp =
     (case temp of
        None \<Rightarrow> Inl Unspecified
      | Some r \<Rightarrow> bindE (c_str r) (\<lambda>v. Inr (v @ [0])))"

text \<open>
  A request is a four-byte command, a key, and for SET and APPEND a blank and a value, ended by
  a NUL in its buffer.
\<close>

definition key_request :: "bytes \<Rightarrow> bytes \<Rightarrow> bytes \<Rightarrow> bytes" where
  "key_request cmd k rest = cmd @ k @ 0 # rest"

definition kv_request :: "bytes \<Rightarrow> bytes \<Rightarrow> bytes \<Rightarrow> bytes \<Rightarrow> bytes" where
  "kv_request cmd k v rest = cmd @ k @ blank # v @ 0 # rest"

lemma parse_key_request:
  assumes "length cmd = 4" "plain_word k"
  shows "parse_key (key_request cmd k rest) = Inr (k @ [0], None, key_request cmd k rest)"
  using assms by (simp add: parse_key_def key_request_def strtok_r_word_end)

lemma parse_kv_request:
  assumes "length cmd = 4" "plain_word k"
  shows "parse_key (kv_request cmd k v rest) =
    Inr (k @ [0], Some (v @ 0 # rest), cmd @ k @ 0 # v @ 0 # rest)"
  using assms by (simp add: parse_key_def kv_request_def strtok_r_word_blank)

lemma parse_val_string: "0 \<notin> set v \<Longrightarrow> parse_val (Some (v @ 0 # rest)) = Inr (v @ [0])"
  by (simp add: parse_val_def c_str_terminated)

text \<open>A string in a buffer of \<open>n\<close> zeroed bytes.\<close>

definition pad :: "nat \<Rightarrow> bytes \<Rightarrow> bytes" where
  "pad n b = b @ replicate (n - length b) 0"

lemma pad_split: "length b < n \<Longrightarrow> pad n b = b @ 0 # replicate (n - length b - 1) 0"
  by (simp add: pad_def Suc_diff_Suc flip: replicate_Suc)

section \<open>Files\<close>

text \<open>
  \<open>fgets(buf, n, f)\<close> on the unread bytes of a file: at most \<open>n - 1\<close> bytes, up to and with a
  newline, and a NUL behind them. At the end of the file the buffer stays as it is.
\<close>

definition newline :: byte where
  "newline = 10"

definition first_line :: "bytes \<Rightarrow> bytes" where
  "first_line f =
     (let l = takeWhile (\<lambda>c. c \<noteq> newline) f in if length l < length f then l @ [newline] else l)"

definition fgets :: "nat \<Rightarrow> bytes \<Rightarrow> bytes \<Rightarrow> bytes \<times> bytes" where
  "fgets n buf f =
     (if f = [] then (buf, [])
      else let l = take (n - 1) (first_line f) in
        (l @ 0 # drop (length l + 1) buf, drop (length l) f))"

text \<open>\<open>k\<close> times \<open>fgets\<close> into the same buffer; the buffer after each.\<close>

fun read_lines :: "nat \<Rightarrow> nat \<Rightarrow> bytes \<Rightarrow> bytes \<Rightarrow> bytes list" where
  "read_lines 0 n buf f = []"
| "read_lines (Suc k) n buf f =
     (case fgets n buf f of (buf', f') \<Rightarrow> buf' # read_lines k n buf' f')"

lemma length_read_lines [simp]: "length (read_lines k n buf f) = k"
  by (induction k arbitrary: buf f) (auto split: prod.splits)

end
