(* ===== verification/Enclave_Ops.thy ===== *)
theory Enclave_Ops
  imports Tree_Semantics C_Library
begin

text \<open>
  The request handlers of \<open>Enclave/Enclave.cpp\<close>: \<open>enclave_init_values\<close>, \<open>enclave_set\<close>,
  \<open>enclave_get\<close> and \<open>enclave_append\<close>. A handler works on the request buffer \<open>cipher\<close>, which it
  overwrites with the reply, and on the state of the enclave.
\<close>

section \<open>Initialisation\<close>

text \<open>
  A null hash table is dereferenced for its size. A negative number of roots leaves the MAC
  table unallocated and skips the loop that clears it.
\<close>

definition enclave_init_values ::
  "hashtable option \<Rightarrow> entry list \<Rightarrow> MACentry list \<Rightarrow> Arg \<Rightarrow> enclave res" where
  "enclave_init_values ht0 mem MACbuf0 arg0 =
     (case ht0 of
        None \<Rightarrow> Inl NullDeref
      | Some t \<Rightarrow>
          if tree_root_size arg0 = 0 then Inl DivByZero
          else Inr \<lparr>ht = t, heap = mem, MACbuf = MACbuf0,
                    MACTable = replicate (nat (tree_root_size arg0)) (replicate MAC_SIZE 0),
                    arg = arg0,
                    ratio_root_per_buckets = c_div (hsize t) (tree_root_size arg0),
                    out = []\<rparr>)"

section \<open>Parsing and replying\<close>

text \<open>\<open>memset(cipher, 0, arg_enclave.max_buf_size); memcpy(cipher, data, n)\<close>.\<close>

definition reply :: "enclave \<Rightarrow> bytes \<Rightarrow> bytes \<Rightarrow> bytes res" where
  "reply s cipher data =
     (let n = max_buf_size (arg s) in
      if 0 \<le> n \<and> nat n \<le> length cipher
      then memcpy_at (replicate (nat n) 0 @ drop (nat n) cipher) 0 (length data) data
      else Inl OutOfBounds)"

section \<open>Handlers\<close>

text \<open>The check of an entry that was found: a failed check is only reported.\<close>

definition verify_found :: "env \<Rightarrow> enclave \<Rightarrow> nat \<Rightarrow> (entry \<times> enclave) res" where
  "verify_found E s a =
     bindE (deref (heap s) a) (\<lambda>e.
     case key_val e of
       None \<Rightarrow> Inl NullDeref
     | Some c \<Rightarrow>
         bindE (enclave_verification E c (key_hash e) (key_size e) (val_size e) (nac e) (mac e) s) (\<lambda>(ret, s1).
           Inr (e, if ret \<noteq> SGX_SUCCESS then print ''MAC verification failed'' s1 else s1)))"

text \<open>
  \<open>enclave_set\<close>; \<open>rand\<close> is what \<open>sgx_read_rand\<close> puts into the counter block of a new entry. On an
  insertion \<open>prev_mac\<close> stays uninitialised and is never read.
\<close>

definition enclave_set :: "env \<Rightarrow> bytes \<Rightarrow> enclave \<Rightarrow> bytes \<Rightarrow> (bytes \<times> enclave) res" where
  "enclave_set E rand s cipher =
     bindE (parse_key cipher) (\<lambda>(key, temp, cipher1).
     bindE (parse_val temp) (\<lambda>val.
     let ks = of_nat (length key); vs = of_nat (length val) in
     bindE (ht_get_o E s key ks) (\<lambda>(ret_entry, kv_pos).
     bindE (bucket_index s key) (\<lambda>hash_val.
     let key_idx = key_hash_func key in
     bindE (case ret_entry of
              Some (a, plain, updated_nac) \<Rightarrow>
                bindE (verify_found E s a) (\<lambda>(e, s1). Inr (updated_nac, False, mac e, s1))
            | None \<Rightarrow> Inr (rand, True, [], s)) (\<lambda>(n, is_insert, prev_mac, s1).
     bindE (enclave_encrypt E (key @ val) key_idx ks vs n) (\<lambda>(kv, m).
     bindE (ht_set_o E s1 (map_option fst ret_entry) key kv n m ks vs kv_pos) (\<lambda>s2.
     bindE (enclave_rebuild_tree_root E s2 hash_val kv_pos is_insert prev_mac) (\<lambda>(ret, s3).
     let s4 = (if ret \<noteq> SGX_SUCCESS then print ''Tree verification failed'' s3 else s3) in
     bindE (reply s4 cipher1 key) (\<lambda>cipher2. Inr (cipher2, s4))))))))))"

definition enclave_get :: "env \<Rightarrow> enclave \<Rightarrow> bytes \<Rightarrow> (bytes \<times> enclave) res" where
  "enclave_get E s cipher =
     bindE (parse_key cipher) (\<lambda>(key, temp, cipher1).
     bindE (ht_get_o E s key (of_nat (length key))) (\<lambda>(ret_entry, kv_pos).
     case ret_entry of
       None \<Rightarrow> Inr (cipher1, print ''GET FAILED: No data in database'' s)
     | Some (a, plain, updated_nac) \<Rightarrow>
         bindE (bucket_index s key) (\<lambda>hash_val.
         bindE (verify_found E s a) (\<lambda>(e, s1).
         bindE (enclave_verify_tree_root E s1 hash_val) (\<lambda>ret.
         let s2 = (if ret \<noteq> SGX_SUCCESS then print ''Tree verification failed'' s1 else s1) in
         bindE (memread (unat (val_size e)) (drop (unat (key_size e)) plain)) (\<lambda>v.
         bindE (reply s2 cipher1 v) (\<lambda>cipher2. Inr (cipher2, s2))))))))"

text \<open>
  The appended pair: the old key and value without the final NUL, followed by the new value;
  the buffer is allocated with a size computed in 32-bit arithmetic.
\<close>

definition appended :: "bytes \<Rightarrow> u32 \<Rightarrow> u32 \<Rightarrow> bytes \<Rightarrow> u32 \<Rightarrow> bytes res" where
  "appended plain ks vs val vs' =
     bindE (memread (unat (ks + vs)) plain) (\<lambda>old.
     bindE (memcpy_at (replicate (unat (ks + vs + vs' - 1)) 0) 0 (unat (ks + vs)) old) (\<lambda>b.
       memcpy_at b (unat ks + unat vs - 1) (unat vs') val))"

definition enclave_append :: "env \<Rightarrow> enclave \<Rightarrow> bytes \<Rightarrow> (bytes \<times> enclave) res" where
  "enclave_append E s cipher =
     bindE (parse_key cipher) (\<lambda>(key, temp, cipher1).
     bindE (parse_val temp) (\<lambda>val.
     let ks = of_nat (length key); vs = of_nat (length val) in
     bindE (ht_get_o E s key ks) (\<lambda>(ret_entry, kv_pos).
     bindE (bucket_index s key) (\<lambda>hash_val.
     let key_idx = key_hash_func key in
     case ret_entry of
       None \<Rightarrow> Inr (cipher1, print ''There's no data in the database'' s)
     | Some (a, plain, n) \<Rightarrow>
         bindE (verify_found E s a) (\<lambda>(e, s1).
         bindE (appended plain (key_size e) (val_size e) val vs) (\<lambda>key_val1.
         bindE (enclave_encrypt E key_val1 key_idx ks (val_size e + vs - 1) n) (\<lambda>(kv, m).
         bindE (ht_append_o E s1 (Some a) key kv n m ks (val_size e + vs - 1) kv_pos) (\<lambda>s2.
         bindE (enclave_rebuild_tree_root E s2 hash_val kv_pos False (mac e)) (\<lambda>(ret, s3).
         let s4 = (if ret \<noteq> SGX_SUCCESS then print ''Tree verification failed'' s3 else s3) in
         bindE (reply s4 cipher1 key) (\<lambda>cipher2. Inr (cipher2, s4)))))))))))"

end
