(* ===== verification/Store_Rep.thy ===== *)
theory Store_Rep
  imports Enclave_Ops
begin

text \<open>
  The representation of a key-value map by the state of the enclave: which chains the
  memory holds, what their entries mean, how the MAC buckets mirror the chains, and that
  the roots authenticate the groups. The lemmas say how an update in place and an insertion
  at the front of a chain change the represented map.
\<close>

section \<open>Configuration\<close>

abbreviation nbuckets :: "enclave \<Rightarrow> nat" where
  "nbuckets s \<equiv> nat (hsize (ht s))"

definition bin_of :: "enclave \<Rightarrow> bytes \<Rightarrow> nat" where
  "bin_of s k = nat (ht_hash (hsize (ht s)) k)"

text \<open>
  A usable configuration: the number of roots divides the number of buckets, and the
  arrays have the sizes they were created with.
\<close>

definition config_ok :: "enclave \<Rightarrow> bool" where
  "config_ok s \<longleftrightarrow>
     0 < hsize (ht s) \<and> hsize (ht s) < 2 ^ 31 \<and>
     0 < tree_root_size (arg s) \<and> tree_root_size (arg s) dvd hsize (ht s) \<and>
     ratio_root_per_buckets s = hsize (ht s) div tree_root_size (arg s) \<and>
     length (table (ht s)) = nbuckets s \<and>
     length (MACTable s) = nat (tree_root_size (arg s)) \<and>
     (mac_opt (arg s) \<longrightarrow> length (MACbuf s) = nbuckets s) \<and>
     0 \<le> max_buf_size (arg s) \<and> max_buf_size (arg s) < 2 ^ 30"

abbreviation ratio :: "enclave \<Rightarrow> nat" where
  "ratio s \<equiv> nat (ratio_root_per_buckets s)"

definition group_of :: "enclave \<Rightarrow> nat \<Rightarrow> nat list" where
  "group_of s g = [g * ratio s..<g * ratio s + ratio s]"

lemma config_ratio:
  assumes "config_ok s"
  shows "0 < ratio s" "0 < ratio_root_per_buckets s" "nbuckets s = length (MACTable s) * ratio s"
proof -
  let ?n = "hsize (ht s)" and ?t = "tree_root_size (arg s)"
  have t: "0 < ?n" "0 < ?t" "?t dvd ?n" "ratio_root_per_buckets s = ?n div ?t"
    "length (MACTable s) = nat ?t"
    using assms by (auto simp: config_ok_def)
  then have "?n = ?t * (?n div ?t)" by simp
  moreover from this t have "0 < ?n div ?t"
    by (metis zero_less_mult_pos)
  ultimately show "0 < ratio s" "0 < ratio_root_per_buckets s" "nbuckets s = length (MACTable s) * ratio s"
    using t by (simp_all, metis nat_mult_distrib less_imp_le)
qed

lemma bin_of_less: "config_ok s \<Longrightarrow> bin_of s k < nbuckets s"
  using ht_hash_bounds [of "hsize (ht s)" k] by (auto simp: bin_of_def config_ok_def)

lemma bin_of_c_str: "0 \<notin> set k \<Longrightarrow> bin_of s (k @ [0]) = bin_of s k"
  by (simp add: bin_of_def ht_hash_c_str)

lemma bucket_index_eq:
  assumes "config_ok s" "0 \<notin> set k"
  shows "bucket_index s (k @ [0]) = Inr (bin_of s k)"
proof -
  have "0 \<le> ht_hash (hsize (ht s)) k" "ht_hash (hsize (ht s)) k < hsize (ht s)" "0 < hsize (ht s)"
    using assms(1) ht_hash_bounds [of "hsize (ht s)" k] by (auto simp: config_ok_def)
  with assms show ?thesis
    by (simp add: bucket_index_def Let_def bin_of_def ht_hash_c_str config_ok_def)
qed

lemma bucket_index_frame: "ht s' = ht s \<Longrightarrow> bucket_index s' key = bucket_index s key"
  by (simp add: bucket_index_def Let_def)

lemma group_indices_frame:
  "ratio_root_per_buckets s' = ratio_root_per_buckets s \<Longrightarrow> group_indices s' b = group_indices s b"
  by (simp add: group_indices_def)

lemma root_slot_frame:
  "ratio_root_per_buckets s' = ratio_root_per_buckets s \<Longrightarrow> length (MACTable s') = length (MACTable s) \<Longrightarrow>
   root_slot s' b = root_slot s b"
  by (simp add: root_slot_def Let_def)

lemma group_of_bucket:
  assumes "config_ok s" "b < nbuckets s"
  shows "group_indices s b = Inr (group_of s (b div ratio s))"
    "root_slot s b = Inr (b div ratio s)" "b \<in> set (group_of s (b div ratio s))"
    "set (group_of s (b div ratio s)) \<subseteq> {..<nbuckets s}" "b div ratio s < length (MACTable s)"
proof -
  note r = config_ratio [OF assms(1)]
  have lt: "b div ratio s < length (MACTable s)"
    using assms(2) r by (simp add: less_mult_imp_div_less)
  show "group_indices s b = Inr (group_of s (b div ratio s))"
    using r by (simp add: group_indices_def group_of_def Let_def)
  show "root_slot s b = Inr (b div ratio s)" "b div ratio s < length (MACTable s)"
    using r lt by (simp_all add: root_slot_def Let_def)
  have "b div ratio s * ratio s \<le> b" "b < b div ratio s * ratio s + ratio s"
    using r by (simp, metis div_mult_mod_eq mod_less_divisor nat_add_left_cancel_less)
  then show "b \<in> set (group_of s (b div ratio s))"
    by (simp add: group_of_def)
  have "Suc (b div ratio s) * ratio s \<le> length (MACTable s) * ratio s"
    using lt by (metis Suc_leI mult_le_mono1)
  then show "set (group_of s (b div ratio s)) \<subseteq> {..<nbuckets s}"
    using r(3) by (auto simp: group_of_def)
qed

lemma group_of_member:
  assumes "0 < ratio s" "b \<in> set (group_of s g)"
  shows "g = b div ratio s"
proof -
  from assms(2) obtain d where "b = g * ratio s + d" "d < ratio s"
    by (auto simp: group_of_def dest: le_Suc_ex)
  with assms(1) show ?thesis by simp
qed

lemma group_of_split:
  assumes "b \<in> set (group_of s g)"
  obtains xs ys where "group_of s g = xs @ b # ys" "b \<notin> set xs" "b \<notin> set ys"
proof -
  from assms obtain xs ys where *: "group_of s g = xs @ b # ys"
    by (auto simp: in_set_conv_decomp)
  moreover have "distinct (group_of s g)" by (simp add: group_of_def)
  ultimately show thesis using that by simp
qed

section \<open>Representation\<close>

text \<open>The MACs of bucket \<open>i\<close> in the order in which the integrity tree reads them.\<close>

definition bmacs :: "enclave \<Rightarrow> (nat \<Rightarrow> nat list) \<Rightarrow> nat \<Rightarrow> bytes list" where
  "bmacs s bs i =
     (let ms = map (\<lambda>a. mac (heap s ! a)) (bs i) in if mac_opt (arg s) then rev ms else ms)"

definition bucket_rep :: "env \<Rightarrow> enclave \<Rightarrow> nat \<Rightarrow> nat list \<Rightarrow> (bytes \<times> bytes) list \<Rightarrow> bool" where
  "bucket_rep E s i as kvs \<longleftrightarrow>
     chain (heap s) (table (ht s) ! i) as \<and> holds E (heap s) as kvs \<and>
     distinct (map fst kvs) \<and> (\<forall>k \<in> fst ` set kvs. bin_of s k = i) \<and>
     (mac_opt (arg s) \<longrightarrow> macbuf_holds (MACbuf s ! i) (rev (map (\<lambda>a. mac (heap s ! a)) as)))"

definition rep0 :: "env \<Rightarrow> enclave \<Rightarrow> (nat \<Rightarrow> nat list) \<Rightarrow> (nat \<Rightarrow> (bytes \<times> bytes) list) \<Rightarrow> bool" where
  "rep0 E s bs kvs \<longleftrightarrow> env_ok E \<and> config_ok s \<and>
     (\<forall>i < nbuckets s. bucket_rep E s i (bs i) (kvs i)) \<and>
     (\<forall>i < nbuckets s. \<forall>j < nbuckets s. i \<noteq> j \<longrightarrow> set (bs i) \<inter> set (bs j) = {})"

definition root_ok :: "env \<Rightarrow> enclave \<Rightarrow> (nat \<Rightarrow> nat list) \<Rightarrow> nat \<Rightarrow> bool" where
  "root_ok E s bs g \<longleftrightarrow>
     (let ms = flat (bmacs s bs) (group_of s g) in
      ms \<noteq> [] \<longrightarrow> MACTable s ! g = tag E gsk (concat ms))"

definition rep :: "env \<Rightarrow> enclave \<Rightarrow> (nat \<Rightarrow> nat list) \<Rightarrow> (nat \<Rightarrow> (bytes \<times> bytes) list) \<Rightarrow> bool" where
  "rep E s bs kvs \<longleftrightarrow> rep0 E s bs kvs \<and> (\<forall>g < length (MACTable s). root_ok E s bs g)"

lemma rep0D:
  assumes "rep0 E s bs kvs"
  shows "env_ok E" "config_ok s" "cmac_ok E" "memory_ok E"
    "i < nbuckets s \<Longrightarrow> bucket_rep E s i (bs i) (kvs i)"
    "i < nbuckets s \<Longrightarrow> j < nbuckets s \<Longrightarrow> i \<noteq> j \<Longrightarrow> set (bs i) \<inter> set (bs j) = {}"
  using assms by (auto simp: rep0_def env_ok_def)

lemma bucket_repD:
  assumes "bucket_rep E s i as kvs"
  shows "chain (heap s) (table (ht s) ! i) as" "holds E (heap s) as kvs" "distinct (map fst kvs)"
    "k \<in> fst ` set kvs \<Longrightarrow> bin_of s k = i" "length as = length kvs"
    "mac_opt (arg s) \<Longrightarrow> macbuf_holds (MACbuf s ! i) (rev (map (\<lambda>a. mac (heap s ! a)) as))"
  using assms by (auto simp: bucket_rep_def holds_length)

lemma holds_mac_size:
  assumes "cmac_ok E" "holds E h as kvs" "a \<in> set as"
  shows "length (mac (h ! a)) = MAC_SIZE"
proof -
  from assms(3) obtain i where "i < length as" "as ! i = a" by (auto simp: in_set_conv_nth)
  with assms holds_nth [OF assms(2), of i] holds_length [OF assms(2)] show ?thesis
    by (auto dest: entry_holds_mac)
qed

lemma group_blocks_rep0:
  assumes "rep0 E s bs kvs" "set idx \<subseteq> {..<nbuckets s}"
  shows "group_blocks s idx (bmacs s bs)"
  unfolding group_blocks_def
proof
  fix i assume "i \<in> set idx"
  then have i: "i < nbuckets s" using assms(2) by auto
  note D = rep0D [OF assms(1)]
  note B = bucket_repD [OF D(5) [OF i]]
  have len: "\<forall>a \<in> set (bs i). length (mac (heap s ! a)) = MAC_SIZE"
    using holds_mac_size [OF D(3) B(2)] by blast
  have tab: "i < length (table (ht s))" "mac_opt (arg s) \<Longrightarrow> i < length (MACbuf s)"
    using D(2) i by (auto simp: config_ok_def)
  have cm: "chain_macs (Suc (length (heap s))) (heap s) (table (ht s) ! i) =
      Inr (map (\<lambda>a. mac (heap s ! a)) (bs i))"
    using chain_macs_chain [OF B(1) len] chain_length [OF B(1)] by simp
  show "all_macs (bmacs s bs i) \<and>
    (if mac_opt (arg s) then i < length (MACbuf s) \<and> macbuf_holds (MACbuf s ! i) (bmacs s bs i)
     else bucket_macs s i = Inr (bmacs s bs i))"
    using len tab B(6) cm by (auto simp: all_macs_def bmacs_def bucket_macs_def)
qed

section \<open>The represented map\<close>

text \<open>The map as a function of the state alone: decrypt the chain of the key's bucket.\<close>

definition entry_pair :: "env \<Rightarrow> entry \<Rightarrow> bytes \<times> bytes" where
  "entry_pair E e =
     (let p = fst (snd (aes_ctr_decrypt E gsk (the (key_val e)) (nac e) NAC_SIZE)) in
      (takeWhile (\<lambda>c. c \<noteq> 0) p, takeWhile (\<lambda>c. c \<noteq> 0) (drop (unat (key_size e)) p)))"

definition bucket_pairs :: "env \<Rightarrow> enclave \<Rightarrow> nat \<Rightarrow> (bytes \<times> bytes) list" where
  "bucket_pairs E s i =
     (case chain_addrs (Suc (length (heap s))) (heap s) (table (ht s) ! i) of
        None \<Rightarrow> []
      | Some as \<Rightarrow> map (\<lambda>a. entry_pair E (heap s ! a)) as)"

definition store_map :: "env \<Rightarrow> enclave \<Rightarrow> bytes \<Rightarrow> bytes option" where
  "store_map E s k = map_of (bucket_pairs E s (bin_of s k)) k"

definition store_inv :: "env \<Rightarrow> enclave \<Rightarrow> bool" where
  "store_inv E s \<longleftrightarrow> (\<exists>bs kvs. rep E s bs kvs)"

lemma entry_pair_holds: "entry_holds E e k v \<Longrightarrow> entry_pair E e = (k, v)"
proof -
  assume h: "entry_holds E e k v"
  then have f: "kv_fits k v" and ks: "key_size e = len32 k"
    by (auto simp: entry_holds_def)
  from h have "fst (snd (aes_ctr_decrypt E gsk (the (key_val e)) (nac e) NAC_SIZE)) = packed k v"
    by (auto simp: entry_holds_def sealed_def)
  moreover have "takeWhile (\<lambda>c. c \<noteq> 0) (packed k v) = k"
    using f by (simp add: packed_def kv_fits_def takeWhile_upto_first)
  moreover have "takeWhile (\<lambda>c. c \<noteq> 0) (drop (unat (key_size e)) (packed k v)) = v"
    using kv_fitsD(4,5) [OF f] takeWhile_upto_first [of 0 v "[]"] by (simp add: ks)
  ultimately show ?thesis by (simp add: entry_pair_def)
qed

lemma bucket_pairs_rep: "bucket_rep E s i as kvs \<Longrightarrow> bucket_pairs E s i = kvs"
proof -
  assume b: "bucket_rep E s i as kvs"
  note B = bucket_repD [OF b]
  have "map (\<lambda>a. entry_pair E (heap s ! a)) as = kvs"
    using B(5) entry_pair_holds [OF holds_nth [OF B(2)]] by (auto simp: list_eq_iff_nth_eq)
  with B(1) show ?thesis by (simp add: bucket_pairs_def chain_iff_addrs)
qed

lemma store_map_rep:
  assumes "rep0 E s bs kvs"
  shows "store_map E s k = map_of (kvs (bin_of s k)) k"
  using bucket_pairs_rep [OF rep0D(5) [OF assms bin_of_less [OF rep0D(2) [OF assms]]]]
  by (simp add: store_map_def)

end
