(* ===== verification/Store_Update.thy ===== *)
theory Store_Update
  imports Store_Rep
begin

text \<open>
  How the two changes the handlers make to the table (an entry overwritten in place, an
  entry inserted at the front of its chain) change what the state represents, and that the
  rebuilt root authenticates the changed group.
\<close>

section \<open>MAC buckets\<close>

lemma all_macs_update: "all_macs ms \<Longrightarrow> length m = MAC_SIZE \<Longrightarrow> all_macs (ms[j := m])"
  by (auto simp: all_macs_def dest!: set_update_subset_insert [THEN subsetD])

lemma macbuf_write_update:
  assumes "b < length mb" "macbuf_holds (mb ! b) ms" "j < length ms" "length m = MAC_SIZE"
  obtains x where "macbuf_write mb b (int j) m = Inr (mb[b := x])" "macbuf_holds x (ms[j := m])"
proof -
  let ?o = "mmac (mb ! b)"
  have len: "length ?o = MAC_SIZE * MAC_SLOTS" "length ms \<le> MAC_SLOTS" "all_macs ms"
    and tk: "take (MAC_SIZE * length ms) ?o = concat ms"
    using assms(2) by (auto simp: macbuf_holds_def)
  have le: "MAC_SIZE * j + MAC_SIZE \<le> MAC_SIZE * length ms"
    using assms(3) by (metis Suc_leI mult_Suc_right mult_le_mono2 add.commute)
  have le': "MAC_SIZE * length ms \<le> MAC_SIZE * MAC_SLOTS" using len(2) by simp
  define n where "n = take (MAC_SIZE * j) ?o @ m @ drop (MAC_SIZE * j + length m) ?o"
  have fit: "MAC_SIZE * j + length m \<le> MAC_SIZE * length ms" "MAC_SIZE * length ms \<le> length ?o"
    "MAC_SIZE * j + length m \<le> length ?o"
    using le le' len(1) assms(4) by linarith+
  have "take (MAC_SIZE * length ms) n =
      take (MAC_SIZE * j) (concat ms) @ m @ drop (MAC_SIZE * j + length m) (concat ms)"
    unfolding n_def tk [symmetric] by (rule take_overwrite [OF fit(1,2)])
  also have "\<dots> = concat (ms[j := m])"
    using concat_update_block [of ms MAC_SIZE j m] len(3) assms(3,4) by (simp add: all_macs_def add.commute)
  finally have "take (MAC_SIZE * length ms) n = concat (ms[j := m])" .
  moreover have "length n = length ?o"
    unfolding n_def by (rule length_overwrite [OF fit(3)])
  ultimately have "macbuf_holds ((mb ! b)\<lparr>mmac := n\<rparr>) (ms[j := m])"
    using assms(2,4) len by (simp add: macbuf_holds_def all_macs_update)
  moreover have "macbuf_write mb b (int j) m = Inr (mb[b := (mb ! b)\<lparr>mmac := n\<rparr>])"
    using assms fit(3) by (simp add: macbuf_write_def memcpy_at_def n_def)
  ultimately show thesis using that by blast
qed

lemma macbuf_write_insert:
  assumes "b < length mb" "macbuf_holds (mb ! b) ms" "length ms < MAC_SLOTS" "length m = MAC_SIZE"
  obtains x where "macbuf_write (mb[b := (mb ! b)\<lparr>msize := msize (mb ! b) + 1\<rparr>]) b (int (length ms)) m
    = Inr (mb[b := x])" "macbuf_holds x (ms @ [m])"
proof -
  let ?o = "mmac (mb ! b)"
  have len: "length ?o = MAC_SIZE * MAC_SLOTS" "all_macs ms" "msize (mb ! b) = int (length ms)"
    and tk: "take (MAC_SIZE * length ms) ?o = concat ms"
    using assms(2) by (auto simp: macbuf_holds_def)
  have le: "MAC_SIZE * length ms + MAC_SIZE \<le> MAC_SIZE * MAC_SLOTS"
    using assms(3) by (metis Suc_leI mult_Suc_right mult_le_mono2 add.commute)
  have fit: "MAC_SIZE * length ms + length m \<le> length ?o"
    using le len(1) assms(4) by linarith
  define n where "n = take (MAC_SIZE * length ms) ?o @ m @ drop (MAC_SIZE * length ms + length m) ?o"
  have "length n = length ?o"
    unfolding n_def by (rule length_overwrite [OF fit])
  moreover have "take (MAC_SIZE * length ms + length m) n = concat ms @ m"
    unfolding n_def tk [symmetric] by (rule take_overwrite_end [OF fit])
  ultimately have "macbuf_holds ((mb ! b)\<lparr>msize := msize (mb ! b) + 1, mmac := n\<rparr>) (ms @ [m])"
    using assms len by (simp add: macbuf_holds_def all_macs_def add.commute Suc_leI)
  moreover have "macbuf_write (mb[b := (mb ! b)\<lparr>msize := msize (mb ! b) + 1\<rparr>]) b (int (length ms)) m =
      Inr (mb[b := (mb ! b)\<lparr>msize := msize (mb ! b) + 1, mmac := n\<rparr>])"
    using assms fit by (simp add: macbuf_write_def memcpy_at_def n_def)
  ultimately show thesis using that by blast
qed

text \<open>The thirty-first MAC of a bucket does not fit.\<close>

lemma macbuf_write_full:
  "length (mmac (mb ! b)) = MAC_SIZE * MAC_SLOTS \<Longrightarrow> MAC_SLOTS \<le> pos \<Longrightarrow>
   macbuf_write mb b (int pos) m = Inl OutOfBounds"
  by (auto simp: macbuf_write_def memcpy_at_def MAC_SLOTS_def MAC_SIZE_def)

section \<open>One changed bucket in the aggregate\<close>

lemma flat_cong: "(\<And>i. i \<in> set idx \<Longrightarrow> f i = g i) \<Longrightarrow> flat f idx = flat g idx"
  by (metis map_eq_conv)

lemma flat_update:
  assumes "b \<notin> set xs" "b \<notin> set ys" "g b = (f b)[j := m]" "j < length (f b)"
    and "\<And>i. i \<in> set xs \<union> set ys \<Longrightarrow> g i = f i"
  shows "(flat g (xs @ b # ys))[length (flat g xs) + j := f b ! j] = flat f (xs @ b # ys)"
proof -
  have "flat g xs = flat f xs" "flat g ys = flat f ys"
    using assms(5) by (auto intro: flat_cong)
  with assms(3,4) show ?thesis by (simp add: list_update_append)
qed

lemma flat_insert:
  assumes "b \<notin> set xs" "b \<notin> set ys" "g b = take j (f b) @ m # drop j (f b)" "j \<le> length (f b)"
    and "\<And>i. i \<in> set xs \<union> set ys \<Longrightarrow> g i = f i"
  defines "u \<equiv> length (flat g xs) + j"
  shows "take u (flat g (xs @ b # ys)) @ drop (Suc u) (flat g (xs @ b # ys)) = flat f (xs @ b # ys)"
proof -
  have "flat g xs = flat f xs" "flat g ys = flat f ys"
    using assms(5) by (auto intro: flat_cong)
  with assms(3,4) show ?thesis
    by (simp add: u_def)
qed

section \<open>Overwriting an entry\<close>

definition mac_pos :: "enclave \<Rightarrow> nat \<Rightarrow> nat \<Rightarrow> nat" where
  "mac_pos s len i = (if mac_opt (arg s) then len - 1 - i else i)"

lemma mac_pos_index: "i < len \<Longrightarrow> mac_index (mac_opt (arg s)) False len i = int (mac_pos s len i)"
  by (auto simp: mac_index_def mac_pos_def)

lemma config_ok_frame:
  assumes "config_ok s" "ht s' = (ht s)\<lparr>table := tb\<rparr>" "length tb = length (table (ht s))"
    "arg s' = arg s" "length (MACTable s') = length (MACTable s)"
    "length (MACbuf s') = length (MACbuf s)" "ratio_root_per_buckets s' = ratio_root_per_buckets s"
  shows "config_ok s'"
  using assms by (simp add: config_ok_def)

lemma bucket_rep_frame:
  assumes "bucket_rep E s i as kvs" "chain (heap s') (table (ht s') ! i) as"
    "\<And>a. a \<in> set as \<Longrightarrow> heap s' ! a = heap s ! a"
    "hsize (ht s') = hsize (ht s)" "arg s' = arg s" "mac_opt (arg s) \<Longrightarrow> MACbuf s' ! i = MACbuf s ! i"
  shows "bucket_rep E s' i as kvs"
proof -
  have "map (\<lambda>a. mac (heap s' ! a)) as = map (\<lambda>a. mac (heap s ! a)) as" using assms(3) by simp
  moreover have "holds E (heap s') as kvs"
    using bucket_repD(2) [OF assms(1)] assms(3)
    by (auto simp: holds_def list_all2_conv_all_nth split_beta)
  ultimately show ?thesis
    using assms unfolding bucket_rep_def by (simp add: bin_of_def cong: map_cong)
qed

text \<open>
  The state after the entry at position \<open>i\<close> of bucket \<open>b\<close> has been replaced by \<open>e\<close> and the MAC
  buckets by \<open>mb\<close>, and the condition under which this replaces the value of \<open>k\<close> by \<open>v\<close>.
\<close>

definition overwritten :: "enclave \<Rightarrow> nat \<Rightarrow> entry \<Rightarrow> MACentry list \<Rightarrow> enclave" where
  "overwritten s a e mb = s\<lparr>heap := (heap s)[a := e], MACbuf := mb\<rparr>"

definition overwrite_ok :: "env \<Rightarrow> enclave \<Rightarrow> (nat \<Rightarrow> nat list) \<Rightarrow> (nat \<Rightarrow> (bytes \<times> bytes) list) \<Rightarrow>
    nat \<Rightarrow> nat \<Rightarrow> bytes \<Rightarrow> bytes \<Rightarrow> entry \<Rightarrow> MACentry list \<Rightarrow> bool" where
  "overwrite_ok E s bs kvs b i k v e mb \<longleftrightarrow>
     rep0 E s bs kvs \<and> b < nbuckets s \<and> i < length (kvs b) \<and> fst (kvs b ! i) = k \<and>
     entry_holds E e k v \<and> nxt e = nxt (heap s ! (bs b ! i)) \<and>
     length mb = length (MACbuf s) \<and> (\<forall>j. j \<noteq> b \<longrightarrow> mb ! j = MACbuf s ! j) \<and>
     (mac_opt (arg s) \<longrightarrow>
        macbuf_holds (mb ! b) ((bmacs s bs b)[mac_pos s (length (kvs b)) i := mac e]))"

lemma overwritten_simps [simp]:
  "ht (overwritten s a e mb) = ht s" "heap (overwritten s a e mb) = (heap s)[a := e]"
  "MACbuf (overwritten s a e mb) = mb" "MACTable (overwritten s a e mb) = MACTable s"
  "arg (overwritten s a e mb) = arg s" "out (overwritten s a e mb) = out s"
  "ratio_root_per_buckets (overwritten s a e mb) = ratio_root_per_buckets s"
  by (simp_all add: overwritten_def)

lemma overwrite_okD:
  assumes "overwrite_ok E s bs kvs b i k v e mb"
  shows "rep0 E s bs kvs" "b < nbuckets s" "i < length (kvs b)" "fst (kvs b ! i) = k"
    "entry_holds E e k v" "nxt e = nxt (heap s ! (bs b ! i))" "bucket_rep E s b (bs b) (kvs b)"
    "length mb = length (MACbuf s)" "j \<noteq> b \<Longrightarrow> mb ! j = MACbuf s ! j"
    "mac_opt (arg s) \<Longrightarrow>
       macbuf_holds (mb ! b) ((bmacs s bs b)[mac_pos s (length (kvs b)) i := mac e])"
    "bs b ! i \<in> set (bs b)" "bs b ! i < length (heap s)" "length (bs b) = length (kvs b)"
    "n < length (bs b) \<Longrightarrow> bs b ! i = bs b ! n \<longleftrightarrow> i = n"
proof -
  show *: "rep0 E s bs kvs" "b < nbuckets s" "i < length (kvs b)" "fst (kvs b ! i) = k"
    "entry_holds E e k v" "nxt e = nxt (heap s ! (bs b ! i))"
    "length mb = length (MACbuf s)" "j \<noteq> b \<Longrightarrow> mb ! j = MACbuf s ! j"
    "mac_opt (arg s) \<Longrightarrow>
       macbuf_holds (mb ! b) ((bmacs s bs b)[mac_pos s (length (kvs b)) i := mac e])"
    using assms by (auto simp: overwrite_ok_def)
  show **: "bucket_rep E s b (bs b) (kvs b)" by (rule rep0D(5) [OF *(1,2)])
  note B = bucket_repD [OF this]
  show "length (bs b) = length (kvs b)" by (rule B(5))
  then show "bs b ! i \<in> set (bs b)" "bs b ! i < length (heap s)"
    using *(3) chain_bounds [OF B(1)] by auto
  show "n < length (bs b) \<Longrightarrow> bs b ! i = bs b ! n \<longleftrightarrow> i = n"
    using chain_distinct [OF B(1)] *(3) B(5) by (simp add: nth_eq_iff_index_eq)
qed

lemma overwrite_chain:
  assumes "overwrite_ok E s bs kvs b i k v e mb" "j < nbuckets s"
  shows "chain ((heap s)[bs b ! i := e]) (table (ht s) ! j) (bs j)"
  using rep0D(5) [OF overwrite_okD(1) [OF assms(1)] assms(2)] overwrite_okD(6) [OF assms(1)]
  by (auto intro: chain_update dest: bucket_repD(1))

lemma overwrite_other:
  assumes "overwrite_ok E s bs kvs b i k v e mb" "j < nbuckets s" "j \<noteq> b" "a \<in> set (bs j)"
  shows "(heap s)[bs b ! i := e] ! a = heap s ! a"
proof -
  note O = overwrite_okD [OF assms(1)]
  have "a \<noteq> bs b ! i" using rep0D(6) [OF O(1) assms(2) O(2) assms(3)] O(11) assms(4) by auto
  then show ?thesis by simp
qed

lemma overwrite_macs:
  assumes "overwrite_ok E s bs kvs b i k v e mb"
  shows "map (\<lambda>a. mac ((heap s)[bs b ! i := e] ! a)) (bs b) =
    (map (\<lambda>a. mac (heap s ! a)) (bs b))[i := mac e]"
proof (rule nth_equalityI)
  fix n assume "n < length (map (\<lambda>a. mac ((heap s)[bs b ! i := e] ! a)) (bs b))"
  then show "map (\<lambda>a. mac ((heap s)[bs b ! i := e] ! a)) (bs b) ! n =
      (map (\<lambda>a. mac (heap s ! a)) (bs b))[i := mac e] ! n"
    using overwrite_okD(12,14) [OF assms] by (cases "n = i") auto
qed simp

lemma overwrite_bmacs:
  assumes "overwrite_ok E s bs kvs b i k v e mb"
  shows "bmacs (overwritten s (bs b ! i) e mb) bs b =
    (bmacs s bs b)[mac_pos s (length (kvs b)) i := mac e]"
  using overwrite_macs [OF assms] overwrite_okD(3,13) [OF assms]
  by (simp add: bmacs_def mac_pos_def rev_update)

lemma overwrite_bmacs_other:
  assumes "overwrite_ok E s bs kvs b i k v e mb" "j < nbuckets s" "j \<noteq> b"
  shows "bmacs (overwritten s (bs b ! i) e mb) bs j = bmacs s bs j"
  using overwrite_other [OF assms] by (simp add: bmacs_def cong: map_cong)

lemma overwrite_bucket:
  assumes "overwrite_ok E s bs kvs b i k v e mb"
  shows "bucket_rep E (overwritten s (bs b ! i) e mb) b (bs b) ((kvs b)[i := (k, v)])"
proof -
  note O = overwrite_okD [OF assms]
  note B = bucket_repD [OF O(7)]
  have "entry_holds E ((heap s)[bs b ! i := e] ! (bs b ! n)) (fst ((kvs b)[i := (k, v)] ! n))
      (snd ((kvs b)[i := (k, v)] ! n))" if "n < length (kvs b)" for n
    using that O(5,12,13,14) holds_nth [OF B(2)] by (cases "n = i") auto
  then have "holds E ((heap s)[bs b ! i := e]) (bs b) ((kvs b)[i := (k, v)])"
    using O(13) by (simp add: holds_def list_all2_conv_all_nth split_beta)
  moreover have "map fst ((kvs b)[i := (k, v)]) = map fst (kvs b)"
    using O(3,4) by (metis fst_conv list_update_id map_update nth_map)
  moreover from this have "fst ` set ((kvs b)[i := (k, v)]) = fst ` set (kvs b)"
    by (metis list.set_map)
  moreover have "macbuf_holds (mb ! b) (rev (map (\<lambda>a. mac ((heap s)[bs b ! i := e] ! a)) (bs b)))"
    if "mac_opt (arg s)"
    using O(10) [OF that] overwrite_bmacs [OF assms] that by (simp add: bmacs_def)
  ultimately show ?thesis
    using overwrite_chain [OF assms O(2)] B(3,4) unfolding bucket_rep_def
    by (simp only: overwritten_simps bin_of_def) blast
qed

lemma overwrite_rep0:
  assumes "overwrite_ok E s bs kvs b i k v e mb"
  shows "rep0 E (overwritten s (bs b ! i) e mb) bs (kvs(b := (kvs b)[i := (k, v)]))"
proof -
  let ?s = "overwritten s (bs b ! i) e mb"
  note O = overwrite_okD [OF assms]
  note D = rep0D [OF O(1)]
  have "config_ok ?s"
    using D(2) by (rule config_ok_frame [where tb = "table (ht s)"]) (simp_all add: O(8))
  moreover have "bucket_rep E ?s j (bs j) ((kvs(b := (kvs b)[i := (k, v)])) j)" if j: "j < nbuckets s" for j
  proof (cases "j = b")
    case False
    have "bucket_rep E ?s j (bs j) (kvs j)"
      using D(5) [OF j] overwrite_chain [OF assms j] overwrite_other [OF assms j False] O(9) [OF False]
      by (auto intro: bucket_rep_frame)
    with False show ?thesis by simp
  qed (use overwrite_bucket [OF assms] in simp)
  ultimately show ?thesis using D(1,6) by (simp add: rep0_def)
qed

lemma overwrite_map:
  assumes "overwrite_ok E s bs kvs b i k v e mb"
  shows "store_map E (overwritten s (bs b ! i) e mb) = (store_map E s)(k \<mapsto> v)"
proof
  fix x
  let ?s = "overwritten s (bs b ! i) e mb"
  note O = overwrite_okD [OF assms]
  note B = bucket_repD [OF O(7)]
  have m: "map_of ((kvs b)[i := (k, v)]) = (map_of (kvs b))(k \<mapsto> v)"
    using B(3) O(3,4) by (simp add: map_of_map_upd_nth)
  have kb: "bin_of s k = b" using B(4) O(3,4) by (metis image_eqI nth_mem)
  have "store_map E ?s x = map_of ((kvs(b := (kvs b)[i := (k, v)])) (bin_of s x)) x"
    using store_map_rep [OF overwrite_rep0 [OF assms], of x] by (simp add: bin_of_def)
  with store_map_rep [OF O(1), of x] m kb show "store_map E ?s x = ((store_map E s)(k \<mapsto> v)) x"
    by (cases "bin_of s x = b") auto
qed

end
