(* ===== verification/Store_Insert.thy ===== *)
theory Store_Insert
  imports Store_Update
begin

text \<open>
  What an entry inserted at the front of its chain does to the representation, and the two
  lemmas that tie a changed group to its rebuilt root.
\<close>

section \<open>Inserting an entry\<close>

definition inserted :: "enclave \<Rightarrow> nat \<Rightarrow> entry \<Rightarrow> MACentry list \<Rightarrow> enclave" where
  "inserted s b e mb =
     s\<lparr>heap := heap s @ [e], ht := (ht s)\<lparr>table := (table (ht s))[b := Some (length (heap s))]\<rparr>,
       MACbuf := mb\<rparr>"

lemma inserted_simps [simp]:
  "hsize (ht (inserted s b e mb)) = hsize (ht s)"
  "table (ht (inserted s b e mb)) = (table (ht s))[b := Some (length (heap s))]"
  "heap (inserted s b e mb) = heap s @ [e]" "MACbuf (inserted s b e mb) = mb"
  "MACTable (inserted s b e mb) = MACTable s" "arg (inserted s b e mb) = arg s"
  "ratio_root_per_buckets (inserted s b e mb) = ratio_root_per_buckets s"
  "out (inserted s b e mb) = out s"
  by (simp_all add: inserted_def)

definition insert_ok :: "env \<Rightarrow> enclave \<Rightarrow> (nat \<Rightarrow> nat list) \<Rightarrow> (nat \<Rightarrow> (bytes \<times> bytes) list) \<Rightarrow>
    nat \<Rightarrow> bytes \<Rightarrow> bytes \<Rightarrow> entry \<Rightarrow> MACentry list \<Rightarrow> bool" where
  "insert_ok E s bs kvs b k v e mb \<longleftrightarrow>
     rep0 E s bs kvs \<and> b = bin_of s k \<and> k \<notin> fst ` set (kvs b) \<and>
     entry_holds E e k v \<and> nxt e = table (ht s) ! b \<and>
     length mb = length (MACbuf s) \<and> (\<forall>j. j \<noteq> b \<longrightarrow> mb ! j = MACbuf s ! j) \<and>
     (mac_opt (arg s) \<longrightarrow> macbuf_holds (mb ! b) (bmacs s bs b @ [mac e]))"

lemma insert_okD:
  assumes "insert_ok E s bs kvs b k v e mb"
  shows "rep0 E s bs kvs" "b = bin_of s k" "k \<notin> fst ` set (kvs b)" "entry_holds E e k v"
    "nxt e = table (ht s) ! b" "length mb = length (MACbuf s)"
    "j \<noteq> b \<Longrightarrow> mb ! j = MACbuf s ! j"
    "mac_opt (arg s) \<Longrightarrow> macbuf_holds (mb ! b) (bmacs s bs b @ [mac e])"
    "config_ok s" "b < nbuckets s" "length (table (ht s)) = nbuckets s"
    "bucket_rep E s b (bs b) (kvs b)"
proof -
  show *: "rep0 E s bs kvs" "b = bin_of s k" "k \<notin> fst ` set (kvs b)" "entry_holds E e k v"
    "nxt e = table (ht s) ! b" "length mb = length (MACbuf s)"
    "j \<noteq> b \<Longrightarrow> mb ! j = MACbuf s ! j"
    "mac_opt (arg s) \<Longrightarrow> macbuf_holds (mb ! b) (bmacs s bs b @ [mac e])"
    using assms by (auto simp: insert_ok_def)
  show c: "config_ok s" by (rule rep0D(2) [OF *(1)])
  then show b: "b < nbuckets s" using *(2) by (simp add: bin_of_less)
  show "length (table (ht s)) = nbuckets s" using c by (simp add: config_ok_def)
  show "bucket_rep E s b (bs b) (kvs b)" by (rule rep0D(5) [OF *(1) b])
qed

lemma bucket_addr_less:
  assumes "rep0 E s bs kvs" "j < nbuckets s" "a \<in> set (bs j)"
  shows "a < length (heap s)"
  using chain_bounds [OF bucket_repD(1) [OF rep0D(5) [OF assms(1,2)]]] assms(3) by blast

lemma insert_old:
  "rep0 E s bs kvs \<Longrightarrow> j < nbuckets s \<Longrightarrow> a \<in> set (bs j) \<Longrightarrow> (heap s @ es) ! a = heap s ! a"
  by (simp add: bucket_addr_less nth_append)

lemma insert_macs:
  assumes "rep0 E s bs kvs" "j < nbuckets s"
  shows "map (\<lambda>a. mac ((heap s @ es) ! a)) (bs j) = map (\<lambda>a. mac (heap s ! a)) (bs j)"
  using insert_old [OF assms] by simp

lemma insert_bmacs:
  assumes "insert_ok E s bs kvs b k v e mb"
  shows "bmacs (inserted s b e mb) (bs(b := length (heap s) # bs b)) b =
    (if mac_opt (arg s) then bmacs s bs b @ [mac e] else mac e # bmacs s bs b)"
  using insert_macs [OF insert_okD(1,10) [OF assms]] by (simp add: bmacs_def)

lemma insert_bmacs_other:
  assumes "insert_ok E s bs kvs b k v e mb" "j < nbuckets s" "j \<noteq> b"
  shows "bmacs (inserted s b e mb) (bs(b := length (heap s) # bs b)) j = bmacs s bs j"
  using assms(3) by (simp add: bmacs_def insert_macs [OF insert_okD(1) [OF assms(1)] assms(2)])

lemma insert_bucket:
  assumes "insert_ok E s bs kvs b k v e mb"
  shows "bucket_rep E (inserted s b e mb) b (length (heap s) # bs b) ((k, v) # kvs b)"
proof -
  note O = insert_okD [OF assms]
  note B = bucket_repD [OF O(12)]
  have "holds E (heap s @ [e]) (bs b) (kvs b)"
    using B(2) insert_old [OF O(1,10)] unfolding holds_def list_all2_conv_all_nth by simp
  then have "holds E (heap s @ [e]) (length (heap s) # bs b) ((k, v) # kvs b)"
    using O(4) by (simp add: holds_Cons)
  moreover have "macbuf_holds (mb ! b) (rev (map (\<lambda>a. mac ((heap s @ [e]) ! a)) (length (heap s) # bs b)))"
    if "mac_opt (arg s)"
    using O(8) [OF that] that by (simp add: bmacs_def insert_macs [OF O(1,10)])
  moreover have "chain (heap s @ [e]) ((table (ht s))[b := Some (length (heap s))] ! b) (length (heap s) # bs b)"
    using chain_push [OF B(1) O(5)] O(10,11) by (simp only: nth_list_update_eq)
  moreover have "distinct (map fst ((k, v) # kvs b))" using B(3) O(3) by simp
  moreover have "\<forall>x \<in> fst ` set ((k, v) # kvs b). bin_of s x = b" using B(4) O(2) [symmetric] by simp
  ultimately show ?thesis
    unfolding bucket_rep_def inserted_simps bin_of_def by blast
qed

lemma insert_rep0:
  assumes "insert_ok E s bs kvs b k v e mb"
  shows "rep0 E (inserted s b e mb) (bs(b := length (heap s) # bs b)) (kvs(b := (k, v) # kvs b))"
proof -
  let ?s = "inserted s b e mb" and ?bs = "bs(b := length (heap s) # bs b)"
  note O = insert_okD [OF assms]
  note D = rep0D [OF O(1)]
  have "config_ok ?s"
    using O(9) by (rule config_ok_frame [where tb = "(table (ht s))[b := Some (length (heap s))]"])
      (simp_all add: O(6) inserted_def)
  moreover have "bucket_rep E ?s j (?bs j) ((kvs(b := (k, v) # kvs b)) j)" if j: "j < nbuckets s" for j
  proof (cases "j = b")
    case False
    have "chain (heap s @ [e]) (table (ht s) ! j) (bs j)"
      using bucket_repD(1) [OF D(5) [OF j]] by (rule chain_extend)
    then have "bucket_rep E ?s j (bs j) (kvs j)"
      using False O(7) [OF False]
      by (intro bucket_rep_frame [OF D(5) [OF j]]) (simp_all add: insert_old [OF O(1) j])
    with False show ?thesis by simp
  qed (use insert_bucket [OF assms] in simp)
  moreover have "set (?bs i) \<inter> set (?bs j) = {}" if "i < nbuckets s" "j < nbuckets s" "i \<noteq> j" for i j
  proof -
    have "length (heap s) \<notin> set (bs i)" "length (heap s) \<notin> set (bs j)"
      using bucket_addr_less [OF O(1)] that by blast+
    with D(6) [OF that] that(3) show ?thesis by (cases "i = b"; cases "j = b") (simp_all add: Int_commute)
  qed
  ultimately show ?thesis using D(1) unfolding rep0_def inserted_simps by blast
qed

lemma insert_map:
  assumes "insert_ok E s bs kvs b k v e mb"
  shows "store_map E (inserted s b e mb) = (store_map E s)(k \<mapsto> v)"
proof
  fix x
  let ?s = "inserted s b e mb"
  note O = insert_okD [OF assms]
  have "store_map E ?s x = map_of ((kvs(b := (k, v) # kvs b)) (bin_of s x)) x"
    using store_map_rep [OF insert_rep0 [OF assms], of x] by (simp add: bin_of_def)
  with store_map_rep [OF O(1), of x] O(2) show "store_map E ?s x = ((store_map E s)(k \<mapsto> v)) x"
    by (cases "bin_of s x = b") auto
qed

section \<open>The rebuilt root\<close>

text \<open>
  A changed state whose buckets outside \<open>b\<close> have the MACs they had, with the root of the group
  of \<open>b\<close> replaced by the tag of the group's new aggregate, is represented again.
\<close>

definition with_root :: "env \<Rightarrow> enclave \<Rightarrow> (nat \<Rightarrow> nat list) \<Rightarrow> nat \<Rightarrow> enclave" where
  "with_root E s bs b =
     (let g = b div ratio s in
      s\<lparr>MACTable := (MACTable s)[g := tag E gsk (concat (flat (bmacs s bs) (group_of s g)))]\<rparr>)"

lemma with_root_simps [simp]:
  "ht (with_root E s bs b) = ht s" "heap (with_root E s bs b) = heap s"
  "MACbuf (with_root E s bs b) = MACbuf s" "arg (with_root E s bs b) = arg s"
  "ratio_root_per_buckets (with_root E s bs b) = ratio_root_per_buckets s"
  "out (with_root E s bs b) = out s" "length (MACTable (with_root E s bs b)) = length (MACTable s)"
  by (simp_all add: with_root_def Let_def)

lemma rep0_roots:
  assumes "rep0 E s bs kvs" "length T = length (MACTable s)"
  shows "rep0 E (s\<lparr>MACTable := T\<rparr>) bs kvs"
proof -
  note D = rep0D [OF assms(1)]
  have "config_ok (s\<lparr>MACTable := T\<rparr>)" using D(2) assms(2) by (simp add: config_ok_def)
  moreover have "bucket_rep E (s\<lparr>MACTable := T\<rparr>) i (bs i) (kvs i)" if "i < nbuckets s" for i
    using D(5) [OF that] by (simp add: bucket_rep_def bin_of_def)
  ultimately show ?thesis using D(1,6) by (simp add: rep0_def)
qed

lemma bmacs_roots [simp]: "bmacs (s\<lparr>MACTable := T\<rparr>) bs = bmacs s bs"
  by (simp add: bmacs_def fun_eq_iff)

lemma group_of_roots [simp]: "group_of (s\<lparr>MACTable := T\<rparr>) g = group_of s g"
  by (simp add: group_of_def)

lemma store_map_roots [simp]: "store_map E (s\<lparr>MACTable := T\<rparr>) = store_map E s"
  by (simp add: store_map_def bucket_pairs_def bin_of_def fun_eq_iff cong: map_cong option.case_cong)

lemma store_map_with_root [simp]: "store_map E (with_root E s bs b) = store_map E s"
  by (simp add: with_root_def Let_def)

lemma with_root_rep:
  assumes r: "rep E s bs kvs" and r': "rep0 E s' bs' kvs'" and b: "b < nbuckets s"
    and same: "hsize (ht s') = hsize (ht s)" "MACTable s' = MACTable s"
      "ratio_root_per_buckets s' = ratio_root_per_buckets s"
    and other: "\<And>j. j < nbuckets s \<Longrightarrow> j \<noteq> b \<Longrightarrow> bmacs s' bs' j = bmacs s bs j"
  shows "rep E (with_root E s' bs' b) bs' kvs'"
proof -
  have c: "config_ok s" and c': "config_ok s'"
    using r r' by (auto simp: rep_def dest: rep0D(2))
  have grp: "group_of s' g = group_of s g" for g by (simp add: group_of_def same)
  have "root_ok E (with_root E s' bs' b) bs' g" if g: "g < length (MACTable s)" for g
  proof (cases "g = b div ratio s")
    case True
    with g show ?thesis
      by (simp add: root_ok_def with_root_def Let_def grp same)
  next
    case False
    have "b \<notin> set (group_of s g)"
      using group_of_member [of s b g] config_ratio(1) [OF c] False by blast
    moreover have "set (group_of s g) \<subseteq> {..<nbuckets s}"
    proof -
      have "Suc g * ratio s \<le> length (MACTable s) * ratio s" using g by (metis Suc_leI mult_le_mono1)
      then show ?thesis using config_ratio(3) [OF c] by (auto simp: group_of_def)
    qed
    ultimately have "flat (bmacs s' bs') (group_of s g) = flat (bmacs s bs) (group_of s g)"
      by (intro flat_cong other) auto
    moreover have "root_ok E s bs g" using r g by (simp add: rep_def)
    moreover have "MACTable (with_root E s' bs' b) ! g = MACTable s ! g"
      using False by (simp add: with_root_def Let_def same)
    moreover have "bmacs (with_root E s' bs' b) bs' = bmacs s' bs'"
      "group_of (with_root E s' bs' b) g = group_of s g"
      by (simp_all add: with_root_def Let_def grp)
    ultimately show ?thesis by (simp only: root_ok_def Let_def)
  qed
  moreover have "rep0 E (with_root E s' bs' b) bs' kvs'"
    unfolding with_root_def Let_def by (rule rep0_roots [OF r']) simp
  ultimately show ?thesis by (simp add: rep_def same)
qed

text \<open>Rebuilding succeeds on both kinds of change, and gives the state above.\<close>

lemma rebuild_overwrite:
  assumes r: "rep E s bs kvs" and ok: "overwrite_ok E s bs kvs b i k v e mb"
    and m: "prev_mac = mac (heap s ! (bs b ! i))"
  defines "s' \<equiv> overwritten s (bs b ! i) e mb"
  shows "enclave_rebuild_tree_root E s' b i False prev_mac = Inr (SGX_SUCCESS, with_root E s' bs b)"
proof -
  note O = overwrite_okD [OF ok]
  note r' = overwrite_rep0 [OF ok, folded s'_def]
  have c: "config_ok s" "config_ok s'" using rep0D(2) O(1) r' by auto
  have b': "b < nbuckets s'" using O(2) by (simp add: s'_def)
  have rt: "ratio s' = ratio s" "group_of s' g = group_of s g" for g
    by (simp_all add: s'_def group_of_def)
  note G = group_of_bucket [OF c(2) b', unfolded rt]
  obtain xs ys where sp: "group_of s (b div ratio s) = xs @ b # ys" "b \<notin> set xs" "b \<notin> set ys"
    using group_of_split [OF G(3)] .
  let ?j = "mac_pos s (length (kvs b)) i"
  have bm: "bmacs s' bs b = (bmacs s bs b)[?j := mac e]" unfolding s'_def by (rule overwrite_bmacs [OF ok])
  have len: "length (bmacs s bs b) = length (kvs b)" using O(13) by (simp add: bmacs_def Let_def)
  have j: "?j < length (bmacs s' bs b)" using O(3) bm len by (auto simp: mac_pos_def)
  have gb: "group_blocks s' (xs @ b # ys) (bmacs s' bs)"
    using group_blocks_rep0 [OF r' G(4)] sp(1) by simp
  have prev: "prev_mac = bmacs s bs b ! ?j"
    using O(3,13) m by (auto simp: bmacs_def Let_def mac_pos_def rev_nth)
  have "flat (bmacs s' bs) (xs @ b # ys) \<noteq> []" using j by (auto simp: s'_def)
  have old: "(flat (bmacs s' bs) (xs @ b # ys))[length (flat (bmacs s' bs) xs) + ?j := prev_mac] =
      flat (bmacs s bs) (xs @ b # ys)" unfolding prev
  proof (rule flat_update [where m = "mac e"])
    fix x assume "x \<in> set xs \<union> set ys"
    then have "x < nbuckets s" "x \<noteq> b" using G(4) sp by (auto simp: s'_def)
    then show "bmacs s' bs x = bmacs s bs x" unfolding s'_def by (rule overwrite_bmacs_other [OF ok])
  qed (use sp bm j in simp_all)
  have "root_ok E s bs (b div ratio s)"
    using r G(5) by (simp add: rep_def s'_def)
  moreover have "flat (bmacs s bs) (xs @ b # ys) \<noteq> []" using j len bm by (auto simp: s'_def)
  ultimately have root: "MACTable s' ! (b div ratio s) = tag E gsk (concat (flat (bmacs s bs) (xs @ b # ys)))"
    by (simp add: root_ok_def sp s'_def Let_def)
  have "length prev_mac = MAC_SIZE"
    using holds_mac_size [OF rep0D(3) [OF O(1)] bucket_repD(2) [OF O(7)] O(11)] m by simp
  moreover have "mac_index (mac_opt (arg s')) False (length (bmacs s' bs b)) i = int ?j"
    using mac_pos_index [OF O(3), of s] bm len by (simp add: s'_def)
  ultimately show ?thesis
    using rebuild_update_eq [OF rep0D(1) [OF r'] G(1) [unfolded sp(1)] sp(2,3) gb G(2), of i ?j prev_mac]
      j old root by (simp add: with_root_def Let_def rt sp(1))
qed

lemma rebuild_inserted:
  assumes r: "rep E s bs kvs" and ok: "insert_ok E s bs kvs b k v e mb"
    and nd: "ndebug E \<or> kvs b = []"
  defines "s' \<equiv> inserted s b e mb" and "bs' \<equiv> bs(b := length (heap s) # bs b)"
  shows "enclave_rebuild_tree_root E s' b (length (kvs b)) True prev_mac =
    Inr (SGX_SUCCESS, with_root E s' bs' b)"
proof -
  note O = insert_okD [OF ok]
  note r' = insert_rep0 [OF ok, folded s'_def bs'_def]
  have c: "config_ok s" "config_ok s'" using rep0D(2) O(1) r' by auto
  have b': "b < nbuckets s'" using O(10) by (simp add: s'_def)
  have rt: "ratio s' = ratio s" "group_of s' g = group_of s g" for g
    by (simp_all add: s'_def group_of_def)
  note G = group_of_bucket [OF c(2) b', unfolded rt]
  obtain xs ys where sp: "group_of s (b div ratio s) = xs @ b # ys" "b \<notin> set xs" "b \<notin> set ys"
    using group_of_split [OF G(3)] .
  define j where "j = (if mac_opt (arg s) then length (kvs b) else 0)"
  have bm: "bmacs s' bs' b = (if mac_opt (arg s) then bmacs s bs b @ [mac e] else mac e # bmacs s bs b)"
    unfolding s'_def bs'_def by (rule insert_bmacs [OF ok])
  have len: "length (bmacs s bs b) = length (kvs b)"
    using bucket_repD(5) [OF O(12)] by (simp add: bmacs_def Let_def)
  have bm': "bmacs s' bs' b = take j (bmacs s bs b) @ mac e # drop j (bmacs s bs b)"
    using bm len by (simp add: j_def)
  have j: "j < length (bmacs s' bs' b)" using bm len by (auto simp: j_def)
  have gb: "group_blocks s' (xs @ b # ys) (bmacs s' bs')"
    using group_blocks_rep0 [OF r' G(4)] sp(1) by simp
  let ?new = "flat (bmacs s' bs') (xs @ b # ys)" and ?u = "length (flat (bmacs s' bs') xs) + j"
  have old: "take ?u ?new @ drop (Suc ?u) ?new = flat (bmacs s bs) (xs @ b # ys)"
  proof (rule flat_insert [where m = "mac e"])
    fix x assume "x \<in> set xs \<union> set ys"
    then have "x < nbuckets s" "x \<noteq> b" using G(4) sp by (auto simp: s'_def)
    then show "bmacs s' bs' x = bmacs s bs x"
      unfolding s'_def bs'_def by (rule insert_bmacs_other [OF ok])
  qed (use sp bm' len in \<open>simp_all add: j_def\<close>)
  have root: "root_ok E s bs (b div ratio s)"
    using r G(5) by (simp add: rep_def s'_def)
  have idx: "mac_index (mac_opt (arg s')) True (length (bmacs s' bs' b)) (length (kvs b)) = int j"
    using bm len by (simp add: s'_def j_def mac_index_def)
  have "enclave_rebuild_tree_root E s' b (length (kvs b)) True prev_mac =
      (if flat (bmacs s bs) (xs @ b # ys) = [] \<or>
          MACTable s' ! (b div ratio s) = tag E gsk (concat (flat (bmacs s bs) (xs @ b # ys)))
       then Inr (SGX_SUCCESS, s'\<lparr>MACTable := (MACTable s')[b div ratio s := tag E gsk (concat ?new)]\<rparr>)
       else Inr (SGX_ERROR_UNEXPECTED, print ''Previous MAC compare failed'' s'))"
    using rebuild_insert_eq [OF rep0D(1) [OF r'] G(1) [unfolded sp(1)] sp(2,3) gb G(2) idx j, of prev_mac] nd
    unfolding old by auto
  moreover have "flat (bmacs s bs) (xs @ b # ys) = [] \<or>
      MACTable s' ! (b div ratio s) = tag E gsk (concat (flat (bmacs s bs) (xs @ b # ys)))"
    using root unfolding root_ok_def sp(1) Let_def by (auto simp: s'_def)
  ultimately show ?thesis
    by (simp only: with_root_def Let_def rt sp(1) if_True)
qed

end
