(* ===== verification/Store_Ops.thy ===== *)
theory Store_Ops
  imports Store_Insert
begin

text \<open>
  The request handlers on a represented state: what \<open>enclave_get\<close>, \<open>enclave_set\<close> and
  \<open>enclave_append\<close> reply, and what they do to the represented map and to the invariant.
\<close>

section \<open>Requests and replies\<close>

text \<open>The buffer of a request is at least \<open>max_buf_size\<close> bytes long.\<close>

definition request_ok :: "enclave \<Rightarrow> bytes \<Rightarrow> bytes \<Rightarrow> bytes \<Rightarrow> bool" where
  "request_ok s cmd k c \<longleftrightarrow>
     length cmd = 4 \<and> plain_word k \<and> length k + 1 < 2 ^ 32 \<and> max_buf_size (arg s) \<le> int (length c)"

lemma request_okD:
  assumes "request_ok s cmd k c"
  shows "length cmd = 4" "plain_word k" "0 \<notin> set k" "length k + 1 < 2 ^ 32"
    "max_buf_size (arg s) \<le> int (length c)"
  using assms by (auto simp: request_ok_def plain_word_def)

text \<open>The reply buffer: the data, and zeroes up to \<open>max_buf_size\<close>.\<close>

definition replied :: "enclave \<Rightarrow> bytes \<Rightarrow> bytes \<Rightarrow> bytes" where
  "replied s c d =
     (let z = replicate (nat (max_buf_size (arg s))) 0 @ drop (nat (max_buf_size (arg s))) c in
      d @ drop (length d) z)"

lemma reply_eq:
  assumes "config_ok s" "max_buf_size (arg s) \<le> int (length c)" "length d \<le> length c"
  shows "reply s c d = Inr (replied s c d)"
proof -
  have "0 \<le> max_buf_size (arg s)" using assms(1) by (simp add: config_ok_def)
  with assms(2,3) show ?thesis
    by (simp add: reply_def replied_def memcpy_at_def Let_def nat_le_iff)
qed

lemma length_replied:
  assumes "max_buf_size (arg s) \<le> int (length c)" "length d \<le> length c"
  shows "length (replied s c d) = length c"
  using assms by (simp add: replied_def Let_def nat_le_iff)

lemma replied_data: "take (length d) (replied s c d) = d"
  by (simp add: replied_def Let_def)

section \<open>Looking up\<close>

lemma len32_of_nat: "of_nat (length (k @ [0])) = len32 k"
  by (simp add: len32_def)

lemma bucket_nth:
  assumes "rep0 E s bs kvs" "store_map E s k = Some v"
  obtains i where "i < length (kvs (bin_of s k))" "kvs (bin_of s k) ! i = (k, v)"
proof -
  have "(k, v) \<in> set (kvs (bin_of s k))"
    using assms store_map_rep [OF assms(1)] by (simp add: map_of_SomeD)
  with that show thesis by (auto simp: in_set_conv_nth)
qed

lemma distinct_keys_before:
  assumes "distinct (map fst xs)" "i < length xs" "xs ! i = (k, v)"
  shows "k \<notin> fst ` set (take i xs)"
proof
  assume "k \<in> fst ` set (take i xs)"
  then obtain j where "j < i" "map fst xs ! j = k"
    using assms(2) by (force simp: in_set_conv_nth)
  moreover have "map fst xs ! i = k" using assms by simp
  ultimately show False using assms(1,2) by (metis length_map less_trans nat_neq_iff nth_eq_iff_index_eq)
qed

lemma ht_get_o_chain:
  assumes "bucket_index s (k @ [0]) = Inr b" "memory_ok E" "chain (heap s) (table (ht s) ! b) as"
    "holds E (heap s) as xs" "i < length xs" "xs ! i = (k, v)" "k \<notin> fst ` set (take i xs)"
    "0 \<notin> set k" "length k + 1 < 2 ^ 32"
  obtains n' where "length n' = NAC_SIZE"
    "ht_get_o E s (k @ [0]) (len32 k) = Inr (Some (as ! i, packed k v, n'), i)"
proof -
  have "length as < Suc (length (heap s))" using chain_length [OF assms(3)] by (simp add: le_imp_less_Suc)
  then have "\<exists>n'. length n' = NAC_SIZE \<and>
    ht_get_loop (Suc (length (heap s))) E (key_opt (arg s)) (heap s) (k @ [0]) (len32 k)
      (if key_opt (arg s) then key_hash_func (k @ [0]) else 0) (table (ht s) ! b) 0 =
    Inr (Some (as ! i, packed k v, n'), 0 + i)"
    using assms(2,5-9) by (intro ht_get_loop_found [OF assms(3,4)]) (auto simp: key_hash_func_c_str)
  with that assms(1) show thesis by (auto simp: ht_get_o_def Let_def)
qed

lemma ht_get_o_found:
  assumes "rep0 E s bs kvs" "i < length (kvs (bin_of s k))" "kvs (bin_of s k) ! i = (k, v)"
    "0 \<notin> set k" "length k + 1 < 2 ^ 32"
  obtains n' where "length n' = NAC_SIZE"
    "ht_get_o E s (k @ [0]) (len32 k) = Inr (Some (bs (bin_of s k) ! i, packed k v, n'), i)"
proof -
  note D = rep0D [OF assms(1)]
  note B = bucket_repD [OF D(5) [OF bin_of_less [OF D(2), of k]]]
  note bi = bucket_index_eq [OF D(2) assms(4)]
  show thesis
    by (rule ht_get_o_chain [OF bi D(4) B(1,2) assms(2,3) distinct_keys_before [OF B(3) assms(2,3)] assms(4,5)])
      (rule that)
qed

lemma ht_get_o_absent:
  assumes "rep0 E s bs kvs" "store_map E s k = None" "0 \<notin> set k" "length k + 1 < 2 ^ 32"
  shows "ht_get_o E s (k @ [0]) (len32 k) = Inr (None, length (kvs (bin_of s k)))"
proof -
  note D = rep0D [OF assms(1)]
  let ?b = "bin_of s k"
  note B = bucket_repD [OF D(5) [OF bin_of_less [OF D(2)]]]
  have "k \<notin> fst ` set (kvs ?b)"
    using assms(2) store_map_rep [OF assms(1)] by (simp add: map_of_eq_None_iff)
  moreover have "length (bs ?b) < Suc (length (heap s))" using chain_length [OF B(1)] by (simp add: le_imp_less_Suc)
  ultimately have "ht_get_loop (Suc (length (heap s))) E (key_opt (arg s)) (heap s) (k @ [0]) (len32 k)
      (if key_opt (arg s) then key_hash_func (k @ [0]) else 0) (table (ht s) ! ?b) 0 =
    Inr (None, 0 + length (bs ?b))"
    using assms(3,4) D(4) by (intro ht_get_loop_absent [OF B(1,2)]) (auto simp: key_hash_func_c_str)
  with B(5) show ?thesis
    using bucket_index_eq [OF D(2) assms(3)] by (auto simp: ht_get_o_def Let_def)
qed

lemma verify_found_holds:
  assumes "env_ok E" "a < length (heap s)" "entry_holds E (heap s ! a) k v"
  shows "verify_found E s a = Inr (heap s ! a, s)"
proof -
  let ?e = "heap s ! a"
  from assms(3) obtain c where c: "key_val ?e = Some c"
    "sealed E (packed k v) (key_hash ?e) (key_size ?e) (val_size ?e) (nac ?e) c (mac ?e)"
    by (auto simp: entry_holds_def)
  with assms(2) enclave_verification_sealed [OF assms(1) c(2), of s] show ?thesis
    by (simp add: verify_found_def deref_def)
qed

text \<open>The tree verification of a represented state succeeds on every occupied group.\<close>

lemma verify_tree_root_rep:
  assumes "rep E s bs kvs" "b < nbuckets s" "kvs b \<noteq> []"
  shows "enclave_verify_tree_root E s b = Inr SGX_SUCCESS"
proof -
  have r0: "rep0 E s bs kvs" using assms(1) by (simp add: rep_def)
  note D = rep0D [OF r0]
  note G = group_of_bucket [OF D(2) assms(2)]
  have "bs b \<noteq> []" using bucket_repD(5) [OF D(5) [OF assms(2)]] assms(3) by auto
  then have "bmacs s bs b \<noteq> []" by (auto simp: bmacs_def Let_def)
  with G(3) have ne: "flat (bmacs s bs) (group_of s (b div ratio s)) \<noteq> []" by auto
  have "root_ok E s bs (b div ratio s)" using assms(1) G(5) by (simp add: rep_def)
  with ne have "MACTable s ! (b div ratio s) =
      tag E gsk (concat (flat (bmacs s bs) (group_of s (b div ratio s))))"
    unfolding root_ok_def Let_def by blast
  with verify_tree_root_eq [OF D(1) G(1) group_blocks_rep0 [OF r0 G(4)] G(2) ne] show ?thesis by simp
qed

section \<open>GET\<close>

lemma enclave_get_rep_found:
  assumes "rep E s bs kvs" "store_map E s k = Some v" "request_ok s cmd k (key_request cmd k rest)"
    "length v + 1 \<le> length (key_request cmd k rest)"
  shows "enclave_get E s (key_request cmd k rest) =
    Inr (replied s (key_request cmd k rest) (v @ [0]), s)"
proof -
  let ?b = "bin_of s k"
  have r0: "rep0 E s bs kvs" using assms(1) by (simp add: rep_def)
  note D = rep0D [OF r0] and R = request_okD [OF assms(3)]
  from r0 assms(2) obtain i where i: "i < length (kvs ?b)" "kvs ?b ! i = (k, v)"
    by (rule bucket_nth)
  have b: "?b < nbuckets s" by (rule bin_of_less [OF D(2)])
  note B = bucket_repD [OF D(5) [OF b]]
  let ?a = "bs ?b ! i"
  from r0 i R(3,4) obtain n' where g: "length n' = NAC_SIZE"
    "ht_get_o E s (k @ [0]) (len32 k) = Inr (Some (?a, packed k v, n'), i)"
    by (rule ht_get_o_found)
  have h: "entry_holds E (heap s ! ?a) k v" using holds_nth [OF B(2) i(1)] i(2) by simp
  have "?a < length (heap s)" using chain_bounds [OF B(1)] i(1) B(5) by simp
  from verify_found_holds [OF D(1) this h] have vf: "verify_found E s ?a = Inr (heap s ! ?a, s)" .
  have f: "kv_fits k v" "unat (key_size (heap s ! ?a)) = Suc (length k)"
    "unat (val_size (heap s ! ?a)) = Suc (length v)"
    using h kv_fitsD(5,6) [OF entry_holds_fits [OF h]] by (auto simp: entry_holds_def)
  have "memread (unat (val_size (heap s ! ?a))) (drop (unat (key_size (heap s ! ?a))) (packed k v)) =
      Inr (v @ [0])"
    by (simp add: f memread_def)
  moreover have "enclave_verify_tree_root E s ?b = Inr SGX_SUCCESS"
    using i(1) by (intro verify_tree_root_rep [OF assms(1) b]) auto
  moreover have "reply s (key_request cmd k rest) (v @ [0]) =
      Inr (replied s (key_request cmd k rest) (v @ [0]))"
    using R(5) assms(4) by (intro reply_eq [OF D(2)]) simp_all
  ultimately show ?thesis
    using g(2) vf bucket_index_eq [OF D(2) R(3)]
    unfolding enclave_get_def parse_key_request [OF R(1,2)] by (simp add: len32_of_nat [simplified])
qed

lemma enclave_get_rep_absent:
  assumes "rep0 E s bs kvs" "store_map E s k = None" "length cmd = 4" "plain_word k" "length k + 1 < 2 ^ 32"
  shows "enclave_get E s (key_request cmd k rest) =
    Inr (key_request cmd k rest, print ''GET FAILED: No data in database'' s)"
  using ht_get_o_absent [OF assms(1,2)] assms(4,5)
  unfolding enclave_get_def parse_key_request [OF assms(3,4)]
  by (simp add: len32_of_nat [simplified] plain_word_def)

section \<open>Writing an entry\<close>

lemma enclave_encrypt_packed:
  assumes "env_ok E" "kv_fits k v" "length n = NAC_SIZE"
  obtains c t where "enclave_encrypt E (packed k v) ki (len32 k) (len32 v) n = Inr (c, t)"
    "sealed E (packed k v) ki (len32 k) (len32 v) n c t"
proof -
  have "length (packed k v) = unat (len32 k) + unat (len32 v)"
    using kv_fitsD(5,6) [OF assms(2)] by simp
  moreover have "packed k v \<noteq> []" by (simp add: packed_def)
  ultimately show thesis
    using enclave_encrypt_sealed [OF assms(1) kv_fitsD(7) [OF assms(2)] assms(3)] that by blast
qed

lemma entry_store_holds:
  assumes "env_ok E" "entry_holds E e k v" "sealed E (packed k w) (key_hash_func k) (len32 k) (len32 w) n c t"
    "kv_fits k w" "rl \<or> val_size e = len32 w"
  defines "e' \<equiv> e\<lparr>key_val := Some c, nac := n, mac := t, val_size := len32 w\<rparr>"
  shows "entry_store E cells rl e c n t (len32 k) (len32 w) = Inr e'" "entry_holds E e' k w"
proof -
  have c: "length c = length k + length w + 2" using assms(3) by (simp add: sealed_def)
  have sz: "unat (len32 k + len32 w) = length k + length w + 2" by (rule kv_fitsD(8) [OF assms(4)])
  show "entry_holds E e' k w"
    using assms(2-4) by (auto simp: e'_def entry_holds_def sealed_def)
  show "entry_store E cells rl e c n t (len32 k) (len32 w) = Inr e'"
  proof (cases rl)
    case True
    with assms(1) c sz show ?thesis
      by (simp add: entry_store_def env_ok_def memory_ok_def memread_def e'_def)
  next
    case False
    then have vs: "len32 v = len32 w" using assms(2,5) by (simp add: entry_holds_def)
    moreover have "length v + 1 < 2 ^ 32" "length w + 1 < 2 ^ 32"
      using kv_fitsD(2) entry_holds_fits [OF assms(2)] assms(4) by blast+
    ultimately have "length v = length w" by (simp only: len32_eq)
    moreover obtain d where "key_val e = Some d" "length d = length k + length v + 2"
      using assms(2) by (auto simp: entry_holds_def sealed_def)
    ultimately show ?thesis
      using False c sz by (simp add: entry_store_def memcpy_at_def e'_def)
  qed
qed

lemma ht_newpair_eq:
  assumes "env_ok E" "sealed E p ki kl vl n c t"
  shows "ht_newpair E h kl vl kh c n t =
    Inr (Some (length h), h @ [\<lparr>key_size = kl, val_size = vl, key_hash = kh, key_val = Some c,
                                 nac = n, mac = t, nxt = None\<rparr>])"
proof -
  have f: "sizes_fit kl vl" and c: "length c = unat kl + unat vl" using assms(2) by (auto simp: sealed_def)
  have "unat (kl + vl) < 2 ^ 31" using f unat_add_fit [OF f] by (simp add: sizes_fit_def)
  with c unat_add_fit [OF f] have "int_size_sum kl vl = length c"
    by (simp add: int_size_sum_def unat_scast_small)
  with assms(1) show ?thesis
    by (simp add: ht_newpair_def env_ok_def memory_ok_def memread_def)
qed

section \<open>The table operations\<close>

definition macs_ok :: "enclave \<Rightarrow> (nat \<Rightarrow> nat list) \<Rightarrow> nat \<Rightarrow> bytes list \<Rightarrow> MACentry list \<Rightarrow> bool" where
  "macs_ok s bs b ms mb \<longleftrightarrow> length mb = length (MACbuf s) \<and> (\<forall>j. j \<noteq> b \<longrightarrow> mb ! j = MACbuf s ! j) \<and>
     (mac_opt (arg s) \<longrightarrow> macbuf_holds (mb ! b) ms)"

lemma macbuf_rep:
  assumes "rep0 E s bs kvs" "b < nbuckets s" "mac_opt (arg s)"
  shows "b < length (MACbuf s)" "macbuf_holds (MACbuf s ! b) (bmacs s bs b)"
    "msize (MACbuf s ! b) = int (length (kvs b))" "length (bmacs s bs b) = length (kvs b)"
proof -
  note D = rep0D [OF assms(1)]
  note B = bucket_repD [OF D(5) [OF assms(2)]]
  show "b < length (MACbuf s)" using D(2) assms(2,3) by (simp add: config_ok_def)
  show h: "macbuf_holds (MACbuf s ! b) (bmacs s bs b)" using B(6) assms(3) by (simp add: bmacs_def)
  show l: "length (bmacs s bs b) = length (kvs b)" using B(5) by (simp add: bmacs_def Let_def)
  show "msize (MACbuf s ! b) = int (length (kvs b))" using h l by (simp add: macbuf_holds_def)
qed

text \<open>Replacing the MAC at position \<open>j\<close> of the MAC bucket.\<close>

lemma macbuf_write_rep:
  assumes "rep0 E s bs kvs" "b < nbuckets s" "mac_opt (arg s)" "j < length (kvs b)" "length m = MAC_SIZE"
  obtains mb where "macbuf_write (MACbuf s) b (int j) m = Inr mb" "macs_ok s bs b ((bmacs s bs b)[j := m]) mb"
proof -
  note M = macbuf_rep [OF assms(1-3)]
  have "j < length (bmacs s bs b)" using assms(4) M(4) by simp
  from M(1,2) this assms(5) obtain x where
    "macbuf_write (MACbuf s) b (int j) m = Inr ((MACbuf s)[b := x])" "macbuf_holds x ((bmacs s bs b)[j := m])"
    by (rule macbuf_write_update)
  with that M(1) show thesis by (simp add: macs_ok_def)
qed

lemma ht_set_o_update:
  assumes "rep0 E s bs kvs" "i < length (kvs b)" "kvs b ! i = (k, v)" "b = bin_of s k"
    "sealed E (packed k w) (key_hash_func k) (len32 k) (len32 w) n c t" "kv_fits k w"
  obtains e mb where
    "ht_set_o E s (Some (bs b ! i)) (k @ [0]) c n t (len32 k) (len32 w) i = Inr (overwritten s (bs b ! i) e mb)"
    "overwrite_ok E s bs kvs b i k w e mb"
proof -
  note D = rep0D [OF assms(1)]
  have b: "b < nbuckets s" using assms(4) bin_of_less [OF D(2)] by simp
  note B = bucket_repD [OF D(5) [OF b]]
  let ?a = "bs b ! i"
  have a: "?a < length (heap s)" using chain_bounds [OF B(1)] assms(2) B(5) by simp
  have h: "entry_holds E (heap s ! ?a) k v" using holds_nth [OF B(2) assms(2)] assms(3) by simp
  define e where "e = (heap s ! ?a)\<lparr>key_val := Some c, nac := n, mac := t, val_size := len32 w\<rparr>"
  have rl: "val_size (heap s ! ?a) \<noteq> len32 w \<or> val_size (heap s ! ?a) = len32 w" by blast
  note st = entry_store_holds [OF D(1) h assms(5,6) rl, folded e_def]
  have bi: "bucket_index s (k @ [0]) = Inr b"
    using bucket_index_eq [OF D(2) kv_fitsD(3) [OF assms(6)]] assms(4) by simp
  have t: "length t = MAC_SIZE" using entry_holds_mac [OF D(3) st(2)] by (simp add: e_def)
  let ?j = "mac_pos s (length (kvs b)) i"
  obtain mb where mb: "macs_ok s bs b ((bmacs s bs b)[?j := mac e]) mb"
    "ht_set_o E s (Some ?a) (k @ [0]) c n t (len32 k) (len32 w) i = Inr (overwritten s ?a e mb)"
  proof (cases "mac_opt (arg s)")
    case True
    note M = macbuf_rep [OF assms(1) b True]
    have j: "int ?j = int (length (kvs b)) - int i - 1" "?j < length (kvs b)"
      using assms(2) True by (auto simp: mac_pos_def)
    from assms(1) b True j(2) t obtain mb where
      "macbuf_write (MACbuf s) b (int ?j) t = Inr mb" "macs_ok s bs b ((bmacs s bs b)[?j := t]) mb"
      by (rule macbuf_write_rep)
    with that [of mb] show thesis
      using a bi st(1) M(1,3) True
      by (simp add: ht_set_o_def deref_def Let_def overwritten_def j(1) e_def)
  next
    case False
    with that [of "MACbuf s"] show thesis
      using a bi st(1) by (simp add: ht_set_o_def deref_def Let_def overwritten_def macs_ok_def e_def)
  qed
  moreover have "overwrite_ok E s bs kvs b i k w e mb"
    using assms(1-3) b st(2) mb(1) by (simp add: overwrite_ok_def macs_ok_def) (simp add: e_def)
  ultimately show thesis using that by blast
qed

lemma ht_set_o_insert:
  assumes "rep0 E s bs kvs" "k \<notin> fst ` set (kvs b)" "b = bin_of s k"
    "sealed E (packed k w) (key_hash_func k) (len32 k) (len32 w) n c t" "kv_fits k w"
    "mac_opt (arg s) \<Longrightarrow> length (kvs b) < MAC_SLOTS"
  obtains e mb where
    "ht_set_o E s None (k @ [0]) c n t (len32 k) (len32 w) (length (kvs b)) = Inr (inserted s b e mb)"
    "insert_ok E s bs kvs b k w e mb"
proof -
  note D = rep0D [OF assms(1)]
  have b: "b < nbuckets s" using assms(3) bin_of_less [OF D(2)] by simp
  define e where "e = \<lparr>key_size = len32 k, val_size = len32 w, key_hash = key_hash_func k,
    key_val = Some c, nac = n, mac = t, nxt = table (ht s) ! b\<rparr>"
  have h: "entry_holds E e k w"
    using assms(4,5) by (auto simp: e_def entry_holds_def sealed_def)
  have t: "length t = MAC_SIZE" using entry_holds_mac [OF D(3) h] by (simp add: e_def)
  have bi: "bucket_index s (k @ [0]) = Inr b"
    using bucket_index_eq [OF D(2) kv_fitsD(3) [OF assms(5)]] assms(3) by simp
  have kh: "key_hash_func (k @ [0]) = key_hash_func k"
    using kv_fitsD(3) [OF assms(5)] by (simp add: key_hash_func_c_str)
  note np = ht_newpair_eq [OF D(1) assms(4), of "heap s" "key_hash_func k"]
  have cell: "(heap s @ [\<lparr>key_size = len32 k, val_size = len32 w, key_hash = key_hash_func k,
    key_val = Some c, nac = n, mac = t, nxt = None\<rparr>])[length (heap s) := e] = heap s @ [e]"
    by simp
  have nx: "(if table (ht s) ! b = None then None else table (ht s) ! b) = table (ht s) ! b" by simp
  obtain mb where mb: "macs_ok s bs b (bmacs s bs b @ [mac e]) mb"
    "ht_set_o E s None (k @ [0]) c n t (len32 k) (len32 w) (length (kvs b)) = Inr (inserted s b e mb)"
  proof (cases "mac_opt (arg s)")
    case True
    note M = macbuf_rep [OF assms(1) b True]
    have "length (bmacs s bs b) < MAC_SLOTS" using assms(6) [OF True] M(4) by simp
    from M(1,2) this t obtain x where x:
      "macbuf_write ((MACbuf s)[b := (MACbuf s ! b)\<lparr>msize := msize (MACbuf s ! b) + 1\<rparr>]) b
         (int (length (bmacs s bs b))) t = Inr ((MACbuf s)[b := x])" "macbuf_holds x (bmacs s bs b @ [t])"
      by (rule macbuf_write_insert)
    with that [of "(MACbuf s)[b := x]"] show thesis
      using bi np M(1,4) True cell
      by (simp add: ht_set_o_def kh Let_def inserted_def macs_ok_def e_def nx)
  next
    case False
    with that [of "MACbuf s"] show thesis
      using bi np cell by (simp add: ht_set_o_def kh Let_def inserted_def macs_ok_def e_def nx)
  qed
  moreover have "insert_ok E s bs kvs b k w e mb"
    using assms(1-3) h mb(1) by (simp add: insert_ok_def macs_ok_def) (simp add: e_def)
  ultimately show thesis using that by blast
qed

end
