(* ===== verification/Store_Handlers.thy ===== *)
theory Store_Handlers
  imports Store_Ops
begin

text \<open>
  The handlers that change the store. Each of them keeps the representation, changes the map
  at the key of the request only and replies with the key; an APPEND does so unless the MAC
  buckets are in use and it writes the MAC into the slot of another entry.
\<close>

section \<open>One step of the store\<close>

text \<open>What a successful write does: the new map, and a state that represents it.\<close>

definition written :: "env \<Rightarrow> enclave \<Rightarrow> enclave \<Rightarrow> bytes \<Rightarrow> bytes \<Rightarrow> bool" where
  "written E s s' k v \<longleftrightarrow>
     store_inv E s' \<and> store_map E s' = (store_map E s)(k \<mapsto> v) \<and>
     out s' = out s \<and> arg s' = arg s \<and> hsize (ht s') = hsize (ht s)"

lemma replied_frame: "arg s' = arg s \<Longrightarrow> replied s' c d = replied s c d"
  by (simp add: replied_def)

lemma overwrite_written:
  assumes "rep E s bs kvs" "overwrite_ok E s bs kvs b i k v e mb"
  shows "written E s (with_root E (overwritten s (bs b ! i) e mb) bs b) k v"
proof -
  note O = overwrite_okD [OF assms(2)]
  have "rep E (with_root E (overwritten s (bs b ! i) e mb) bs b) bs (kvs(b := (kvs b)[i := (k, v)]))"
    by (rule with_root_rep [OF assms(1) overwrite_rep0 [OF assms(2)] O(2)])
      (auto intro: overwrite_bmacs_other [OF assms(2)])
  then show ?thesis
    unfolding written_def store_inv_def using overwrite_map [OF assms(2)] by auto
qed

lemma insert_written:
  assumes "rep E s bs kvs" "insert_ok E s bs kvs b k v e mb"
  shows "written E s (with_root E (inserted s b e mb) (bs(b := length (heap s) # bs b)) b) k v"
proof -
  note O = insert_okD [OF assms(2)]
  have "rep E (with_root E (inserted s b e mb) (bs(b := length (heap s) # bs b)) b)
      (bs(b := length (heap s) # bs b)) (kvs(b := (k, v) # kvs b))"
    by (rule with_root_rep [OF assms(1) insert_rep0 [OF assms(2)] O(10)])
      (auto intro: insert_bmacs_other [OF assms(2)])
  then show ?thesis
    unfolding written_def store_inv_def using insert_map [OF assms(2)] by auto
qed

section \<open>SET\<close>

text \<open>The request buffer after the key has been cut off by \<open>strtok_r\<close>.\<close>

definition cut_request :: "bytes \<Rightarrow> bytes \<Rightarrow> bytes \<Rightarrow> bytes \<Rightarrow> bytes" where
  "cut_request cmd k v rest = cmd @ k @ 0 # v @ 0 # rest"

lemma length_cut_request: "length (cut_request cmd k v rest) = length (kv_request cmd k v rest)"
  by (simp add: cut_request_def kv_request_def)

lemma reply_key:
  assumes "config_ok s" "request_ok s cmd k (kv_request cmd k v rest)" "arg s' = arg s"
  shows "reply s' (cut_request cmd k v rest) (k @ [0]) =
    Inr (replied s (cut_request cmd k v rest) (k @ [0]))"
proof -
  have "reply s (cut_request cmd k v rest) (k @ [0]) =
    Inr (replied s (cut_request cmd k v rest) (k @ [0]))"
    using request_okD(5) [OF assms(2)] length_cut_request [of cmd k v rest]
    by (intro reply_eq [OF assms(1)]) (simp_all add: cut_request_def)
  with assms(3) show ?thesis by (simp add: reply_def)
qed

lemma packed_append: "(k @ [0]) @ v @ [0] = packed k v"
  by (simp add: packed_def)

lemma rep_found:
  assumes "rep E s bs kvs" "store_map E s k = Some v" "0 \<notin> set k" "length k + 1 < 2 ^ 32"
  obtains i n' where "i < length (kvs (bin_of s k))" "kvs (bin_of s k) ! i = (k, v)"
    "length n' = NAC_SIZE"
    "ht_get_o E s (k @ [0]) (len32 k) = Inr (Some (bs (bin_of s k) ! i, packed k v, n'), i)"
    "verify_found E s (bs (bin_of s k) ! i) = Inr (heap s ! (bs (bin_of s k) ! i), s)"
    "entry_holds E (heap s ! (bs (bin_of s k) ! i)) k v"
proof -
  let ?b = "bin_of s k"
  have r0: "rep0 E s bs kvs" using assms(1) by (simp add: rep_def)
  note D = rep0D [OF r0]
  note B = bucket_repD [OF D(5) [OF bin_of_less [OF D(2), of k]]]
  from r0 assms(2) obtain i where i: "i < length (kvs ?b)" "kvs ?b ! i = (k, v)"
    by (rule bucket_nth)
  have h: "entry_holds E (heap s ! (bs ?b ! i)) k v" using holds_nth [OF B(2) i(1)] i(2) by simp
  have "bs ?b ! i < length (heap s)" using chain_bounds [OF B(1)] i(1) B(5) by simp
  from verify_found_holds [OF D(1) this h]
  have "verify_found E s (bs ?b ! i) = Inr (heap s ! (bs ?b ! i), s)" .
  with r0 i assms(3,4) h that show thesis by (metis ht_get_o_found)
qed

lemma enclave_set_rep_update:
  assumes "rep E s bs kvs" "store_map E s k = Some v" "request_ok s cmd k (kv_request cmd k w rest)"
    "kv_fits k w"
  shows "\<exists>s'. enclave_set E rand s (kv_request cmd k w rest) =
      Inr (replied s (cut_request cmd k w rest) (k @ [0]), s') \<and> written E s s' k w"
proof -
  let ?b = "bin_of s k"
  have r0: "rep0 E s bs kvs" using assms(1) by (simp add: rep_def)
  note D = rep0D [OF r0] and R = request_okD [OF assms(3)]
  from assms(1,2) R(3,4) obtain i n' where g: "i < length (kvs ?b)" "kvs ?b ! i = (k, v)"
    "length n' = NAC_SIZE" "ht_get_o E s (k @ [0]) (len32 k) = Inr (Some (bs ?b ! i, packed k v, n'), i)"
    "verify_found E s (bs ?b ! i) = Inr (heap s ! (bs ?b ! i), s)" by (rule rep_found)
  from D(1) assms(4) g(3) obtain c t where e: 
    "enclave_encrypt E (packed k w) (key_hash_func k) (len32 k) (len32 w) n' = Inr (c, t)"
    "sealed E (packed k w) (key_hash_func k) (len32 k) (len32 w) n' c t"
    by (rule enclave_encrypt_packed)
  from r0 g(1,2) refl e(2) assms(4) obtain e mb where u:
    "ht_set_o E s (Some (bs ?b ! i)) (k @ [0]) c n' t (len32 k) (len32 w) i =
      Inr (overwritten s (bs ?b ! i) e mb)" "overwrite_ok E s bs kvs ?b i k w e mb"
    by (rule ht_set_o_update)
  let ?s = "with_root E (overwritten s (bs ?b ! i) e mb) bs ?b"
  have "enclave_set E rand s (kv_request cmd k w rest) =
      Inr (replied s (cut_request cmd k w rest) (k @ [0]), ?s)"
    using g(4,5) e(1) u(1) bucket_index_eq [OF D(2) R(3)] rebuild_overwrite [OF assms(1) u(2) refl]
      reply_key [OF D(2) assms(3), of ?s] key_hash_func_c_str [OF R(3)]
      parse_val_string [OF kv_fitsD(4) [OF assms(4)], of rest] packed_append [of k w]
    unfolding enclave_set_def parse_kv_request [OF R(1,2)] cut_request_def
    by (simp add: len32_of_nat [simplified] Let_def)
  with overwrite_written [OF assms(1) u(2)] show ?thesis by blast
qed

lemma enclave_set_rep_insert:
  assumes "rep E s bs kvs" "store_map E s k = None" "request_ok s cmd k (kv_request cmd k w rest)"
    "kv_fits k w" "length rand = NAC_SIZE" "ndebug E \<or> kvs (bin_of s k) = []"
    "mac_opt (arg s) \<Longrightarrow> length (kvs (bin_of s k)) < MAC_SLOTS"
  shows "\<exists>s'. enclave_set E rand s (kv_request cmd k w rest) =
      Inr (replied s (cut_request cmd k w rest) (k @ [0]), s') \<and> written E s s' k w"
proof -
  let ?b = "bin_of s k"
  have r0: "rep0 E s bs kvs" using assms(1) by (simp add: rep_def)
  note D = rep0D [OF r0] and R = request_okD [OF assms(3)]
  have new: "k \<notin> fst ` set (kvs ?b)"
    using assms(2) store_map_rep [OF r0] by (simp add: map_of_eq_None_iff)
  from D(1) assms(4,5) obtain c t where e: 
    "enclave_encrypt E (packed k w) (key_hash_func k) (len32 k) (len32 w) rand = Inr (c, t)"
    "sealed E (packed k w) (key_hash_func k) (len32 k) (len32 w) rand c t"
    by (rule enclave_encrypt_packed)
  from r0 new refl e(2) assms(4,7) obtain e mb where u:
    "ht_set_o E s None (k @ [0]) c rand t (len32 k) (len32 w) (length (kvs ?b)) = Inr (inserted s ?b e mb)"
    "insert_ok E s bs kvs ?b k w e mb"
    by (rule ht_set_o_insert)
  let ?s = "with_root E (inserted s ?b e mb) (bs(?b := length (heap s) # bs ?b)) ?b"
  have "enclave_set E rand s (kv_request cmd k w rest) =
      Inr (replied s (cut_request cmd k w rest) (k @ [0]), ?s)"
    using ht_get_o_absent [OF r0 assms(2) R(3,4)] e(1) u(1) bucket_index_eq [OF D(2) R(3)]
      rebuild_inserted [OF assms(1) u(2) assms(6), of "[]"]
      reply_key [OF D(2) assms(3), of ?s] key_hash_func_c_str [OF R(3)]
      parse_val_string [OF kv_fitsD(4) [OF assms(4)], of rest] packed_append [of k w]
    unfolding enclave_set_def parse_kv_request [OF R(1,2)] cut_request_def
    by (simp add: len32_of_nat [simplified] Let_def)
  with insert_written [OF assms(1) u(2)] show ?thesis by blast
qed

section \<open>APPEND\<close>

lemma len32_append:
  assumes "kv_fits k (v @ w)"
  shows "len32 v + len32 w - 1 = len32 (v @ w)"
  by (simp add: len32_def)

lemma kv_fits_append: "kv_fits k (v @ w) \<Longrightarrow> kv_fits k v"
  by (auto simp: kv_fits_def)

lemma appended_eq:
  assumes "kv_fits k (v @ w)"
  shows "appended (packed k v) (len32 k) (len32 v) (w @ [0]) (len32 w) = Inr (packed k (v @ w))"
proof -
  note f = kv_fits_append [OF assms]
  have w: "unat (len32 w) = length w + 1"
    using kv_fitsD(2) [OF assms] by (intro unat_len32) simp
  have vs: "unat (len32 k + len32 v + len32 w - 1) = length k + length v + length w + 2"
    using kv_fitsD(8) [OF assms] len32_append [OF assms] by (simp add: algebra_simps)
  let ?n = "length k + length v + 2" and ?m = "length k + length v + length w + 2"
  have o: "memread ?n (packed k v) = Inr (packed k v)" by (simp add: memread_def)
  have b: "memcpy_at (replicate ?m 0) 0 ?n (packed k v) = Inr (packed k v @ replicate (length w) 0)"
    by (simp add: memcpy_at_def)
  have c: "memcpy_at (packed k v @ replicate (length w) 0) (length k + length v + 1) (length w + 1) (w @ [0]) =
      Inr (packed k (v @ w))"
    by (simp add: memcpy_at_def packed_def)
  have off: "length k + 1 + (length v + 1) - 1 = length k + length v + 1" by simp
  show ?thesis
    unfolding appended_def kv_fitsD(5,6,8) [OF f] vs w o b bindE_Inr off by (rule c)
qed

text \<open>
  The state that \<open>ht_append_o\<close> leaves; with MAC buckets the new MAC is at the position \<open>i\<close>
  counted from the wrong end.
\<close>

lemma ht_append_o_eq:
  assumes "rep0 E s bs kvs" "i < length (kvs b)" "kvs b ! i = (k, v)" "b = bin_of s k"
    "sealed E (packed k w) (key_hash_func k) (len32 k) (len32 w) n c t" "kv_fits k w"
  obtains e mb where
    "ht_append_o E s (Some (bs b ! i)) (k @ [0]) c n t (len32 k) (len32 w) i = Inr (overwritten s (bs b ! i) e mb)"
    "mac e = t" "entry_holds E e k w" "nxt e = nxt (heap s ! (bs b ! i))"
    "macs_ok s bs b ((bmacs s bs b)[i := t]) mb"
proof -
  note D = rep0D [OF assms(1)]
  have b: "b < nbuckets s" using assms(4) bin_of_less [OF D(2)] by simp
  note B = bucket_repD [OF D(5) [OF b]]
  let ?a = "bs b ! i"
  have a: "?a < length (heap s)" using chain_bounds [OF B(1)] assms(2) B(5) by simp
  have h: "entry_holds E (heap s ! ?a) k v" using holds_nth [OF B(2) assms(2)] assms(3) by simp
  define e where "e = (heap s ! ?a)\<lparr>key_val := Some c, nac := n, mac := t, val_size := len32 w\<rparr>"
  have rl: "True \<or> val_size (heap s ! ?a) = len32 w" by blast
  note st = entry_store_holds [OF D(1) h assms(5,6) rl, folded e_def]
  have bi: "bucket_index s (k @ [0]) = Inr b"
    using bucket_index_eq [OF D(2) kv_fitsD(3) [OF assms(6)]] assms(4) by simp
  have t: "length t = MAC_SIZE" using entry_holds_mac [OF D(3) st(2)] by (simp add: e_def)
  obtain mb where mb: "macs_ok s bs b ((bmacs s bs b)[i := t]) mb"
    "ht_append_o E s (Some ?a) (k @ [0]) c n t (len32 k) (len32 w) i = Inr (overwritten s ?a e mb)"
  proof (cases "mac_opt (arg s)")
    case True
    from assms(1) b True assms(2) t obtain mb where
      "macbuf_write (MACbuf s) b (int i) t = Inr mb" "macs_ok s bs b ((bmacs s bs b)[i := t]) mb"
      by (rule macbuf_write_rep)
    with that [of mb] show thesis
      using a bi st(1) True by (simp add: ht_append_o_def deref_def Let_def overwritten_def e_def)
  next
    case False
    with that [of "MACbuf s"] show thesis
      using a bi st(1) by (simp add: ht_append_o_def deref_def Let_def overwritten_def macs_ok_def e_def)
  qed
  moreover have "mac e = t" "nxt e = nxt (heap s ! ?a)" by (simp_all add: e_def)
  ultimately show thesis using that st(2) by blast
qed

text \<open>What an APPEND computes up to the table operation, and what is left to do.\<close>

lemma enclave_append_unfold:
  assumes "rep E s bs kvs" "store_map E s k = Some v" "request_ok s cmd k (kv_request cmd k w rest)"
    "kv_fits k (v @ w)"
  obtains i c n t where "i < length (kvs (bin_of s k))" "kvs (bin_of s k) ! i = (k, v)"
    "sealed E (packed k (v @ w)) (key_hash_func k) (len32 k) (len32 (v @ w)) n c t"
    "enclave_append E s (kv_request cmd k w rest) =
      bindE (ht_append_o E s (Some (bs (bin_of s k) ! i)) (k @ [0]) c n t (len32 k) (len32 (v @ w)) i) (\<lambda>s2.
      bindE (enclave_rebuild_tree_root E s2 (bin_of s k) i False (mac (heap s ! (bs (bin_of s k) ! i))))
        (\<lambda>(ret, s3).
        let s4 = (if ret \<noteq> SGX_SUCCESS then print ''Tree verification failed'' s3 else s3) in
        bindE (reply s4 (cut_request cmd k w rest) (k @ [0])) (\<lambda>cipher2. Inr (cipher2, s4))))"
proof -
  let ?b = "bin_of s k"
  have r0: "rep0 E s bs kvs" using assms(1) by (simp add: rep_def)
  note D = rep0D [OF r0] and R = request_okD [OF assms(3)]
  from assms(1,2) R(3,4) obtain i n' where g: "i < length (kvs ?b)" "kvs ?b ! i = (k, v)"
    "length n' = NAC_SIZE" "ht_get_o E s (k @ [0]) (len32 k) = Inr (Some (bs ?b ! i, packed k v, n'), i)"
    "verify_found E s (bs ?b ! i) = Inr (heap s ! (bs ?b ! i), s)"
    "entry_holds E (heap s ! (bs ?b ! i)) k v" by (rule rep_found)
  from D(1) assms(4) g(3) obtain c t where e:
    "enclave_encrypt E (packed k (v @ w)) (key_hash_func k) (len32 k) (len32 (v @ w)) n' = Inr (c, t)"
    "sealed E (packed k (v @ w)) (key_hash_func k) (len32 k) (len32 (v @ w)) n' c t"
    by (rule enclave_encrypt_packed)
  have sz: "key_size (heap s ! (bs ?b ! i)) = len32 k" "val_size (heap s ! (bs ?b ! i)) = len32 v"
    using g(6) by (simp_all add: entry_holds_def)
  have w0: "0 \<notin> set w" using assms(4) by (simp add: kv_fits_def)
  have len: "of_nat (length (k @ [0])) = len32 k" "of_nat (length (w @ [0])) = len32 w"
    by (simp_all only: len32_of_nat)
  show thesis
  proof (rule that [OF g(1,2) e(2)])
    show "enclave_append E s (kv_request cmd k w rest) =
      bindE (ht_append_o E s (Some (bs ?b ! i)) (k @ [0]) c n' t (len32 k) (len32 (v @ w)) i) (\<lambda>s2.
      bindE (enclave_rebuild_tree_root E s2 ?b i False (mac (heap s ! (bs ?b ! i))))
        (\<lambda>(ret, s3).
        let s4 = (if ret \<noteq> SGX_SUCCESS then print ''Tree verification failed'' s3 else s3) in
        bindE (reply s4 (cut_request cmd k w rest) (k @ [0])) (\<lambda>cipher2. Inr (cipher2, s4))))"
      using e(1)
      unfolding enclave_append_def parse_kv_request [OF R(1,2)] bindE_Inr prod.case
        parse_val_string [OF w0] Let_def len g(4,5) bucket_index_eq [OF D(2) R(3)] option.case
        sz appended_eq [OF assms(4)] key_hash_func_c_str [OF R(3)] len32_append [OF assms(4)]
        cut_request_def
      by simp
  qed
qed

lemma enclave_append_rep:
  assumes "rep E s bs kvs" "store_map E s k = Some v" "request_ok s cmd k (kv_request cmd k w rest)"
    "kv_fits k (v @ w)" "\<not> mac_opt (arg s)"
  shows "\<exists>s'. enclave_append E s (kv_request cmd k w rest) =
      Inr (replied s (cut_request cmd k w rest) (k @ [0]), s') \<and> written E s s' k (v @ w)"
proof -
  let ?b = "bin_of s k"
  have r0: "rep0 E s bs kvs" using assms(1) by (simp add: rep_def)
  note D = rep0D [OF r0]
  from assms(1-4) obtain i c n t where a: "i < length (kvs ?b)" "kvs ?b ! i = (k, v)"
    "sealed E (packed k (v @ w)) (key_hash_func k) (len32 k) (len32 (v @ w)) n c t"
    "enclave_append E s (kv_request cmd k w rest) =
      bindE (ht_append_o E s (Some (bs ?b ! i)) (k @ [0]) c n t (len32 k) (len32 (v @ w)) i) (\<lambda>s2.
      bindE (enclave_rebuild_tree_root E s2 ?b i False (mac (heap s ! (bs ?b ! i))))
        (\<lambda>(ret, s3).
        let s4 = (if ret \<noteq> SGX_SUCCESS then print ''Tree verification failed'' s3 else s3) in
        bindE (reply s4 (cut_request cmd k w rest) (k @ [0])) (\<lambda>cipher2. Inr (cipher2, s4))))"
    by (rule enclave_append_unfold)
  from r0 a(1,2) refl a(3) assms(4) obtain e mb where u:
    "ht_append_o E s (Some (bs ?b ! i)) (k @ [0]) c n t (len32 k) (len32 (v @ w)) i =
      Inr (overwritten s (bs ?b ! i) e mb)" "mac e = t" "entry_holds E e k (v @ w)"
    "nxt e = nxt (heap s ! (bs ?b ! i))" "macs_ok s bs ?b ((bmacs s bs ?b)[i := t]) mb"
    by (rule ht_append_o_eq)
  have ok: "overwrite_ok E s bs kvs ?b i k (v @ w) e mb"
    using r0 a(1,2) u bin_of_less [OF D(2)] assms(5) by (simp add: overwrite_ok_def macs_ok_def)
  let ?s = "with_root E (overwritten s (bs ?b ! i) e mb) bs ?b"
  have "enclave_append E s (kv_request cmd k w rest) =
      Inr (replied s (cut_request cmd k w rest) (k @ [0]), ?s)"
    using a(4) u(1) rebuild_overwrite [OF assms(1) ok refl] reply_key [OF D(2) assms(3), of ?s]
    by simp
  with overwrite_written [OF assms(1) ok] show ?thesis by blast
qed

lemma enclave_append_absent:
  assumes "rep0 E s bs kvs" "store_map E s k = None" "request_ok s cmd k (kv_request cmd k w rest)"
    "0 \<notin> set w"
  shows "enclave_append E s (kv_request cmd k w rest) =
    Inr (cut_request cmd k w rest, print ''There's no data in the database'' s)"
  using ht_get_o_absent [OF assms(1,2) request_okD(3,4) [OF assms(3)]]
    bucket_index_eq [OF rep0D(2) [OF assms(1)] request_okD(3) [OF assms(3)]]
  unfolding enclave_append_def parse_kv_request [OF request_okD(1,2) [OF assms(3)]] cut_request_def
  by (simp add: parse_val_string [OF assms(4)] len32_of_nat [simplified])

end
