(* ===== verification/Server_Setup.thy ===== *)
theory Server_Setup
  imports Store_Handlers
begin

text \<open>
  The start of the server in \<open>App/App.cpp\<close>: the default configuration, the command line, the
  hash table and the MAC buckets that are handed to the enclave, and that the enclave starts
  with a well-formed empty store for every usable configuration.
\<close>

section \<open>Configuration\<close>

definition configuration_init :: Arg where
  "configuration_init =
     \<lparr>port_num = 1234, num_threads = 1, max_buf_size = 64, bucket_size = 8 * 1024 * 1024,
      tree_root_size = 4 * 1024 * 1024, key_opt = False, mac_opt = False\<rparr>"

text \<open>
  The options as \<open>getopt(argc, argv, "hp:b:t:s:r:yc")\<close> delivers them: the option character and
  the argument of an option that takes one. An unknown option is delivered as \<open>?\<close>. Help and
  illegal options end the process; \<open>None\<close>.
\<close>

definition apply_option :: "char \<times> string \<Rightarrow> Arg \<Rightarrow> Arg option" where
  "apply_option opt a =
     (case opt of (c, optarg) \<Rightarrow>
        if c = CHR ''h'' then None
        else if c = CHR ''p'' then Some (a\<lparr>port_num := atoi optarg\<rparr>)
        else if c = CHR ''b'' then Some (a\<lparr>max_buf_size := atoi optarg\<rparr>)
        else if c = CHR ''t'' then Some (a\<lparr>num_threads := atoi optarg\<rparr>)
        else if c = CHR ''s'' then Some (a\<lparr>bucket_size := atoi optarg\<rparr>)
        else if c = CHR ''r'' then Some (a\<lparr>tree_root_size := atoi optarg\<rparr>)
        else if c = CHR ''y'' then Some (a\<lparr>key_opt := True\<rparr>)
        else if c = CHR ''c'' then Some (a\<lparr>mac_opt := True\<rparr>)
        else None)"

fun main_options :: "(char \<times> string) list \<Rightarrow> Arg \<Rightarrow> Arg option" where
  "main_options [] a = Some a"
| "main_options (opt # opts) a = Option.bind (apply_option opt a) (main_options opts)"

section \<open>Tables\<close>

text \<open>
  \<open>mem n\<close> says whether the host's \<open>malloc\<close> of \<open>n\<close> bytes succeeds. The contents of a fresh MAC
  bucket are whatever the memory held: \<open>junk i\<close>.
\<close>

definition sizeof_array :: "nat \<Rightarrow> int \<Rightarrow> nat" where
  "sizeof_array el n = unat (of_nat el * (of_int n :: u64))"

definition macbuffer_create :: "(nat \<Rightarrow> bool) \<Rightarrow> (nat \<Rightarrow> bytes) \<Rightarrow> int \<Rightarrow> MACentry list res" where
  "macbuffer_create mem junk sz =
     (if \<not> mem 8 then Inl NullDeref
      else if \<not> mem (sizeof_array 484 sz) \<and> 0 < sz then Inl NullDeref
      else Inr (map (\<lambda>i. \<lparr>msize = 0, mmac = junk i\<rparr>) [0..<nat sz]))"

definition ht_create :: "(nat \<Rightarrow> bool) \<Rightarrow> int \<Rightarrow> hashtable option" where
  "ht_create mem sz =
     (if sz < 1 then None
      else if \<not> mem 16 then None
      else if \<not> mem (sizeof_array 8 sz) then None
      else Some \<lparr>hsize = sz, table = replicate (nat sz) None\<rparr>)"

text \<open>
  The part of \<open>main\<close> between the options and the sockets: create the tables and initialise the
  enclave with them.
\<close>

definition server_start :: "(nat \<Rightarrow> bool) \<Rightarrow> (nat \<Rightarrow> bytes) \<Rightarrow> Arg \<Rightarrow> enclave res" where
  "server_start mem junk a =
     (let t = ht_create mem (bucket_size a) in
      bindE (macbuffer_create mem junk (bucket_size a)) (\<lambda>mb. enclave_init_values t [] mb a))"

section \<open>The initial state\<close>

definition usable :: "Arg \<Rightarrow> bool" where
  "usable a \<longleftrightarrow>
     0 < bucket_size a \<and> bucket_size a < 2 ^ 31 \<and>
     0 < tree_root_size a \<and> tree_root_size a dvd bucket_size a \<and>
     0 \<le> max_buf_size a \<and> max_buf_size a < 2 ^ 30"

definition fresh :: "(nat \<Rightarrow> bytes) \<Rightarrow> Arg \<Rightarrow> enclave" where
  "fresh junk a =
     \<lparr>ht = \<lparr>hsize = bucket_size a, table = replicate (nat (bucket_size a)) None\<rparr>, heap = [],
      MACbuf = map (\<lambda>i. \<lparr>msize = 0, mmac = junk i\<rparr>) [0..<nat (bucket_size a)],
      MACTable = replicate (nat (tree_root_size a)) (replicate MAC_SIZE 0), arg = a,
      ratio_root_per_buckets = bucket_size a div tree_root_size a, out = []\<rparr>"

lemma server_start_eq:
  assumes "usable a" "\<And>n. mem n"
  shows "server_start mem junk a = Inr (fresh junk a)"
  using assms
  by (auto simp: server_start_def macbuffer_create_def ht_create_def enclave_init_values_def
      fresh_def usable_def c_div_pos)

lemma server_start_Inr:
  assumes "usable a" "server_start mem junk a = Inr s"
  shows "s = fresh junk a"
  using assms
  by (auto simp: server_start_def macbuffer_create_def ht_create_def enclave_init_values_def
      fresh_def usable_def c_div_pos fault_simps split: if_splits)

lemma fresh_rep:
  assumes "env_ok E" "usable a" "\<And>i. length (junk i) = MAC_SIZE * MAC_SLOTS"
  shows "rep E (fresh junk a) (\<lambda>_. []) (\<lambda>_. [])"
proof -
  have c: "config_ok (fresh junk a)"
    using assms(2) by (auto simp: config_ok_def fresh_def usable_def)
  have "bucket_rep E (fresh junk a) i [] []" if "i < nat (bucket_size a)" for i
    using that assms(3) [of i]
    by (simp add: bucket_rep_def fresh_def macbuf_holds_def all_macs_def)
  then have "rep0 E (fresh junk a) (\<lambda>_. []) (\<lambda>_. [])"
    using assms(1) c by (simp add: rep0_def) (simp add: fresh_def)
  moreover have "root_ok E (fresh junk a) (\<lambda>_. []) g" for g
    by (simp add: root_ok_def bmacs_def)
  ultimately show ?thesis by (simp add: rep_def)
qed

lemma fresh_map:
  assumes "env_ok E" "usable a" "\<And>i. length (junk i) = MAC_SIZE * MAC_SLOTS"
  shows "store_map E (fresh junk a) = Map.empty"
proof
  fix k
  have "rep0 E (fresh junk a) (\<lambda>_. []) (\<lambda>_. [])"
    using fresh_rep [OF assms] by (simp add: rep_def)
  from store_map_rep [OF this, of k] show "store_map E (fresh junk a) k = None" by simp
qed

end
