(* ===== verification/Workers.thy ===== *)
theory Workers
  imports Server_Setup
begin

text \<open>
  The request path inside the enclave (\<open>Enclave/Enclave.cpp\<close>): \<open>enclave_message_pass\<close> puts a
  request into the queue of the thread that owns its bucket, and \<open>enclave_worker_thread\<close> takes
  the requests of its queue one by one, runs the handler and sends the reply. Everything the
  two do under a mutex is one step; the step relation interleaves the responder with the
  workers.
\<close>

section \<open>State\<close>

text \<open>
  The globals of \<open>Enclave.cpp\<close> behind the store: the queues, the number of started workers,
  the number of clients that have left; which workers still run; and the messages sent
  through the call-out \<open>message_return\<close>.
\<close>

record server =
  enc :: enclave
  num :: nat
  exit_count :: int
  queue :: "job list list"
  running :: "bool list"
  sent :: "(int \<times> bytes) list"

record EcallParams =
  ebuf :: bytes
  esock :: int
  enum_clients :: int

text \<open>The queues \<open>enclave_init_values\<close> creates, one per thread; no thread runs yet.\<close>

definition init_server :: "enclave \<Rightarrow> server" where
  "init_server s =
     \<lparr>enc = s, num = 0, exit_count = 0, queue = replicate (nat (num_threads (arg s))) [],
      running = [], sent = []\<rparr>"

text \<open>\<open>message_return(buf, arg_enclave.max_buf_size, sock)\<close>.\<close>

definition message_return :: "bytes \<Rightarrow> int \<Rightarrow> server \<Rightarrow> server res" where
  "message_return b sock S =
     (let n = max_buf_size (arg (enc S)) in
      if 0 \<le> n then bindE (memread (nat n) b) (\<lambda>d. Inr (S\<lparr>sent := sent S @ [(sock, d)]\<rparr>))
      else Inl OutOfBounds)"

section \<open>Distribution\<close>

text \<open>\<open>(int)(ht_hash(key)/(ht_enclave->size/arg_enclave.num_threads))\<close> as an index of \<open>queue\<close>.\<close>

definition thread_of :: "server \<Rightarrow> bytes \<Rightarrow> nat res" where
  "thread_of S key =
     (let n = hsize (ht (enc S)); t = num_threads (arg (enc S)) in
      if n = 0 \<or> t = 0 \<or> c_div n t = 0 then Inl DivByZero
      else let id = c_div (ht_hash n key) (c_div n t) in
        if 0 \<le> id \<and> id < int (length (queue S)) then Inr (nat id) else Inl OutOfBounds)"

definition push_job :: "nat \<Rightarrow> job \<Rightarrow> server \<Rightarrow> server" where
  "push_job i j S = S\<lparr>queue := (queue S)[i := queue S ! i @ [j]]\<rparr>"

definition quit_job :: "server \<Rightarrow> job res" where
  "quit_job S =
     (let n = max_buf_size (arg (enc S)) in
      if n < 4 then Inl OutOfBounds
      else Inr \<lparr>client_sock = - 1, buf = lit ''quit'' @ replicate (nat n - 4) 0\<rparr>)"

fun push_quits :: "nat list \<Rightarrow> server \<Rightarrow> server res" where
  "push_quits [] S = Inr S"
| "push_quits (i # is) S =
     bindE (quit_job S) (\<lambda>j.
     bindE (requireE (i < length (queue S)) OutOfBounds) (\<lambda>_. push_quits is (push_job i j S)))"

definition enc_print :: "string \<Rightarrow> server \<Rightarrow> server" where
  "enc_print msg S = S\<lparr>enc := print msg (enc S)\<rparr>"

text \<open>
  \<open>enclave_message_pass\<close>; the result has the request buffer, in which \<open>strtok_r\<close> has cut off
  the key of a request that was passed on.
\<close>

definition enclave_message_pass :: "EcallParams \<Rightarrow> server \<Rightarrow> (EcallParams \<times> server) res" where
  "enclave_message_pass p S =
     (let cipher = ebuf p; n = max_buf_size (arg (enc S)) in
      bindE (is_command 4 ''EXIT'' ''exit'' cipher) (\<lambda>is_exit.
      if is_exit then
        bindE (message_return cipher (esock p) S) (\<lambda>S1.
        let S2 = S1\<lparr>exit_count := exit_count S1 + 1\<rparr> in
        if exit_count S2 = enum_clients p
        then bindE (push_quits [0..<nat (num_threads (arg (enc S2)))]
                      (enc_print ''All threads are finished'' S2)) (\<lambda>S3. Inr (p, S3))
        else Inr (p, S2))
      else
        bindE (strncmp_eq 8 cipher (lit ''LOADDONE'' @ [0])) (\<lambda>is_done.
        if is_done then
          bindE (message_return cipher (esock p) (enc_print ''Load process is done'' S)) (\<lambda>S1.
            Inr (p, S1))
        else
          bindE (if 0 \<le> n then memread (nat n) cipher else Inl OutOfBounds) (\<lambda>b.
          bindE (parse_key cipher) (\<lambda>(key, temp, cipher1).
          bindE (thread_of S key) (\<lambda>thread_id.
            Inr (p\<lparr>ebuf := cipher1\<rparr>,
                 push_job thread_id \<lparr>client_sock = esock p, buf = b\<rparr> S)))))))"

section \<open>Workers\<close>

text \<open>The start of \<open>enclave_worker_thread\<close>: the thread takes the next number.\<close>

definition start_worker :: "server \<Rightarrow> (nat \<times> server) res" where
  "start_worker S =
     (if int (num S) < num_threads (arg (enc S))
      then Inr (num S, S\<lparr>num := num S + 1, running := running S @ [True]\<rparr>)
      else Inl OutOfBounds)"

datatype outcome = Reply bytes | Quit | Untyped

text \<open>The chain of \<open>strncmp\<close> comparisons and the handler it selects.\<close>

definition process_request :: "env \<Rightarrow> bytes \<Rightarrow> enclave \<Rightarrow> bytes \<Rightarrow> (outcome \<times> enclave) res" where
  "process_request E rand s cipher =
     bindE (is_command 3 ''GET'' ''get'' cipher) (\<lambda>is_get.
     if is_get then bindE (enclave_get E s cipher) (\<lambda>(c, s1). Inr (Reply c, s1))
     else bindE (is_command 3 ''SET'' ''set'' cipher) (\<lambda>is_set.
     if is_set then bindE (enclave_set E rand s cipher) (\<lambda>(c, s1). Inr (Reply c, s1))
     else bindE (is_command 3 ''APP'' ''app'' cipher) (\<lambda>is_app.
     if is_app then bindE (enclave_append E s cipher) (\<lambda>(c, s1). Inr (Reply c, s1))
     else bindE (strncmp_eq 4 cipher (lit ''quit'' @ [0])) (\<lambda>is_quit.
     if is_quit then Inr (Quit, s) else Inr (Untyped, print ''Untyped request'' s)))))"

text \<open>
  One round of the worker loop on a non-empty queue. The job is removed after the reply has
  been sent; a request of no known type ends the worker with the job still in its queue.
\<close>

definition worker_round :: "env \<Rightarrow> bytes \<Rightarrow> nat \<Rightarrow> server \<Rightarrow> server res" where
  "worker_round E rand tid S =
     (let j = hd (queue S ! tid);
          pop = (\<lambda>S. S\<lparr>queue := (queue S)[tid := tl (queue S ! tid)]\<rparr>);
          stop = (\<lambda>S. S\<lparr>running := (running S)[tid := False]\<rparr>) in
      bindE (process_request E rand (enc S) (buf j)) (\<lambda>(r, s1).
      let S1 = S\<lparr>enc := s1\<rparr> in
      case r of
        Reply c \<Rightarrow> bindE (message_return c (client_sock j) S1) (\<lambda>S2. Inr (pop S2))
      | Quit \<Rightarrow> Inr (stop (pop S1))
      | Untyped \<Rightarrow> Inr (stop S1)))"

section \<open>Interleaving\<close>

text \<open>
  The events of a run: a worker starts, the responder passes on a request, a running worker
  does one round. A worker with an empty queue waits on its condition variable, so it has no
  event.
\<close>

datatype event = Start | Pass EcallParams | Round nat bytes

inductive server_step :: "env \<Rightarrow> server \<Rightarrow> event \<Rightarrow> server \<Rightarrow> bool" for E where
  step_start: "start_worker S = Inr (i, S') \<Longrightarrow> server_step E S Start S'"
| step_pass: "enclave_message_pass p S = Inr (p', S') \<Longrightarrow> server_step E S (Pass p) S'"
| step_round: "tid < length (running S) \<Longrightarrow> running S ! tid \<Longrightarrow> tid < length (queue S) \<Longrightarrow>
    queue S ! tid \<noteq> [] \<Longrightarrow> length rand = NAC_SIZE \<Longrightarrow> worker_round E rand tid S = Inr S' \<Longrightarrow>
    server_step E S (Round tid rand) S'"

inductive server_run :: "env \<Rightarrow> server \<Rightarrow> event list \<Rightarrow> server \<Rightarrow> bool" for E where
  run_nil: "server_run E S [] S"
| run_snoc: "server_run E S evs S' \<Longrightarrow> server_step E S' ev S'' \<Longrightarrow> server_run E S (evs @ [ev]) S''"

inductive_cases start_stepE: "server_step E S Start S'"
inductive_cases pass_stepE: "server_step E S (Pass p) S'"
inductive_cases round_stepE: "server_step E S (Round tid rand) S'"

end
