(* ===== verification/Server_Correct.thy ===== *)
theory Server_Correct
  imports Workers
begin

text \<open>
  The server as a sequential map: requests that encode GET and SET operations are put into
  the queue of the thread that owns the key, every round of a worker performs the operation
  at the head of its queue and sends its answer, whatever the interleaving.
\<close>

section \<open>Distribution of keys\<close>

text \<open>A number of threads that divides the number of buckets.\<close>

definition threads_ok :: "server \<Rightarrow> bool" where
  "threads_ok S \<longleftrightarrow> 0 < num_threads (arg (enc S)) \<and> num_threads (arg (enc S)) dvd hsize (ht (enc S)) \<and>
     length (queue S) = nat (num_threads (arg (enc S)))"

definition owner :: "server \<Rightarrow> nat \<Rightarrow> nat" where
  "owner S b = b div (nat (hsize (ht (enc S))) div nat (num_threads (arg (enc S))))"

lemma owner_less:
  assumes "threads_ok S" "b < nbuckets (enc S)"
  shows "owner S b < length (queue S)"
proof -
  let ?n = "nat (hsize (ht (enc S)))" and ?t = "nat (num_threads (arg (enc S)))"
  have t: "0 < ?t" "?t dvd ?n" "length (queue S) = ?t"
    using assms by (auto simp: threads_ok_def nat_dvd_iff)
  then have "?n = ?t * (?n div ?t)" by simp
  with assms(2) t show ?thesis
    unfolding owner_def by (metis less_mult_imp_div_less)
qed

lemma thread_of_eq:
  assumes "config_ok (enc S)" "threads_ok S" "0 \<notin> set k"
  shows "thread_of S (k @ [0]) = Inr (owner S (bin_of (enc S) k))"
proof -
  let ?n = "hsize (ht (enc S))" and ?t = "num_threads (arg (enc S))"
  have n: "0 < ?n" and t: "0 < ?t" "?t dvd ?n"
    using assms(1,2) by (auto simp: config_ok_def threads_ok_def)
  then have q: "0 < ?n div ?t" by (metis dvd_mult_div_cancel zero_less_mult_pos)
  have h: "0 \<le> ht_hash ?n k" using assms(1) by (simp add: config_ok_def ht_hash_bounds)
  have "int (owner S (bin_of (enc S) k)) = ht_hash ?n k div (?n div ?t)"
    using h n t q by (simp add: owner_def bin_of_def zdiv_int nat_div_distrib)
  moreover have "owner S (bin_of (enc S) k) < length (queue S)"
    using owner_less [OF assms(2) bin_of_less [OF assms(1)]] .
  moreover have "0 \<le> ht_hash ?n k div (?n div ?t)" using h q by (simp add: pos_imp_zdiv_nonneg_iff)
  ultimately show ?thesis
    using n t q h assms(3)
    by (simp add: thread_of_def Let_def c_div_pos ht_hash_c_str)
qed

section \<open>Requests\<close>

datatype req = Get bytes | Set bytes bytes

fun encodes :: "nat \<Rightarrow> bytes \<Rightarrow> req \<Rightarrow> bool" where
  "encodes n b (Get k) \<longleftrightarrow> length b = n \<and> plain_word k \<and>
     (\<exists>rest. b = key_request (lit ''GET '') k rest \<or> b = key_request (lit ''get '') k rest)"
| "encodes n b (Set k v) \<longleftrightarrow> length b = n \<and> plain_word k \<and> 0 \<notin> set v \<and>
     (\<exists>rest. b = kv_request (lit ''SET '') k v rest \<or> b = kv_request (lit ''set '') k v rest)"

text \<open>The sequential map: what an operation does and what it answers.\<close>

fun apply_req :: "req \<Rightarrow> (bytes \<rightharpoonup> bytes) \<Rightarrow> (bytes \<rightharpoonup> bytes)" where
  "apply_req (Get k) m = m"
| "apply_req (Set k v) m = m(k \<mapsto> v)"

fun answer :: "nat \<Rightarrow> bytes \<Rightarrow> (bytes \<rightharpoonup> bytes) \<Rightarrow> req \<Rightarrow> bytes" where
  "answer n b m (Get k) = (case m k of None \<Rightarrow> b | Some v \<Rightarrow> pad n (v @ [0]))"
| "answer n b m (Set k v) = pad n (k @ [0])"

fun replies :: "nat \<Rightarrow> (bytes \<rightharpoonup> bytes) \<Rightarrow> (job \<times> req) list \<Rightarrow> (int \<times> bytes) list" where
  "replies n m [] = []"
| "replies n m ((j, r) # ops) =
     (client_sock j, answer n (buf j) m r) # replies n (apply_req r m) ops"

lemma replies_snoc:
  "replies n m (ops @ [(j, r)]) = replies n m ops @
     [(client_sock j, answer n (buf j) (fold (\<lambda>(j, r). apply_req r) ops m) r)]"
  by (induction ops arbitrary: m) auto

section \<open>Invariant\<close>

definition bufsize :: "server \<Rightarrow> nat" where
  "bufsize S = nat (max_buf_size (arg (enc S)))"

definition values_fit :: "nat \<Rightarrow> (bytes \<rightharpoonup> bytes) \<Rightarrow> bool" where
  "values_fit n m \<longleftrightarrow> (\<forall>k v. m k = Some v \<longrightarrow> length v + 1 \<le> n)"

definition serving :: "env \<Rightarrow> server \<Rightarrow> bool" where
  "serving E S \<longleftrightarrow> ndebug E \<and> store_inv E (enc S) \<and> \<not> mac_opt (arg (enc S)) \<and> threads_ok S \<and>
     values_fit (bufsize S) (store_map E (enc S)) \<and>
     (\<forall>q \<in> set (queue S). \<forall>j \<in> set q. \<exists>r. encodes (bufsize S) (buf j) r) \<and>
     (\<forall>i < length (running S). running S ! i)"

lemma servingD:
  assumes "serving E S"
  shows "ndebug E" "store_inv E (enc S)" "\<not> mac_opt (arg (enc S))" "threads_ok S"
    "values_fit (bufsize S) (store_map E (enc S))"
    "i < length (queue S) \<Longrightarrow> j \<in> set (queue S ! i) \<Longrightarrow> \<exists>r. encodes (bufsize S) (buf j) r"
    "i < length (running S) \<Longrightarrow> running S ! i"
  using assms nth_mem [of i "queue S"] by (auto simp: serving_def)

lemma store_inv_config: "store_inv E s \<Longrightarrow> config_ok s"
  by (auto simp: store_inv_def rep_def dest: rep0D(2))

lemma bufsize_int:
  assumes "store_inv E (enc S)"
  shows "max_buf_size (arg (enc S)) = int (bufsize S)" "bufsize S < 2 ^ 30"
proof -
  have "0 \<le> max_buf_size (arg (enc S))" "max_buf_size (arg (enc S)) < 2 ^ 30"
    using store_inv_config [OF assms] by (auto simp: config_ok_def)
  then show "max_buf_size (arg (enc S)) = int (bufsize S)" "bufsize S < 2 ^ 30"
    by (simp_all add: bufsize_def nat_less_iff)
qed

section \<open>One operation\<close>

lemmas command_simps = is_command_def lit_def

lemma command_get:
  "c = key_request (lit ''GET '') k rest \<or> c = key_request (lit ''get '') k rest \<Longrightarrow>
   process_request E rand s c = bindE (enclave_get E s c) (\<lambda>(c, s1). Inr (Reply c, s1))"
  by (auto simp: process_request_def key_request_def command_simps)

lemma command_set:
  "c = kv_request (lit ''SET '') k v rest \<or> c = kv_request (lit ''set '') k v rest \<Longrightarrow>
   process_request E rand s c = bindE (enclave_set E rand s c) (\<lambda>(c, s1). Inr (Reply c, s1))"
  by (auto simp: process_request_def kv_request_def command_simps)

lemma rep_print [simp]: "rep E (print m s) bs kvs = rep E s bs kvs"
proof -
  have "bmacs (print m s) bs = bmacs s bs" by (simp add: bmacs_def fun_eq_iff)
  moreover have "config_ok (print m s) = config_ok s" by (simp add: config_ok_def)
  moreover have "bucket_rep E (print m s) i as xs = bucket_rep E s i as xs" for i as xs
    by (simp add: bucket_rep_def bin_of_def cong: map_cong)
  moreover have "group_of (print m s) g = group_of s g" for g by (simp add: group_of_def)
  ultimately show ?thesis by (simp add: rep_def rep0_def root_ok_def)
qed

lemma store_inv_print [simp]: "store_inv E (print m s) = store_inv E s"
  by (simp add: store_inv_def)

lemma store_map_print [simp]: "store_map E (print m s) = store_map E s"
  by (simp add: store_map_def bucket_pairs_def bin_of_def fun_eq_iff cong: map_cong option.case_cong)

lemma replied_padded:
  "max_buf_size (arg s) = int (length c) \<Longrightarrow> length d \<le> length c \<Longrightarrow> replied s c d = pad (length c) d"
  by (simp add: replied_def pad_def Let_def)

text \<open>What is known after one operation.\<close>

definition performed :: "env \<Rightarrow> nat \<Rightarrow> req \<Rightarrow> enclave \<Rightarrow> enclave \<Rightarrow> bool" where
  "performed E n r s s' \<longleftrightarrow>
     store_inv E s' \<and> store_map E s' = apply_req r (store_map E s) \<and> arg s' = arg s \<and>
     hsize (ht s') = hsize (ht s) \<and> values_fit n (store_map E s')"

lemma get_performed:
  assumes "store_inv E s" "max_buf_size (arg s) = int n" "n < 2 ^ 30" "values_fit n (store_map E s)"
    "encodes n b (Get k)"
  obtains s' where "process_request E rand s b = Inr (Reply (answer n b (store_map E s) (Get k)), s')"
    "performed E n (Get k) s s'"
proof -
  from assms(1) obtain bs kvs where r: "rep E s bs kvs" by (auto simp: store_inv_def)
  then have r0: "rep0 E s bs kvs" by (simp add: rep_def)
  from assms(5) obtain cmd rest where b: "b = key_request cmd k rest" "length cmd = 4"
    and k: "plain_word k" "length b = n"
    and c: "b = key_request (lit ''GET '') k rest \<or> b = key_request (lit ''get '') k rest"
    by (auto simp: lit_def)
  have lk: "length k + 1 < 2 ^ 32" using assms(3) b k(2) by (simp add: key_request_def)
  note pr = command_get [OF c, of E rand s]
  show thesis
  proof (cases "store_map E s k")
    case None
    with enclave_get_rep_absent [OF r0 None b(2) k(1) lk, of rest] pr b(1) assms(1,4)
      that [of "print ''GET FAILED: No data in database'' s"]
    show thesis by (simp add: performed_def)
  next
    case (Some v)
    have "request_ok s cmd k b" using b(2) k lk assms(2) by (simp add: request_ok_def)
    moreover have lv: "length v + 1 \<le> length b" using assms(4) Some k(2) by (simp add: values_fit_def)
    ultimately have "enclave_get E s b = Inr (replied s b (v @ [0]), s)"
      using enclave_get_rep_found [OF r Some, of cmd rest] b(1) by simp
    moreover have "replied s b (v @ [0]) = pad n (v @ [0])"
      using replied_padded [of s b "v @ [0]"] assms(2) k(2) lv by simp
    ultimately show thesis
      using pr assms(1,4) Some that [of s] by (simp add: performed_def)
  qed
qed

lemma set_performed:
  assumes "store_inv E s" "max_buf_size (arg s) = int n" "n < 2 ^ 30" "values_fit n (store_map E s)"
    "encodes n b (Set k v)" "length rand = NAC_SIZE" "ndebug E" "\<not> mac_opt (arg s)"
  obtains s' where "process_request E rand s b = Inr (Reply (answer n b (store_map E s) (Set k v)), s')"
    "performed E n (Set k v) s s'"
proof -
  from assms(1) obtain bs kvs where r: "rep E s bs kvs" by (auto simp: store_inv_def)
  from assms(5) obtain cmd rest where b: "b = kv_request cmd k v rest" "length cmd = 4"
    and k: "plain_word k" "length b = n" "0 \<notin> set v"
    and c: "b = kv_request (lit ''SET '') k v rest \<or> b = kv_request (lit ''set '') k v rest"
    by (auto simp: lit_def)
  have len: "length k + length v + 6 \<le> n" using b k(2) by (simp add: kv_request_def)
  have f: "kv_fits k v" using k len assms(3) by (simp add: kv_fits_def plain_word_def)
  have "request_ok s cmd k b" using b(2) k len assms(2,3) by (simp add: request_ok_def)
  with r f assms(6-8) b(1) have "\<exists>s'. enclave_set E rand s b =
      Inr (replied s (cut_request cmd k v rest) (k @ [0]), s') \<and> written E s s' k v"
    using enclave_set_rep_update [OF r, of k _ cmd v rest rand]
      enclave_set_rep_insert [OF r, of k cmd v rest rand] by (cases "store_map E s k") auto
  then obtain s' where s': "enclave_set E rand s b =
      Inr (replied s (cut_request cmd k v rest) (k @ [0]), s')" "written E s s' k v" by blast
  have "replied s (cut_request cmd k v rest) (k @ [0]) = pad n (k @ [0])"
    using replied_padded [of s "cut_request cmd k v rest" "k @ [0]"] assms(2) k(2) b(1) len
      length_cut_request [of cmd k v rest] by simp
  moreover have "performed E n (Set k v) s s'"
    using s'(2) assms(4) len by (auto simp: performed_def written_def values_fit_def)
  ultimately show thesis
    using that s'(1) command_set [OF c, of E rand s] by simp
qed

lemma req_performed:
  assumes "serving E S" "encodes (bufsize S) b r" "length rand = NAC_SIZE"
  obtains s' where
    "process_request E rand (enc S) b = Inr (Reply (answer (bufsize S) b (store_map E (enc S)) r), s')"
    "performed E (bufsize S) r (enc S) s'"
proof -
  note s = servingD [OF assms(1)]
  note n = bufsize_int [OF s(2)]
  show thesis
  proof (cases r)
    case (Get k)
    with assms(2) get_performed [OF s(2) n s(5), of b k rand] that show thesis by metis
  next
    case (Set k v)
    with assms(2,3) set_performed [OF s(2) n s(5) _ _ s(1,3), of b k v rand] that show thesis by metis
  qed
qed

section \<open>Steps\<close>

fun key_of :: "req \<Rightarrow> bytes" where
  "key_of (Get k) = k"
| "key_of (Set k v) = k"

lemma encodes_parse:
  assumes "encodes n b r"
  obtains temp b' where "parse_key b = Inr (key_of r @ [0], temp, b')" "plain_word (key_of r)"
proof (cases r)
  case (Get k)
  with assms obtain cmd rest where "b = key_request cmd k rest" "length cmd = 4" "plain_word k"
    by (auto simp: lit_def)
  with Get that parse_key_request [of cmd k rest] show thesis by simp
next
  case (Set k v)
  with assms obtain cmd rest where "b = kv_request cmd k v rest" "length cmd = 4" "plain_word k"
    by (auto simp: lit_def)
  with Set that parse_kv_request [of cmd k v rest] show thesis by simp
qed

lemma encodes_no_control:
  assumes "encodes n b r"
  shows "is_command 4 ''EXIT'' ''exit'' b = Inr False" "strncmp_eq 8 b (lit ''LOADDONE'' @ [0]) = Inr False"
    "length b = n"
  using assms by (cases r; auto simp: key_request_def kv_request_def command_simps)+

lemma pass_eq:
  assumes "serving E S" "encodes (bufsize S) (ebuf p) r"
  obtains p' where "enclave_message_pass p S =
    Inr (p', push_job (owner S (bin_of (enc S) (key_of r))) \<lparr>client_sock = esock p, buf = ebuf p\<rparr> S)"
proof -
  note s = servingD [OF assms(1)] and c = encodes_no_control [OF assms(2)]
  note n = bufsize_int [OF s(2)]
  from assms(2) obtain temp b' where k: "parse_key (ebuf p) = Inr (key_of r @ [0], temp, b')"
    "plain_word (key_of r)" by (rule encodes_parse)
  have "thread_of S (key_of r @ [0]) = Inr (owner S (bin_of (enc S) (key_of r)))"
    using k(2) by (intro thread_of_eq [OF store_inv_config [OF s(2)] s(4)]) (simp add: plain_word_def)
  with c k(1) n that show thesis
    by (simp add: enclave_message_pass_def Let_def memread_def)
qed

lemma push_job_simps [simp]:
  "enc (push_job i j S) = enc S" "running (push_job i j S) = running S" "sent (push_job i j S) = sent S"
  "length (queue (push_job i j S)) = length (queue S)" "num (push_job i j S) = num S"
  "bufsize (push_job i j S) = bufsize S" "threads_ok (push_job i j S) = threads_ok S"
  by (simp_all add: push_job_def bufsize_def threads_ok_def)

lemma serving_queue:
  assumes "serving E S" "length q = length (queue S)"
    "\<And>i j. i < length q \<Longrightarrow> j \<in> set (q ! i) \<Longrightarrow> \<exists>r. encodes (bufsize S) (buf j) r"
  shows "serving E (S\<lparr>queue := q\<rparr>)"
proof -
  note s = servingD [OF assms(1)]
  have "\<forall>x \<in> set q. \<forall>j \<in> set x. \<exists>r. encodes (bufsize S) (buf j) r"
    using assms(3) by (metis in_set_conv_nth)
  with s assms(2) show ?thesis
    by (simp add: serving_def bufsize_def threads_ok_def)
qed

lemma pass_serving:
  assumes "serving E S" "i < length (queue S)" "encodes (bufsize S) (buf j) r"
  shows "serving E (push_job i j S)"
  unfolding push_job_def
proof (rule serving_queue [OF assms(1)])
  fix a x assume "a < length ((queue S)[i := queue S ! i @ [j]])" "x \<in> set ((queue S)[i := queue S ! i @ [j]] ! a)"
  then show "\<exists>r. encodes (bufsize S) (buf x) r"
    using servingD(6) [OF assms(1), of a x] assms(2,3) by (cases "a = i") auto
qed simp

text \<open>The state after a round that performed an operation.\<close>

definition rounded :: "nat \<Rightarrow> enclave \<Rightarrow> bytes \<Rightarrow> server \<Rightarrow> server" where
  "rounded tid s' a S =
     S\<lparr>enc := s', sent := sent S @ [(client_sock (hd (queue S ! tid)), a)],
       queue := (queue S)[tid := tl (queue S ! tid)]\<rparr>"

lemma length_answer:
  assumes "encodes n b r" "values_fit n m"
  shows "length (answer n b m r) = n"
  using assms
  by (cases r) (auto simp: pad_def values_fit_def key_request_def kv_request_def split: option.splits)

lemma round_eq:
  assumes "serving E S" "tid < length (queue S)" "queue S ! tid \<noteq> []" "length rand = NAC_SIZE"
    "encodes (bufsize S) (buf (hd (queue S ! tid))) r"
  obtains s' where "performed E (bufsize S) r (enc S) s'"
    "worker_round E rand tid S =
      Inr (rounded tid s' (answer (bufsize S) (buf (hd (queue S ! tid))) (store_map E (enc S)) r) S)"
proof -
  note s = servingD [OF assms(1)]
  let ?b = "buf (hd (queue S ! tid))"
  from assms(1,5,4) obtain s' where p:
    "process_request E rand (enc S) ?b = Inr (Reply (answer (bufsize S) ?b (store_map E (enc S)) r), s')"
    "performed E (bufsize S) r (enc S) s'" by (rule req_performed)
  have "max_buf_size (arg s') = int (bufsize S)"
    using p(2) bufsize_int(1) [OF s(2)] by (simp add: performed_def)
  with p length_answer [OF assms(5) s(5)] that show thesis
    by (simp add: worker_round_def Let_def message_return_def memread_def rounded_def)
qed

lemma round_serving:
  assumes "serving E S" "tid < length (queue S)" "performed E (bufsize S) r (enc S) s'"
  shows "serving E (rounded tid s' a S)"
proof -
  note s = servingD [OF assms(1)]
  have p: "store_inv E s'" "arg s' = arg (enc S)" "hsize (ht s') = hsize (ht (enc S))"
    "values_fit (bufsize S) (store_map E s')"
    using assms(3) by (auto simp: performed_def)
  have "serving E (S\<lparr>queue := (queue S)[tid := tl (queue S ! tid)]\<rparr>)"
  proof (rule serving_queue [OF assms(1)])
    fix i j assume i: "i < length ((queue S)[tid := tl (queue S ! tid)])"
      "j \<in> set ((queue S)[tid := tl (queue S ! tid)] ! i)"
    then have "j \<in> set (queue S ! i)"
      using assms(2) by (cases "i = tid") (auto dest: in_set_tl)
    with i show "\<exists>r. encodes (bufsize S) (buf j) r" using s(6) by simp
  qed simp
  with p show ?thesis
    by (simp add: serving_def rounded_def bufsize_def threads_ok_def)
qed

section \<open>Runs\<close>

text \<open>
  A service run with the operations it performs, in the order in which the workers perform
  them: workers start, requests that encode operations come in, workers do rounds.
\<close>

inductive server_log :: "env \<Rightarrow> server \<Rightarrow> (job \<times> req) list \<Rightarrow> server \<Rightarrow> bool" for E S0 where
  log_nil: "server_log E S0 [] S0"
| log_start: "server_log E S0 ops S \<Longrightarrow> server_step E S Start S' \<Longrightarrow> server_log E S0 ops S'"
| log_pass: "server_log E S0 ops S \<Longrightarrow> encodes (bufsize S) (ebuf p) r \<Longrightarrow>
    server_step E S (Pass p) S' \<Longrightarrow> server_log E S0 ops S'"
| log_round: "server_log E S0 ops S \<Longrightarrow> encodes (bufsize S) (buf (hd (queue S ! tid))) r \<Longrightarrow>
    server_step E S (Round tid rand) S' \<Longrightarrow>
    server_log E S0 (ops @ [(hd (queue S ! tid), r)]) S'"

text \<open>The effect of every step on what the simulation relates.\<close>

lemma start_effect:
  assumes "serving E S" "server_step E S Start S'"
  shows "serving E S'" "enc S' = enc S" "sent S' = sent S" "queue S' = queue S"
proof -
  from assms(2) have S': "S' = S\<lparr>num := num S + 1, running := running S @ [True]\<rparr>"
    by (auto elim!: start_stepE simp: start_worker_def split: if_splits)
  show "enc S' = enc S" "sent S' = sent S" "queue S' = queue S" by (simp_all add: S')
  show "serving E S'"
    using assms(1) by (auto simp: S' serving_def bufsize_def threads_ok_def nth_append)
qed

lemma pass_effect:
  assumes "serving E S" "encodes (bufsize S) (ebuf p) r" "server_step E S (Pass p) S'"
  shows "serving E S'"
    "S' = push_job (owner S (bin_of (enc S) (key_of r))) \<lparr>client_sock = esock p, buf = ebuf p\<rparr> S"
proof -
  note s = servingD [OF assms(1)]
  show S': "S' = push_job (owner S (bin_of (enc S) (key_of r))) \<lparr>client_sock = esock p, buf = ebuf p\<rparr> S"
    using assms(3) pass_eq [OF assms(1,2)] by (elim pass_stepE) (metis Pair_inject sum.inject(2))
  show "serving E S'"
    unfolding S' using assms(2)
    by (intro pass_serving [OF assms(1) owner_less [OF s(4) bin_of_less [OF store_inv_config [OF s(2)]]]]) auto
qed

lemma round_effect:
  assumes "serving E S" "encodes (bufsize S) (buf (hd (queue S ! tid))) r"
    "server_step E S (Round tid rand) S'"
  obtains s' where "serving E S'" "performed E (bufsize S) r (enc S) s'"
    "S' = rounded tid s' (answer (bufsize S) (buf (hd (queue S ! tid))) (store_map E (enc S)) r) S"
proof -
  from assms(3) have t: "tid < length (queue S)" "queue S ! tid \<noteq> []" "length rand = NAC_SIZE"
    "worker_round E rand tid S = Inr S'" by (auto elim: round_stepE)
  from assms(1) t(1-3) assms(2) obtain s' where p: "performed E (bufsize S) r (enc S) s'"
    "worker_round E rand tid S =
      Inr (rounded tid s' (answer (bufsize S) (buf (hd (queue S ! tid))) (store_map E (enc S)) r) S)"
    by (rule round_eq)
  with t(4) that round_serving [OF assms(1) t(1) p(1)] show thesis by auto
qed

text \<open>
  The simulation: after any service run the store is the map that the performed operations
  build one after the other, and the messages sent are their answers in that order.
\<close>

lemma log_refines:
  assumes "server_log E S0 ops S" "serving E S0" "sent S0 = []"
  shows "serving E S \<and> bufsize S = bufsize S0 \<and>
    store_map E (enc S) = fold (\<lambda>(j, r). apply_req r) ops (store_map E (enc S0)) \<and>
    sent S = replies (bufsize S0) (store_map E (enc S0)) ops"
  using assms(1)
proof induction
  case log_nil
  show ?case using assms by simp
next
  case (log_start ops S S')
  then show ?case using start_effect [of E S S'] by (simp add: bufsize_def)
next
  case (log_pass ops S p r S')
  then show ?case using pass_effect [of E S p r S'] by simp
next
  case (log_round ops S tid r rand S')
  then have sv: "serving E S" by simp
  from sv log_round.hyps(2,3) obtain s' where "serving E S'" "performed E (bufsize S) r (enc S) s'"
    "S' = rounded tid s' (answer (bufsize S) (buf (hd (queue S ! tid))) (store_map E (enc S)) r) S"
    by (rule round_effect)
  with log_round.IH show ?case
    by (simp add: performed_def rounded_def bufsize_def replies_snoc)
qed

section \<open>Progress\<close>

text \<open>A running worker performs every request of its queue, in order.\<close>

lemma drain:
  assumes "serving E S" "tid < length (queue S)" "tid < length (running S)"
  shows "\<exists>ops S'. server_log E S ops S' \<and> map fst ops = queue S ! tid \<and> queue S' ! tid = []"
proof -
  obtain rand :: bytes where rand: "length rand = NAC_SIZE" using Ex_list_of_length by blast
  have "\<exists>ops S'. server_log E S0 (ops0 @ ops) S' \<and> map fst ops = queue S ! tid \<and> queue S' ! tid = []"
    if "server_log E S0 ops0 S" "serving E S" "tid < length (queue S)" "tid < length (running S)" for S0 ops0 S
    using that
  proof (induction "queue S ! tid" arbitrary: S ops0)
    case Nil
    then show ?case by (intro exI [of _ "[]"] exI [of _ S]) simp
  next
    case (Cons j js)
    note s = servingD [OF Cons.prems(2)]
    from s(6) [OF Cons.prems(3), of j] Cons.hyps(2) obtain r
      where r: "encodes (bufsize S) (buf (hd (queue S ! tid))) r" by (metis list.sel(1) list.set_intros(1))
    have ne: "queue S ! tid \<noteq> []" using Cons.hyps(2) by auto
    from Cons.prems(2,3) ne rand r obtain s' where w: "performed E (bufsize S) r (enc S) s'"
      "worker_round E rand tid S =
        Inr (rounded tid s' (answer (bufsize S) (buf (hd (queue S ! tid))) (store_map E (enc S)) r) S)"
      by (rule round_eq)
    define S1 where "S1 = rounded tid s' (answer (bufsize S) (buf (hd (queue S ! tid))) (store_map E (enc S)) r) S"
    have "server_step E S (Round tid rand) S1"
      using Cons.prems(3,4) s(7) ne rand w(2) by (auto simp: S1_def intro: step_round)
    then have "server_log E S0 (ops0 @ [(j, r)]) S1"
      using log_round [OF Cons.prems(1) r] Cons.hyps(2) by (metis list.sel(1))
    moreover have "js = queue S1 ! tid" "tid < length (queue S1)" "tid < length (running S1)"
      using Cons.hyps(2) Cons.prems(3,4) by (simp_all add: S1_def rounded_def, metis list.sel(3))
    moreover have "serving E S1"
      unfolding S1_def by (rule round_serving [OF Cons.prems(2,3) w(1)])
    ultimately obtain ops S' where "server_log E S0 ((ops0 @ [(j, r)]) @ ops) S'"
      "map fst ops = queue S1 ! tid" "queue S' ! tid = []"
      using Cons.hyps(1) by metis
    with \<open>js = queue S1 ! tid\<close> Cons.hyps(2) show ?case
      by (intro exI [of _ "(j, r) # ops"] exI [of _ S']) simp
  qed
  from this [OF log_nil assms(1-3)] show ?thesis by simp
qed

section \<open>The first state\<close>

definition server_usable :: "Arg \<Rightarrow> bool" where
  "server_usable a \<longleftrightarrow> usable a \<and> 0 < num_threads a \<and> num_threads a dvd bucket_size a \<and> \<not> mac_opt a"

lemma init_serving:
  assumes "env_ok E" "ndebug E" "server_usable a" "\<And>i. length (junk i) = MAC_SIZE * MAC_SLOTS"
  shows "serving E (init_server (fresh junk a))"
proof -
  have u: "usable a" using assms(3) by (simp add: server_usable_def)
  have "rep E (fresh junk a) (\<lambda>_. []) (\<lambda>_. [])" using assms(4) by (intro fresh_rep [OF assms(1) u])
  then have "store_inv E (fresh junk a)" by (auto simp: store_inv_def)
  moreover have "store_map E (fresh junk a) = Map.empty"
    using assms(4) by (intro fresh_map [OF assms(1) u])
  moreover have "arg (fresh junk a) = a" "hsize (ht (fresh junk a)) = bucket_size a"
    by (simp_all add: fresh_def)
  ultimately show ?thesis
    using assms(2,3)
    by (auto simp: serving_def init_server_def values_fit_def threads_ok_def server_usable_def)
qed

end
