(* ===== verification/Integrity.thy ===== *)
theory Integrity
  imports Store_Handlers
begin

text \<open>
  What the integrity protection promises against an adversary who owns the untrusted memory.
  The adversary replaces the entries, the table and the MAC buckets at will; the roots and
  the configuration are inside the enclave and stay. An answer that comes without a warning
  is the answer of the untampered store, unless the memory contains a message that collides
  under the CMAC with a message of the untampered store. The gaps of the protection are
  stated as lemmas as well.
\<close>

section \<open>The adversary\<close>

definition with_memory :: "enclave \<Rightarrow> entry list \<Rightarrow> ptr list \<Rightarrow> MACentry list \<Rightarrow> enclave" where
  "with_memory s h t mb = s\<lparr>heap := h, ht := (ht s)\<lparr>table := t\<rparr>, MACbuf := mb\<rparr>"

lemma with_memory_simps [simp]:
  "hsize (ht (with_memory s h t mb)) = hsize (ht s)" "table (ht (with_memory s h t mb)) = t"
  "heap (with_memory s h t mb) = h" "MACbuf (with_memory s h t mb) = mb"
  "MACTable (with_memory s h t mb) = MACTable s" "arg (with_memory s h t mb) = arg s"
  "ratio_root_per_buckets (with_memory s h t mb) = ratio_root_per_buckets s"
  "out (with_memory s h t mb) = out s" "group_of (with_memory s h t mb) g = group_of s g"
  "group_indices (with_memory s h t mb) b = group_indices s b"
  "root_slot (with_memory s h t mb) b = root_slot s b"
  by (simp_all add: with_memory_def group_of_def group_indices_def root_slot_def Let_def)

text \<open>The arrays of an entry have their declared sizes.\<close>

definition wf_entry :: "entry \<Rightarrow> bool" where
  "wf_entry e \<longleftrightarrow> length (nac e) = NAC_SIZE \<and> length (mac e) = MAC_SIZE"

text \<open>The messages that are authenticated: one per entry, one per group.\<close>

definition entry_msg :: "entry \<Rightarrow> bytes" where
  "entry_msg e = take (unat (key_size e + val_size e)) (the (key_val e)) @ nac e @ [key_hash e] @
     le32 (key_size e) @ le32 (val_size e)"

definition group_msgs :: "enclave \<Rightarrow> bytes set" where
  "group_msgs s = {m. \<exists>g < length (MACTable s). aggregate_mac s (group_of s g) = Inr m}"

text \<open>
  A forgery: a message of the tampered memory that has the tag of another message of the
  untampered memory, or that hits the unused root of a group without entries.
\<close>

definition forgery :: "env \<Rightarrow> enclave \<Rightarrow> enclave \<Rightarrow> bool" where
  "forgery E s s' \<longleftrightarrow>
     (\<exists>m \<in> entry_msg ` set (heap s) \<union> group_msgs s. \<exists>m' \<in> entry_msg ` set (heap s') \<union> group_msgs s'.
        m \<noteq> m' \<and> tag E gsk m = tag E gsk m') \<or>
     (\<exists>g < length (MACTable s). aggregate_mac s (group_of s g) = Inr [] \<and>
        (\<exists>m'. aggregate_mac s' (group_of s g) = Inr m' \<and> m' \<noteq> [] \<and> tag E gsk m' = MACTable s ! g))"

section \<open>What a silent answer tells\<close>

lemma temp_all_msg:
  "temp_all c kh ks vs n = Inr m \<Longrightarrow>
   m = take (unat (ks + vs)) c @ n @ [kh] @ le32 ks @ le32 vs"
  by (auto simp: temp_all_def fault_simps memread_def split: if_splits)

lemma verify_foundD:
  assumes "verify_found E s a = Inr (e, s1)"
  shows "a < length (heap s)" "e = heap s ! a"
    "s1 = (let (ret, m) = cmac_msg E gsk (entry_msg e);
              s0 = (if m = mac e then s else print ''MAC matching failed'' s)
          in if ret \<noteq> SGX_SUCCESS then print ''MAC verification failed'' s0 else s0)"
proof -
  show a: "a < length (heap s)" and e: "e = heap s ! a"
    using assms by (auto simp: verify_found_def fault_simps deref_def split: if_splits option.splits)
  obtain c where c: "key_val e = Some c"
    using assms a e by (auto simp: verify_found_def deref_def split: option.splits)
  obtain msg where t: "temp_all c (key_hash e) (key_size e) (val_size e) (nac e) = Inr msg"
    using assms a e c
    by (cases "temp_all c (key_hash e) (key_size e) (val_size e) (nac e)")
      (auto simp: verify_found_def deref_def enclave_verification_def)
  have msg: "msg = entry_msg e" using temp_all_msg [OF t] c by (simp add: entry_msg_def)
  obtain ret m where cm: "cmac_msg E gsk (entry_msg e) = (ret, m)" by fastforce
  show "s1 = (let (ret, m) = cmac_msg E gsk (entry_msg e);
              s0 = (if m = mac e then s else print ''MAC matching failed'' s)
          in if ret \<noteq> SGX_SUCCESS then print ''MAC verification failed'' s0 else s0)"
    using assms a e c t msg cm by (simp add: verify_found_def deref_def enclave_verification_def)
qed

lemma verify_found_silent:
  assumes "cmac_ok E" "verify_found E s a = Inr (e, s1)" "out s1 = out s"
  shows "s1 = s" "tag E gsk (entry_msg e) = mac e"
proof -
  have "entry_msg e \<noteq> []" by (simp add: entry_msg_def)
  from cmac_okD [OF assms(1) this, of gsk] verify_foundD(3) [OF assms(2)] assms(3)
  show "s1 = s" "tag E gsk (entry_msg e) = mac e" by (auto split: if_splits)
qed

lemma verify_found_out:
  assumes "verify_found E s a = Inr (e, s1)"
  obtains ms where "s1 = s\<lparr>out := out s @ ms\<rparr>"
proof -
  obtain ret m where cm: "cmac_msg E gsk (entry_msg e) = (ret, m)" by fastforce
  let ?ms = "(if m = mac e then [] else [''MAC matching failed'']) @
    (if ret \<noteq> SGX_SUCCESS then [''MAC verification failed''] else [])"
  have "s1 = s\<lparr>out := out s @ ?ms\<rparr>"
    using verify_foundD(3) [OF assms] cm by (simp add: print_def)
  then show thesis by (rule that)
qed

lemma reply_arg: "arg s' = arg s \<Longrightarrow> reply s' c d = reply s c d"
  by (simp add: reply_def)

lemma reply_Inr:
  assumes "config_ok s" "max_buf_size (arg s) \<le> int (length c)" "reply s c d = Inr c'"
  shows "c' = replied s c d"
proof -
  have "0 \<le> max_buf_size (arg s)" using assms(1) by (simp add: config_ok_def)
  then have "length d \<le> length c"
    using assms(2,3) by (auto simp: reply_def Let_def memcpy_at_def nat_le_iff split: if_splits)
  with reply_eq [OF assms(1,2)] assms(3) show ?thesis by simp
qed

lemma chain_macs_chainD:
  "chain_macs n h p = Inr ms \<Longrightarrow> \<exists>as. chain h p as \<and> ms = map (\<lambda>a. take MAC_SIZE (mac (h ! a))) as"
proof (induction n h p arbitrary: ms rule: chain_macs.induct)
  case (3 n h a)
  then obtain ms' where "a < length h" "chain_macs n h (nxt (h ! a)) = Inr ms'"
    "ms = take MAC_SIZE (mac (h ! a)) # ms'"
    by (auto simp: fault_simps deref_def memread_def split: if_splits)
  with "3.IH" [of "h ! a" "take MAC_SIZE (mac (h ! a))"] "3.prems" obtain as
    where "chain h (nxt (h ! a)) as" "ms' = map (\<lambda>a. take MAC_SIZE (mac (h ! a))) as"
    by (auto simp: fault_simps deref_def memread_def split: if_splits)
  then show ?case
    using \<open>a < length h\<close> \<open>ms = _\<close> by (intro exI [of _ "a # as"]) simp
qed auto

text \<open>The search finds an entry on the chain, and the entry decrypts to the key.\<close>

lemma ht_get_loop_foundD:
  assumes "chain h p as" "ht_get_loop n E opt h key ks kh p pos = Inr (Some (a, plain, n'), pos')"
  shows "a \<in> set as \<and> (\<exists>c. key_val (h ! a) = Some c \<and> key_size (h ! a) = ks \<and>
    decrypt_key_val_and_compare E key c (key_size (h ! a)) (val_size (h ! a)) (nac (h ! a)) = Inr (Some (plain, n')))"
  using assms
proof (induction as arbitrary: p n pos)
  case Nil
  then show ?case by (cases n) auto
next
  case (Cons x as)
  then obtain m where n: "n = Suc m" by (cases n) auto
  have x: "p = Some x" "x < length h" "chain h (nxt (h ! x)) as" using Cons.prems(1) by auto
  let ?r = "case key_val (h ! x) of None \<Rightarrow> Inr None
    | Some cipher \<Rightarrow> if key_size (h ! x) = ks \<and> (opt \<longrightarrow> kh = key_hash (h ! x))
        then decrypt_key_val_and_compare E key cipher (key_size (h ! x)) (val_size (h ! x)) (nac (h ! x))
        else Inr None"
  from Cons.prems(2) n x obtain r where r: "?r = Inr r"
    by (cases ?r) (auto simp: deref_def)
  show ?case
  proof (cases r)
    case None
    with Cons.prems(2) n x r have "ht_get_loop m E opt h key ks kh (nxt (h ! x)) (Suc pos) =
      Inr (Some (a, plain, n'), pos')" by (simp add: deref_def)
    from Cons.IH [OF x(3) this] show ?thesis by auto
  next
    case (Some q)
    with Cons.prems(2) n x r have "q = (plain, n')" "a = x"
      by (auto simp: deref_def fault_simps split: prod.splits)
    with Some r show ?thesis by (auto split: option.splits if_splits)
  qed
qed

lemma decrypt_compareD:
  assumes "decrypt_key_val_and_compare E key c ks vs n = Inr (Some (plain, n'))"
  obtains ret where "aes_ctr_decrypt E gsk (take (unat (ks + vs)) c) n NAC_SIZE = (ret, plain, n')"
    "unat ks \<le> length plain" "unat ks \<le> length key" "take (unat ks) plain = take (unat ks) key"
proof -
  obtain ret x y where "aes_ctr_decrypt E gsk (take (unat (ks + vs)) c) n NAC_SIZE = (ret, x, y)"
    by (metis prod.exhaust)
  with assms that show thesis
    by (auto simp: decrypt_key_val_and_compare_def fault_simps memread_def split: if_splits)
qed

section \<open>Roots\<close>

lemma rep_aggregate:
  assumes "rep0 E s bs kvs" "g < length (MACTable s)"
  shows "aggregate_mac s (group_of s g) = Inr (concat (flat (bmacs s bs) (group_of s g)))"
    "set (group_of s g) \<subseteq> {..<nbuckets s}"
    "all_macs (flat (bmacs s bs) (group_of s g))"
proof -
  have c: "config_ok s" by (rule rep0D(2) [OF assms(1)])
  have "Suc g * ratio s \<le> length (MACTable s) * ratio s" using assms(2) by (metis Suc_leI mult_le_mono1)
  then show sub: "set (group_of s g) \<subseteq> {..<nbuckets s}"
    using config_ratio(3) [OF c] by (auto simp: group_of_def)
  note gb = group_blocks_rep0 [OF assms(1) sub]
  show "aggregate_mac s (group_of s g) = Inr (concat (flat (bmacs s bs) (group_of s g)))"
    by (rule aggregate_mac_blocks [OF gb])
  show "all_macs (flat (bmacs s bs) (group_of s g))" by (rule all_macs_flat [OF gb])
qed

text \<open>A verified root pins the aggregate of the group, unless it was forged.\<close>

lemma verify_success:
  assumes "config_ok s" "b < nbuckets s" "enclave_verify_tree_root E (with_memory s h t mb) b = Inr SGX_SUCCESS"
  obtains agg where "aggregate_mac (with_memory s h t mb) (group_of s (b div ratio s)) = Inr agg"
    "tag E gsk agg = MACTable s ! (b div ratio s)"
proof -
  let ?s = "with_memory s h t mb" and ?g = "b div ratio s"
  note G = group_of_bucket [OF assms(1,2)]
  from assms(3) G(1) obtain agg where agg: "aggregate_mac ?s (group_of s ?g) = Inr agg"
    by (cases "aggregate_mac ?s (group_of s ?g)")
      (auto simp: enclave_verify_tree_root_def get_chain_mac_def)
  obtain ret m where cm: "cmac_msg E gsk agg = (ret, m)" by fastforce
  have "m = MACTable s ! ?g"
    using assms(3) G(1,2) agg cm
    by (auto simp: enclave_verify_tree_root_def get_chain_mac_def fault_simps split: if_splits)
  with agg cm that show thesis by (simp add: tag_def)
qed

lemma verified_aggregate:
  assumes r: "rep E s bs kvs" and b: "b < nbuckets s"
    and v: "enclave_verify_tree_root E (with_memory s h t mb) b = Inr SGX_SUCCESS"
    and nf: "\<not> forgery E s (with_memory s h t mb)"
  shows "aggregate_mac (with_memory s h t mb) (group_of s (b div ratio s)) =
    Inr (concat (flat (bmacs s bs) (group_of s (b div ratio s))))"
proof -
  let ?s = "with_memory s h t mb" and ?g = "b div ratio s"
  let ?m = "flat (bmacs s bs) (group_of s ?g)"
  have r0: "rep0 E s bs kvs" using r by (simp add: rep_def)
  have c: "config_ok s" by (rule rep0D(2) [OF r0])
  note G = group_of_bucket [OF c b]
  from c b v obtain agg where agg: "aggregate_mac ?s (group_of s ?g) = Inr agg"
    "tag E gsk agg = MACTable s ! ?g" by (rule verify_success)
  have "agg = concat ?m"
  proof (cases "?m = []")
    case True
    then have "aggregate_mac s (group_of s ?g) = Inr []" using rep_aggregate(1) [OF r0 G(5)] by simp
    with nf agg G(5) True show ?thesis unfolding forgery_def by auto
  next
    case False
    have "root_ok E s bs ?g" using r G(5) by (simp add: rep_def)
    with False have "MACTable s ! ?g = tag E gsk (concat ?m)"
      unfolding root_ok_def Let_def by blast
    moreover have "agg \<in> group_msgs ?s" "concat ?m \<in> group_msgs s"
      using agg(1) G(5) rep_aggregate(1) [OF r0 G(5)] by (auto simp: group_msgs_def)
    ultimately show ?thesis
      using nf agg(2) unfolding forgery_def by (metis UnCI)
  qed
  with agg(1) show ?thesis by simp
qed

lemma aggregateD:
  "aggregate rd idx = Inr x \<Longrightarrow> \<forall>i \<in> set idx. \<exists>y. rd i = Inr y"
  "aggregate rd idx = Inr x \<Longrightarrow> x = concat (map (\<lambda>i. projr (rd i)) idx)"
  by (induction idx arbitrary: x) (auto simp: fault_simps)

section \<open>GET on tampered memory\<close>

text \<open>
  Without MAC buckets the MACs of the group are read from the chains, so an entry found on
  the tampered chain has the MAC of an entry of the untampered group.
\<close>

lemma verified_mac:
  assumes "\<not> mac_opt (arg s)" "rep0 E s bs kvs" "g < length (MACTable s)" "b \<in> set (group_of s g)"
    and agg: "aggregate_mac (with_memory s h t mb) (group_of s g) =
      Inr (concat (flat (bmacs s bs) (group_of s g)))"
    and wf: "\<forall>e \<in> set h. wf_entry e" and a: "chain h (t ! b) as" "a \<in> set as" "b < length t"
  obtains i a0 where "i < nbuckets s" "a0 \<in> set (bs i)" "mac (heap s ! a0) = mac (h ! a)"
proof -
  let ?s = "with_memory s h t mb" and ?idx = "group_of s g"
  have ag: "aggregate (\<lambda>i. bindE (bucket_macs ?s i) (\<lambda>ms. Inr (concat ms))) ?idx =
      Inr (concat (flat (bmacs s bs) ?idx))"
    using agg assms(1) by (simp add: aggregate_mac_def)
  define f where "f i = projr (bucket_macs ?s i)" for i
  have bm: "bucket_macs ?s i = Inr (f i)" if "i \<in> set ?idx" for i
    using aggregateD(1) [OF ag] that by (auto simp: f_def fault_simps)
  have am: "all_macs (f i)" if "i \<in> set ?idx" for i
  proof -
    from bm [OF that] obtain as' where "chain h (t ! i) as'"
      "f i = map (\<lambda>a. take MAC_SIZE (mac (h ! a))) as'"
      by (auto simp: bucket_macs_def split: if_splits dest!: chain_macs_chainD)
    with chain_bounds [of nxt h "t ! i" as'] wf show ?thesis
      by (auto simp: all_macs_def wf_entry_def)
  qed
  have "concat (flat (bmacs s bs) ?idx) = concat (map (\<lambda>i. concat (f i)) ?idx)"
    using aggregateD(2) [OF ag] bm by (simp cong: map_cong)
  also have "\<dots> = concat (flat f ?idx)" by (rule concat_map_concat)
  finally have eq: "concat (flat (bmacs s bs) ?idx) = concat (flat f ?idx)" .
  have "flat (bmacs s bs) ?idx = flat f ?idx"
    by (rule concat_blocks_inj [OF _ _ _ eq, of MAC_SIZE])
      (use rep_aggregate(3) [OF assms(2,3)] am in \<open>auto simp: all_macs_def MAC_SIZE_def\<close>)
  moreover have "mac (h ! a) \<in> set (f b)"
  proof -
    have "bucket_macs ?s b = Inr (map (\<lambda>a. mac (h ! a)) as)"
      using a chain_macs_chain [OF a(1), of "Suc (length h)"] chain_length [OF a(1)]
        chain_bounds [OF a(1)] wf by (auto simp: bucket_macs_def wf_entry_def)
    with bm [OF assms(4)] have "f b = map (\<lambda>a. mac (h ! a)) as" by simp
    with a(2) show ?thesis by simp
  qed
  ultimately have "mac (h ! a) \<in> set (flat (bmacs s bs) ?idx)" using assms(4) by auto
  then obtain i where i: "i \<in> set ?idx" "mac (h ! a) \<in> set (bmacs s bs i)" by auto
  then show thesis
    using that rep_aggregate(2) [OF assms(2,3)] by (auto simp: bmacs_def Let_def split: if_splits)
qed

text \<open>An entry with the MAC of an untampered entry is that entry, up to its place.\<close>

lemma entry_msg_holds:
  assumes "entry_holds E e k v"
  obtains c where "key_val e = Some c" "mac e = tag E gsk (entry_msg e)" "length c = length k + length v + 2"
    "entry_msg e = c @ nac e @ [key_hash e] @ le32 (key_size e) @ le32 (val_size e)"
proof -
  from assms obtain c where c: "key_val e = Some c"
    "sealed E (packed k v) (key_hash e) (key_size e) (val_size e) (nac e) c (mac e)"
    "key_size e = len32 k" "val_size e = len32 v" by (auto simp: entry_holds_def)
  have "unat (key_size e + val_size e) = length k + length v + 2"
    using kv_fitsD(8) [OF entry_holds_fits [OF assms]] c by simp
  moreover have "length c = length k + length v + 2" using c(2) by (simp add: sealed_def)
  ultimately show thesis using that c by (simp add: entry_msg_def sealed_def)
qed

lemma same_msg:
  assumes "entry_holds E e k v" "key_val e' = Some c'" "entry_msg e' = entry_msg e"
    "length (nac e') = NAC_SIZE"
  shows "key_size e' = len32 k" "val_size e' = len32 v"
    "\<exists>n'. aes_ctr_decrypt E gsk (take (unat (key_size e' + val_size e')) c') (nac e') NAC_SIZE =
      (SGX_SUCCESS, packed k v, n')"
proof -
  from assms(1) obtain c where c: "key_val e = Some c" "length c = length k + length v + 2"
    "entry_msg e = c @ nac e @ [key_hash e] @ le32 (key_size e) @ le32 (val_size e)"
    by (rule entry_msg_holds)
  have h: "key_size e = len32 k" "val_size e = len32 v" "length (nac e) = NAC_SIZE"
    "\<exists>n'. aes_ctr_decrypt E gsk c (nac e) NAC_SIZE = (SGX_SUCCESS, packed k v, n')"
    using assms(1) c(1) by (auto simp: entry_holds_def sealed_def)
  define d where "d = take (unat (key_size e' + val_size e')) c'"
  have eq: "d @ nac e' @ [key_hash e'] @ le32 (key_size e') @ le32 (val_size e') =
      c @ nac e @ [key_hash e] @ le32 (key_size e) @ le32 (val_size e)"
    using assms(2,3) c(3) by (simp add: entry_msg_def d_def)
  have "key_size e' = key_size e" "val_size e' = val_size e" "nac e' = nac e" "d = c"
    using authenticated_fields [OF eq assms(4) h(3)] by blast+
  with h show "key_size e' = len32 k" "val_size e' = len32 v"
    "\<exists>n'. aes_ctr_decrypt E gsk (take (unat (key_size e' + val_size e')) c') (nac e') NAC_SIZE =
      (SGX_SUCCESS, packed k v, n')" by (simp_all add: d_def)
qed

text \<open>The parts of a GET that found an entry and printed nothing.\<close>

lemma silent_get:
  assumes "cmac_ok E" "config_ok s" "length cmd = 4" "plain_word k" "length t = nbuckets s"
    "enclave_get E (with_memory s h t mb) (key_request cmd k rest) = Inr (c', s'')" "out s'' = out s"
  obtains a plain n' pos v where
    "ht_get_loop (Suc (length h)) E (key_opt (arg s)) h (k @ [0]) (len32 k)
       (if key_opt (arg s) then key_hash_func (k @ [0]) else 0) (t ! bin_of s k) 0 =
     Inr (Some (a, plain, n'), pos)"
    "a < length h" "tag E gsk (entry_msg (h ! a)) = mac (h ! a)"
    "enclave_verify_tree_root E (with_memory s h t mb) (bin_of s k) = Inr SGX_SUCCESS"
    "memread (unat (val_size (h ! a))) (drop (unat (key_size (h ! a))) plain) = Inr v"
    "reply s (key_request cmd k rest) v = Inr c'"
proof -
  let ?s = "with_memory s h t mb" and ?c = "key_request cmd k rest"
  have k0: "0 \<notin> set k" using assms(4) by (simp add: plain_word_def)
  have "config_ok ?s \<or> mac_opt (arg s)" using assms(2,5) by (auto simp: config_ok_def)
  have bi: "bucket_index ?s (k @ [0]) = Inr (bin_of s k)"
    using bucket_index_eq [OF assms(2) k0] assms(2,5)
    by (simp add: bucket_index_def Let_def config_ok_def split: if_splits)
  note u = assms(6) [unfolded enclave_get_def parse_key_request [OF assms(3,4)] bindE_Inr prod.case
      len32_of_nat [of k]]
  from u obtain r pos where g: "ht_get_o E ?s (k @ [0]) (len32 k) = Inr (r, pos)"
    by (cases "ht_get_o E ?s (k @ [0]) (len32 k)") auto
  with u assms(7) obtain a plain n' where r: "r = Some (a, plain, n')"
    by (cases r) auto
  note u = u [unfolded g r bindE_Inr prod.case option.case bi]
  from u obtain e s1 where vf: "verify_found E ?s a = Inr (e, s1)"
    by (cases "verify_found E ?s a") auto
  note u = u [unfolded vf bindE_Inr prod.case]
  from u obtain ret where vt: "enclave_verify_tree_root E s1 (bin_of s k) = Inr ret"
    by (cases "enclave_verify_tree_root E s1 (bin_of s k)") auto
  define s2 where "s2 = (if ret \<noteq> SGX_SUCCESS then print ''Tree verification failed'' s1 else s1)"
  note u = u [unfolded vt bindE_Inr Let_def, folded s2_def]
  from u obtain v where v: "memread (unat (val_size e)) (drop (unat (key_size e)) plain) = Inr v"
    "reply s2 ?c v = Inr c'" "s'' = s2"
    by (auto simp: fault_simps)
  obtain ms where ms: "s1 = ?s\<lparr>out := out ?s @ ms\<rparr>" using vf by (rule verify_found_out)
  have o1: "out s1 = out ?s" and ret: "ret = SGX_SUCCESS"
    using assms(7) v(3) ms by (auto simp: s2_def split: if_splits)
  note sil = verify_foundD(1,2) [OF vf] verify_found_silent [OF assms(1) vf o1]
  have arg2: "arg s2 = arg s" using sil(3) by (simp add: s2_def)
  show thesis
  proof (rule that)
    show "ht_get_loop (Suc (length h)) E (key_opt (arg s)) h (k @ [0]) (len32 k)
       (if key_opt (arg s) then key_hash_func (k @ [0]) else 0) (t ! bin_of s k) 0 =
      Inr (Some (a, plain, n'), pos)"
      using g bi r by (simp add: ht_get_o_def Let_def)
    show "a < length h" "tag E gsk (entry_msg (h ! a)) = mac (h ! a)" using sil by simp_all
    show "enclave_verify_tree_root E ?s (bin_of s k) = Inr SGX_SUCCESS" using vt ret sil(3) by simp
    show "memread (unat (val_size (h ! a))) (drop (unat (key_size (h ! a))) plain) = Inr v"
      using v(1) sil(2) by simp
    show "reply s ?c v = Inr c'" using v(2) reply_arg [OF arg2] by simp
  qed
qed

text \<open>An entry on a verified chain whose tag matches is an entry of the untampered store.\<close>

lemma known_entry:
  assumes "rep0 E s bs kvs" "\<not> forgery E s (with_memory s h t mb)" "a < length h"
    "tag E gsk (entry_msg (h ! a)) = mac (h ! a)" "i < nbuckets s" "a0 \<in> set (bs i)"
    "mac (heap s ! a0) = mac (h ! a)"
  obtains k0 v0 where "(k0, v0) \<in> set (kvs i)" "entry_holds E (heap s ! a0) k0 v0"
    "entry_msg (h ! a) = entry_msg (heap s ! a0)"
proof -
  note B = bucket_repD [OF rep0D(5) [OF assms(1,5)]]
  from assms(6) obtain p where p: "p < length (kvs i)" "bs i ! p = a0" using B(5) by (auto simp: in_set_conv_nth)
  obtain k0 v0 where kv: "kvs i ! p = (k0, v0)" by fastforce
  have h0: "entry_holds E (heap s ! a0) k0 v0" using holds_nth [OF B(2) p(1)] p(2) kv by simp
  have "entry_msg (heap s ! a0) \<in> entry_msg ` set (heap s)" "entry_msg (h ! a) \<in> entry_msg ` set h"
    using chain_bounds [OF B(1)] assms(3,6) by auto
  moreover have "tag E gsk (entry_msg (heap s ! a0)) = tag E gsk (entry_msg (h ! a))"
    using entry_msg_holds [OF h0] assms(4,7) by metis
  ultimately have "entry_msg (h ! a) = entry_msg (heap s ! a0)"
    using assms(2) unfolding forgery_def with_memory_simps by (metis UnI1)
  moreover have "(k0, v0) \<in> set (kvs i)" using kv p(1) by (metis nth_mem)
  ultimately show thesis using that h0 by blast
qed

text \<open>What is decrypted from it is its key and its value.\<close>

lemma decrypted_known:
  assumes "entry_holds E e0 k0 v0" "entry_msg e = entry_msg e0" "length (nac e) = NAC_SIZE"
    "key_val e = Some c" "key_size e = len32 k" "length k + 1 < 2 ^ 32"
    "decrypt_key_val_and_compare E (k @ [0]) c (key_size e) (val_size e) (nac e) = Inr (Some (plain, n'))"
  shows "k0 = k" "memread (unat (val_size e)) (drop (unat (key_size e)) plain) = Inr (v0 @ [0])"
proof -
  note sm = same_msg [OF assms(1,4,2,3)]
  note fit = kv_fitsD [OF entry_holds_fits [OF assms(1)]]
  from assms(7) obtain ret where d:
    "aes_ctr_decrypt E gsk (take (unat (key_size e + val_size e)) c) (nac e) NAC_SIZE = (ret, plain, n')"
    "take (unat (key_size e)) plain = take (unat (key_size e)) (k @ [0])"
    by (rule decrypt_compareD)
  from d(1) sm(3) have plain: "plain = packed k0 v0" by auto
  have "len32 k = len32 k0" using sm(1) assms(5) by simp
  then have len: "length k = length k0" by (simp only: len32_eq [OF assms(6) fit(1)])
  have "unat (key_size e) = Suc (length k0)" unfolding sm(1) fit(5) by simp
  with d(2) plain have "k0 @ [0] = take (Suc (length k0)) (k @ [0])" by (simp only: take_packed)
  with len show "k0 = k" by (metis append1_eq_conv length_append_singleton order_refl take_all)
  show "memread (unat (val_size e)) (drop (unat (key_size e)) plain) = Inr (v0 @ [0])"
    using fit(5,6) plain sm(1,2) by (simp add: memread_def)
qed

lemma get_integrity:
  assumes r: "rep E s bs kvs" and mo: "\<not> mac_opt (arg s)" and wf: "\<forall>e \<in> set h. wf_entry e"
    and t: "length t = nbuckets s" and q: "request_ok s cmd k (key_request cmd k rest)"
    and g: "enclave_get E (with_memory s h t mb) (key_request cmd k rest) = Inr (c', s'')"
    and silent: "out s'' = out s" and nf: "\<not> forgery E s (with_memory s h t mb)"
  shows "\<exists>v. store_map E s k = Some v \<and> c' = replied s (key_request cmd k rest) (v @ [0])"
proof -
  let ?s = "with_memory s h t mb" and ?b = "bin_of s k" and ?c = "key_request cmd k rest"
  have r0: "rep0 E s bs kvs" using r by (simp add: rep_def)
  note D = rep0D [OF r0] and R = request_okD [OF q]
  have b: "?b < nbuckets s" by (rule bin_of_less [OF D(2)])
  note G = group_of_bucket [OF D(2) b]
  from D(3,2) R(1,2) t g silent obtain a plain n' pos v where f:
    "ht_get_loop (Suc (length h)) E (key_opt (arg s)) h (k @ [0]) (len32 k)
       (if key_opt (arg s) then key_hash_func (k @ [0]) else 0) (t ! ?b) 0 = Inr (Some (a, plain, n'), pos)"
    "a < length h" "tag E gsk (entry_msg (h ! a)) = mac (h ! a)"
    "enclave_verify_tree_root E ?s ?b = Inr SGX_SUCCESS"
    "memread (unat (val_size (h ! a))) (drop (unat (key_size (h ! a))) plain) = Inr v" "reply s ?c v = Inr c'"
    by (rule silent_get)
  note agg = verified_aggregate [OF r b f(4) nf]
  have "aggregate (\<lambda>i. bindE (bucket_macs ?s i) (\<lambda>ms. Inr (concat ms))) (group_of s (?b div ratio s)) =
      Inr (concat (flat (bmacs s bs) (group_of s (?b div ratio s))))"
    using agg mo by (simp add: aggregate_mac_def)
  from aggregateD(1) [OF this] G(3) obtain ms where "bucket_macs ?s ?b = Inr ms"
    by (auto simp: bindE_eq_Inr)
  then obtain as where as: "chain h (t ! ?b) as"
    by (auto simp: bucket_macs_def split: if_splits dest: chain_macs_chainD)
  from ht_get_loop_foundD [OF as f(1)] obtain c where c: "a \<in> set as" "key_val (h ! a) = Some c"
    "key_size (h ! a) = len32 k"
    "decrypt_key_val_and_compare E (k @ [0]) c (key_size (h ! a)) (val_size (h ! a)) (nac (h ! a)) =
      Inr (Some (plain, n'))" by blast
  have bt: "?b < length t" using t b by simp
  from mo r0 G(5,3) agg wf as c(1) bt obtain i a0 where i: "i < nbuckets s" "a0 \<in> set (bs i)"
    "mac (heap s ! a0) = mac (h ! a)" by (rule verified_mac)
  from r0 nf f(2,3) i obtain k0 v0 where e: "(k0, v0) \<in> set (kvs i)" "entry_holds E (heap s ! a0) k0 v0"
    "entry_msg (h ! a) = entry_msg (heap s ! a0)" by (rule known_entry)
  have n16: "length (nac (h ! a)) = NAC_SIZE" using wf f(2) by (simp add: wf_entry_def)
  note dk = decrypted_known [OF e(2,3) n16 c(2,3) R(4) c(4)]
  note B = bucket_repD [OF D(5) [OF i(1)]]
  have "bin_of s k = i" using B(4) [of k] e(1) dk(1) by force
  then have "store_map E s k = Some v0"
    using store_map_rep [OF r0, of k] B(3) dk(1) e(1) by simp
  moreover have v: "v = v0 @ [0]" using dk(2) f(5) by simp
  moreover have "c' = replied s ?c (v0 @ [0])"
    using reply_Inr [OF D(2) R(5) f(6)] v by simp
  ultimately show ?thesis by blast
qed

end
