(* ===== verification/Sample_World.thy ===== *)
theory Sample_World
  imports Server_Correct Integrity
begin

text \<open>
  A concrete outside world and small concrete stores, on which the definitions are run and
  the hypotheses of the theorems are met: a counter mode that adds a constant to every byte
  and advances the counter block, and a checksum in place of the CMAC.
\<close>

definition sample_env :: env where
  "sample_env =
     \<lparr>ndebug = True,
      aes_ctr_encrypt = (\<lambda>key d c n. (SGX_SUCCESS, map (\<lambda>x. x + 1) d, rotate1 c)),
      aes_ctr_decrypt = (\<lambda>key d c n. (SGX_SUCCESS, map (\<lambda>x. x - 1) d, rotate1 c)),
      cmac_msg = (\<lambda>key d. (SGX_SUCCESS, replicate 14 0 @ [of_nat (length d), sum_list d])),
      malloc_ok = (\<lambda>n m. True), outside = (\<lambda>a. True)\<rparr>"

lemma sample_env_ok: "env_ok sample_env" "ndebug sample_env"
  by (simp_all add: env_ok_def aes_ok_def cmac_ok_def memory_ok_def sample_env_def size_defs comp_def)

definition sample_arg :: Arg where
  "sample_arg =
     \<lparr>port_num = 1234, num_threads = 2, max_buf_size = 16, bucket_size = 4, tree_root_size = 2,
      key_opt = False, mac_opt = False\<rparr>"

definition sample_junk :: "nat \<Rightarrow> bytes" where
  "sample_junk i = replicate 480 0"

definition sample_nonce :: bytes where
  "sample_nonce = replicate 16 7"

lemma sample_usable: "usable sample_arg" "server_usable sample_arg"
  "usable (sample_arg\<lparr>mac_opt := True\<rparr>)"
  by (simp_all add: usable_def server_usable_def sample_arg_def)

lemma length_sample_junk: "length (sample_junk i) = MAC_SIZE * MAC_SLOTS"
  by (simp add: sample_junk_def MAC_SIZE_def MAC_SLOTS_def)

lemma length_sample_nonce: "length sample_nonce = NAC_SIZE"
  by (simp add: sample_nonce_def NAC_SIZE_def)

definition sample_store :: enclave where
  "sample_store = fresh sample_junk sample_arg"

lemma sample_store_rep: "rep sample_env sample_store (\<lambda>_. []) (\<lambda>_. [])"
  unfolding sample_store_def by (rule fresh_rep [OF sample_env_ok(1) sample_usable(1) length_sample_junk])

lemma sample_store_inv: "store_inv sample_env sample_store" "store_map sample_env sample_store = Map.empty"
  using sample_store_rep fresh_map [OF sample_env_ok(1) sample_usable(1) length_sample_junk]
  by (auto simp: store_inv_def sample_store_def)

section \<open>Requests\<close>

definition sample_key :: bytes where
  "sample_key = lit ''ab''"

definition sample_set :: "bytes \<Rightarrow> bytes" where
  "sample_set v = kv_request (lit ''SET '') sample_key v (replicate (8 - length v) 0)"

definition sample_get :: bytes where
  "sample_get = key_request (lit ''GET '') sample_key (replicate 9 0)"

lemma sample_key_word: "plain_word sample_key" "length sample_key = 2" "0 \<notin> set sample_key"
  by (simp_all add: sample_key_def plain_word_def lit_def blank_def)

lemma length_lit [simp]: "length (lit s) = length s"
  by (simp add: lit_def)

lemma length_sample_set: "length v \<le> 8 \<Longrightarrow> length (sample_set v) = 16"
  by (simp add: sample_set_def kv_request_def sample_key_word)

lemma length_sample_get: "length sample_get = 16"
  by (simp add: sample_get_def key_request_def sample_key_word)

lemma sample_request_ok:
  "arg s = sample_arg \<or> arg s = sample_arg\<lparr>mac_opt := True\<rparr> \<Longrightarrow> length cmd = 4 \<Longrightarrow> 16 \<le> length c \<Longrightarrow>
   request_ok s cmd sample_key c"
  by (auto simp: request_ok_def sample_key_word sample_arg_def)

lemma sample_fits: "0 \<notin> set v \<Longrightarrow> length v \<le> 8 \<Longrightarrow> kv_fits sample_key v"
  by (simp add: kv_fits_def sample_key_word)

section \<open>Stores with an entry\<close>

text \<open>The state after a SET; a fault leaves the state.\<close>

definition after_set :: "enclave \<Rightarrow> bytes \<Rightarrow> enclave" where
  "after_set s v =
     (case enclave_set sample_env sample_nonce s (sample_set v) of Inl f \<Rightarrow> s | Inr (c, s') \<Rightarrow> s')"

lemma after_set_written:
  assumes "store_inv sample_env s" "arg s = sample_arg \<or> arg s = sample_arg\<lparr>mac_opt := True\<rparr>"
    "0 \<notin> set v" "length v \<le> 8" "length (bucket_pairs sample_env s (bin_of s sample_key)) < MAC_SLOTS"
  shows "written sample_env s (after_set s v) sample_key v"
proof -
  from assms(1) obtain bs kvs where r: "rep sample_env s bs kvs" by (auto simp: store_inv_def)
  then have r0: "rep0 sample_env s bs kvs" by (simp add: rep_def)
  have "bucket_pairs sample_env s (bin_of s sample_key) = kvs (bin_of s sample_key)"
    using rep0D(5) [OF r0 bin_of_less [OF rep0D(2) [OF r0]]] by (rule bucket_pairs_rep)
  with assms(5) have room: "length (kvs (bin_of s sample_key)) < MAC_SLOTS" by simp
  have q: "request_ok s (lit ''SET '') sample_key
      (kv_request (lit ''SET '') sample_key v (replicate (8 - length v) 0))"
    using assms(2,4) length_sample_set [OF assms(4)] by (intro sample_request_ok) (simp_all add: sample_set_def)
  have "\<exists>s'. enclave_set sample_env sample_nonce s (sample_set v) =
      Inr (replied s (cut_request (lit ''SET '') sample_key v (replicate (8 - length v) 0)) (sample_key @ [0]), s') \<and>
      written sample_env s s' sample_key v"
    using enclave_set_rep_update [OF r _ q sample_fits [OF assms(3,4)], of _ sample_nonce]
      enclave_set_rep_insert [OF r _ q sample_fits [OF assms(3,4)] length_sample_nonce] room sample_env_ok(2)
    unfolding sample_set_def by (cases "store_map sample_env s sample_key") auto
  then show ?thesis by (auto simp: after_set_def)
qed

definition sample_filled :: enclave where
  "sample_filled = after_set sample_store (lit ''xy'')"

lemma sample_filled_written: "written sample_env sample_store sample_filled sample_key (lit ''xy'')"
proof -
  have "length (bucket_pairs sample_env sample_store (bin_of sample_store sample_key)) < MAC_SLOTS" by code_simp
  moreover have "arg sample_store = sample_arg" by (simp add: sample_store_def fresh_def)
  moreover have "0 \<notin> set (lit ''xy'')" by code_simp
  ultimately show ?thesis
    unfolding sample_filled_def by (intro after_set_written sample_store_inv) simp_all
qed

lemma sample_filled_inv:
  "store_inv sample_env sample_filled" "store_map sample_env sample_filled sample_key = Some (lit ''xy'')"
  "arg sample_filled = sample_arg" "out sample_filled = []"
proof -
  have "arg sample_store = sample_arg" "out sample_store = []" by (simp_all add: sample_store_def fresh_def)
  with sample_filled_written show "store_inv sample_env sample_filled"
    "store_map sample_env sample_filled sample_key = Some (lit ''xy'')"
    "arg sample_filled = sample_arg" "out sample_filled = []"
    by (simp_all add: written_def)
qed

lemma sample_get_ok: "request_ok sample_filled (lit ''GET '') sample_key sample_get"
  using sample_filled_inv(3) length_sample_get by (intro sample_request_ok) simp_all

section \<open>A run of the server\<close>

definition sample_server :: server where
  "sample_server = init_server sample_store"

definition sample_started :: server where
  "sample_started = sample_server\<lparr>num := 2, running := [True, True]\<rparr>"

definition sample_params :: EcallParams where
  "sample_params = \<lparr>ebuf = sample_set (lit ''xy''), esock = 7, enum_clients = 1\<rparr>"

definition sample_queued :: server where
  "sample_queued = push_job 1 \<lparr>client_sock = 7, buf = sample_set (lit ''xy'')\<rparr> sample_started"

definition sample_served :: server where
  "sample_served =
     (case worker_round sample_env sample_nonce 1 sample_queued of Inl f \<Rightarrow> sample_queued | Inr S \<Rightarrow> S)"

lemma sample_server_serving: "serving sample_env sample_server"
  unfolding sample_server_def sample_store_def
  by (rule init_serving [OF sample_env_ok sample_usable(2) length_sample_junk])

lemma sample_encodes: "encodes 16 (sample_set (lit ''xy'')) (Set sample_key (lit ''xy''))"
  using length_sample_set [of "lit ''xy''"] sample_key_word
  by (auto simp: sample_set_def) (simp add: lit_def)

lemma sample_start_log: "server_log sample_env sample_server [] sample_started"
proof -
  have a: "num_threads (arg (enc sample_server)) = 2" "num sample_server = 0" "running sample_server = []"
    by (simp_all add: sample_server_def init_server_def sample_store_def fresh_def sample_arg_def)
  let ?S1 = "sample_server\<lparr>num := 1, running := [True]\<rparr>"
  have "start_worker sample_server = Inr (0, ?S1)" "start_worker ?S1 = Inr (1, sample_started)"
    using a by (simp_all add: start_worker_def sample_started_def)
  then have "server_step sample_env sample_server Start ?S1" "server_step sample_env ?S1 Start sample_started"
    by (auto intro: step_start)
  then show ?thesis by (blast intro: log_nil log_start)
qed

lemma sample_started_facts:
  "serving sample_env sample_started" "bufsize sample_started = 16" "length (queue sample_started) = 2"
  "queue sample_started = [[], []]"
proof -
  show "serving sample_env sample_started"
    using sample_server_serving
    by (auto simp: sample_started_def serving_def bufsize_def threads_ok_def nth_Cons split: nat.splits)
  show "bufsize sample_started = 16" "length (queue sample_started) = 2" "queue sample_started = [[], []]"
    by (simp_all add: sample_started_def sample_server_def init_server_def sample_store_def fresh_def
        sample_arg_def bufsize_def eval_nat_numeral)
qed

lemma sample_queue_log: "server_log sample_env sample_server [] sample_queued"
proof -
  have "enclave_message_pass sample_params sample_started =
      Inr (sample_params\<lparr>ebuf := cut_request (lit ''SET '') sample_key (lit ''xy'') (replicate 6 0)\<rparr>, sample_queued)"
    by code_simp
  then have "server_step sample_env sample_started (Pass sample_params) sample_queued"
    by (rule step_pass)
  moreover have "encodes (bufsize sample_started) (ebuf sample_params) (Set sample_key (lit ''xy''))"
    using sample_encodes sample_started_facts(2) by (simp add: sample_params_def)
  ultimately show ?thesis using sample_start_log by (blast intro: log_pass)
qed

lemma sample_served_log:
  "server_log sample_env sample_server
     [(\<lparr>client_sock = 7, buf = sample_set (lit ''xy'')\<rparr>, Set sample_key (lit ''xy''))] sample_served"
proof -
  have q: "queue sample_queued = [[], [\<lparr>client_sock = 7, buf = sample_set (lit ''xy'')\<rparr>]]"
    "running sample_queued = [True, True]" "bufsize sample_queued = 16"
    using sample_started_facts by (simp_all add: sample_queued_def push_job_def bufsize_def)
      (simp add: sample_started_def)
  have "\<not> isl (worker_round sample_env sample_nonce 1 sample_queued)" by code_simp
  then have "worker_round sample_env sample_nonce 1 sample_queued = Inr sample_served"
    by (auto simp: sample_served_def split: sum.splits)
  then have "server_step sample_env sample_queued (Round 1 sample_nonce) sample_served"
    using q length_sample_nonce by (intro step_round) simp_all
  from log_round [OF sample_queue_log _ this, of "Set sample_key (lit ''xy'')"] sample_encodes q show ?thesis
    by simp
qed

end
