(* ===== verification/Chain_Walk.thy ===== *)
theory Chain_Walk
  imports Prelude
begin

text \<open>
  Loops that follow the \<open>next\<close> pointers of a chain in memory an adversary may have changed. The
  locale states what such a loop is: it stops at some pointers, goes on at others, which all
  point into a memory of \<open>N\<close> entries, and has run out of fuel at fuel zero. One more fuel than
  there are entries is then exactly enough: with it the loop returns what it returns with any
  larger fuel, and it runs out of fuel only when it never ends.
\<close>

section \<open>Iterating a successor\<close>

lemma iterate_repeats:
  fixes f :: "ptr \<Rightarrow> ptr"
  assumes "\<And>q. live q \<Longrightarrow> \<exists>a < N. q = Some a" "\<And>i. i \<le> N \<Longrightarrow> live ((f ^^ i) p)"
  obtains i j where "i < j" "j \<le> N" "(f ^^ i) p = (f ^^ j) p"
proof -
  have "(\<lambda>i. (f ^^ i) p) ` {..N} \<subseteq> Some ` {..<N}" using assms by fastforce
  then have "card ((\<lambda>i. (f ^^ i) p) ` {..N}) \<le> card (Some ` {..<N})" by (intro card_mono) auto
  also have "\<dots> = N" by (simp add: card_image)
  finally have "\<not> inj_on (\<lambda>i. (f ^^ i) p) {..N}" using card_image by fastforce
  then obtain i j where "i \<le> N" "j \<le> N" "i \<noteq> j" "(f ^^ i) p = (f ^^ j) p"
    by (auto simp: inj_on_def)
  then show thesis using that [of i j] that [of j i] by (cases "i < j") auto
qed

lemma iterate_forever:
  fixes f :: "ptr \<Rightarrow> ptr"
  assumes "\<And>q. live q \<Longrightarrow> \<exists>a < N. q = Some a" "\<And>i. i \<le> N \<Longrightarrow> live ((f ^^ i) p)"
  shows "live ((f ^^ n) p)"
proof -
  obtain i j where ij: "i < j" "j \<le> N" "(f ^^ i) p = (f ^^ j) p"
    using iterate_repeats [of live N f p] assms by blast
  show ?thesis
  proof (induction n rule: less_induct)
    case (less n)
    show ?case
    proof (cases "n < j")
      case True
      then show ?thesis using assms(2) ij(2) by simp
    next
      case False
      then have "(f ^^ n) p = (f ^^ (n - j)) ((f ^^ j) p)"
        by (metis comp_apply funpow_add le_add_diff_inverse2 not_less)
      also have "\<dots> = (f ^^ (n - j + i)) p" by (simp add: ij(3) [symmetric] funpow_add)
      finally show ?thesis using less [of "n - j + i"] ij(1) False by simp
    qed
  qed
qed

section \<open>The loops\<close>

locale chain_walk =
  fixes N :: nat and live :: "ptr \<Rightarrow> bool" and nx :: "ptr \<Rightarrow> ptr"
    and upd :: "ptr \<Rightarrow> 'a \<Rightarrow> 'a" and post :: "ptr \<Rightarrow> 'b res \<Rightarrow> 'b res"
    and run :: "nat \<Rightarrow> ptr \<Rightarrow> 'a \<Rightarrow> 'b res"
  assumes live_bound: "live p \<Longrightarrow> \<exists>a < N. p = Some a"
    and no_fuel: "run 0 p x = Inl Diverges"
    and stops: "\<not> live p \<Longrightarrow> run (Suc n) p x = run (Suc 0) p x"
    and stops_defined: "\<not> live p \<Longrightarrow> run (Suc 0) p x \<noteq> Inl Diverges"
    and goes_on: "live p \<Longrightarrow> run (Suc n) p x = post p (run n (nx p) (upd p x))"
    and post_diverges: "live p \<Longrightarrow> post p r = Inl Diverges \<longleftrightarrow> r = Inl Diverges"
begin

lemma stops_at:
  "\<not> live ((nx ^^ i) p) \<Longrightarrow> run (Suc i + n) p x = run (Suc i) p x"
proof (induction i arbitrary: p x)
  case 0
  then show ?case using stops [of p n x] by simp
next
  case (Suc i)
  show ?case
  proof (cases "live p")
    case True
    have "run (Suc i + n) (nx p) (upd p x) = run (Suc i) (nx p) (upd p x)"
      using Suc.prems by (intro Suc.IH) (simp add: funpow_swap1)
    with goes_on [OF True] show ?thesis by simp
  next
    case False
    then show ?thesis using stops [OF False, of "Suc i + n" x] stops [OF False, of "Suc i" x] by simp
  qed
qed

lemma stops_defined_at: "\<not> live ((nx ^^ i) p) \<Longrightarrow> run (Suc i) p x \<noteq> Inl Diverges"
proof (induction i arbitrary: p x)
  case 0
  then show ?case using stops_defined by simp
next
  case (Suc i)
  show ?case
  proof (cases "live p")
    case True
    have "run (Suc i) (nx p) (upd p x) \<noteq> Inl Diverges"
      using Suc.prems by (intro Suc.IH) (simp add: funpow_swap1)
    with goes_on [OF True] post_diverges [OF True] show ?thesis by simp
  next
    case False
    then show ?thesis using stops [OF False, of "Suc i" x] stops_defined by simp
  qed
qed

lemma diverges: "(\<And>i. live ((nx ^^ i) p)) \<Longrightarrow> run n p x = Inl Diverges"
proof (induction n arbitrary: p x)
  case 0
  show ?case by (rule no_fuel)
next
  case (Suc n)
  have l: "live p" using Suc.prems [of 0] by simp
  have "run n (nx p) (upd p x) = Inl Diverges"
    using Suc.prems [of "Suc _"] by (intro Suc.IH) (simp add: funpow_swap1)
  with goes_on [OF l] post_diverges [OF l] show ?case by simp
qed

lemma fuel_enough: "run (Suc N + n) p x = run (Suc N) p x"
proof (cases "\<exists>i \<le> N. \<not> live ((nx ^^ i) p)")
  case True
  then obtain i where i: "i \<le> N" "\<not> live ((nx ^^ i) p)" by blast
  from stops_at [OF i(2), of "N - i + n"] stops_at [OF i(2), of "N - i"] i(1) show ?thesis by simp
next
  case False
  then have "live ((nx ^^ i) p)" for i
    using iterate_forever [of live N nx p i] live_bound by blast
  then show ?thesis using diverges by metis
qed

lemma diverges_iff: "run (Suc N) p x = Inl Diverges \<longleftrightarrow> (\<forall>n. run n p x = Inl Diverges)"
proof
  assume d: "run (Suc N) p x = Inl Diverges"
  have "live ((nx ^^ i) p)" if "i \<le> N" for i
    using stops_defined_at [of i p x] stops_at [of i p "N - i" x] d that by auto
  then have "live ((nx ^^ i) p)" for i
    using iterate_forever [of live N nx p i] live_bound by blast
  then show "\<forall>n. run n p x = Inl Diverges" using diverges by blast
qed simp

end

end
