(* ===== verification/Search_Fuel.thy ===== *)
theory Search_Fuel
  imports Chain_Walk Mac_Tree
begin

text \<open>
  The search of \<open>ht_get_o\<close> and the loop that gathers the MACs of a chain are walks along a
  chain, so the fuel of the model is exact for both, on every memory.
\<close>

section \<open>The search\<close>

definition search_body :: "env \<Rightarrow> bool \<Rightarrow> bytes \<Rightarrow> u32 \<Rightarrow> u8 \<Rightarrow> entry \<Rightarrow> (bytes \<times> bytes) option res" where
  "search_body E opt key ks kh e =
     (case key_val e of
        None \<Rightarrow> Inr None
      | Some cipher \<Rightarrow>
          if key_size e = ks \<and> (opt \<longrightarrow> kh = key_hash e)
          then decrypt_key_val_and_compare E key cipher (key_size e) (val_size e) (nac e)
          else Inr None)"

definition search_live :: "env \<Rightarrow> bool \<Rightarrow> entry list \<Rightarrow> bytes \<Rightarrow> u32 \<Rightarrow> u8 \<Rightarrow> ptr \<Rightarrow> bool" where
  "search_live E opt h key ks kh p \<longleftrightarrow>
     (case p of None \<Rightarrow> False | Some a \<Rightarrow> a < length h \<and> search_body E opt key ks kh (h ! a) = Inr None)"

definition chain_next :: "entry list \<Rightarrow> ptr \<Rightarrow> ptr" where
  "chain_next h p = (case p of None \<Rightarrow> None | Some a \<Rightarrow> nxt (h ! a))"

lemma search_body_defined: "search_body E opt key ks kh e \<noteq> Inl Diverges"
  by (auto simp: search_body_def decrypt_key_val_and_compare_def memread_def fault_simps
      assertE_def requireE_def
      split: option.splits prod.splits if_splits)

lemma ht_get_loop_step:
  "ht_get_loop (Suc n) E opt h key ks kh (Some a) pos =
     bindE (deref h a) (\<lambda>e. bindE (search_body E opt key ks kh e) (\<lambda>r.
       case r of
         Some (plain, updated_nac) \<Rightarrow>
           bindE (assertE E (outside E a)) (\<lambda>_. Inr (Some (a, plain, updated_nac), pos))
       | None \<Rightarrow> ht_get_loop n E opt h key ks kh (nxt e) (Suc pos)))"
  by (simp add: search_body_def)

interpretation search: chain_walk "length h" "search_live E opt h key ks kh" "chain_next h" "\<lambda>p. Suc" "\<lambda>p r. r"
  "\<lambda>n p pos. ht_get_loop n E opt h key ks kh p pos" for h E opt key ks kh
proof (unfold_locales, goal_cases)
  case (1 p)
  then show ?case by (auto simp: search_live_def split: option.splits)
next
  case (3 p n x)
  then show ?case
    by (cases p) (auto simp: search_live_def deref_def ht_get_loop_step bindE_def
        simp del: ht_get_loop.simps(3) split: sum.splits option.splits if_splits)
next
  case (4 p x)
  then show ?case
    by (cases p) (auto simp: search_live_def deref_def ht_get_loop_step bindE_def assertE_def
        search_body_defined requireE_def
        simp del: ht_get_loop.simps(3) split: sum.splits option.splits if_splits)
next
  case (5 p n x)
  then show ?case
    by (cases p) (auto simp: search_live_def deref_def ht_get_loop_step chain_next_def
        simp del: ht_get_loop.simps(3))
qed simp_all

section \<open>The MACs of a chain\<close>

definition macs_live :: "entry list \<Rightarrow> ptr \<Rightarrow> bool" where
  "macs_live h p \<longleftrightarrow>
     (case p of None \<Rightarrow> False | Some a \<Rightarrow> a < length h \<and> MAC_SIZE \<le> length (mac (h ! a)))"

interpretation gather: chain_walk "length h" "macs_live h" "chain_next h" "\<lambda>p. id"
  "\<lambda>p r. bindE r (\<lambda>ms. Inr (take MAC_SIZE (mac (h ! the p)) # ms))"
  "\<lambda>n p x. chain_macs n h p" for h
proof (unfold_locales, goal_cases)
  case (1 p)
  then show ?case by (auto simp: macs_live_def split: option.splits)
next
  case (3 p n x)
  then show ?case by (cases p) (auto simp: macs_live_def deref_def memread_def)
next
  case (4 p x)
  then show ?case by (cases p) (auto simp: macs_live_def deref_def memread_def)
next
  case (5 p n x)
  then show ?case by (cases p) (auto simp: macs_live_def deref_def memread_def chain_next_def)
next
  case (6 p r)
  then show ?case by (cases r) simp_all
qed simp_all


end
