(* ===== verification/Store_Properties.thy ===== *)
theory Store_Properties
  imports Sample_World Search_Fuel
begin

text \<open>
  The three handlers of the enclave as operations on the represented map, on every branch, and
  the parts they rest on: sealing and unsealing an entry, and the hash that picks its bucket.
\<close>

section \<open>The store\<close>

text \<open>
  C1. SET. On every state that satisfies the invariant of the store, a SET request with a key
  and a value that fit the buffer stores the value: the handler returns without a fault, its
  reply starts with the key, the represented map is changed at the key only, the invariant
  (chains, decrypted entries, MAC buckets, roots) holds again and nothing is reported. With MAC
  buckets a new key needs a free slot.
\<close>

theorem set_correct:
  assumes "store_inv E s" "ndebug E" "length rand = NAC_SIZE"
    "request_ok s cmd k (kv_request cmd k v rest)" "kv_fits k v"
    "mac_opt (arg s) \<longrightarrow> store_map E s k = None \<longrightarrow> length (bucket_pairs E s (bin_of s k)) < MAC_SLOTS"
  shows "\<exists>c' s'. enclave_set E rand s (kv_request cmd k v rest) = Inr (c', s') \<and>
    take (length k + 1) c' = k @ [0] \<and> length c' = length (kv_request cmd k v rest) \<and>
    store_inv E s' \<and> store_map E s' = (store_map E s)(k \<mapsto> v) \<and>
    out s' = out s \<and> arg s' = arg s"
proof -
  from assms(1) obtain bs kvs where r: "rep E s bs kvs" by (auto simp: store_inv_def)
  then have r0: "rep0 E s bs kvs" by (simp add: rep_def)
  have room: "mac_opt (arg s) \<Longrightarrow> store_map E s k = None \<Longrightarrow> length (kvs (bin_of s k)) < MAC_SLOTS"
    using assms(6) bucket_pairs_rep [OF rep0D(5) [OF r0 bin_of_less [OF rep0D(2) [OF r0]]], of k] by simp
  let ?c = "replied s (cut_request cmd k v rest) (k @ [0])"
  have "\<exists>s'. enclave_set E rand s (kv_request cmd k v rest) = Inr (?c, s') \<and> written E s s' k v"
    using enclave_set_rep_update [OF r _ assms(4,5), of _ rand]
      enclave_set_rep_insert [OF r _ assms(4,5,3)] room assms(2) by (cases "store_map E s k") auto
  moreover have "take (length k + 1) ?c = k @ [0]" using replied_data [of "k @ [0]"] by simp
  moreover have "length ?c = length (kv_request cmd k v rest)"
    using length_replied [of s "cut_request cmd k v rest" "k @ [0]"] request_okD(5) [OF assms(4)]
      length_cut_request [of cmd k v rest] by (simp add: cut_request_def)
  ultimately show ?thesis unfolding written_def by blast
qed

theorem set_correct_witness:
  "\<exists>c' s'. enclave_set sample_env sample_nonce sample_store (sample_set (lit ''xy'')) = Inr (c', s') \<and>
    take 3 c' = sample_key @ [0] \<and> store_map sample_env s' = [sample_key \<mapsto> lit ''xy'']"
proof -
  have a: "arg sample_store = sample_arg" by (simp add: sample_store_def fresh_def)
  have "0 \<notin> set (lit ''xy'')" by code_simp
  then have f: "kv_fits sample_key (lit ''xy'')" by (intro sample_fits) simp_all
  have q: "request_ok sample_store (lit ''SET '') sample_key
      (kv_request (lit ''SET '') sample_key (lit ''xy'') (replicate 6 0))"
    using a length_sample_set [of "lit ''xy''"] by (intro sample_request_ok) (simp_all add: sample_set_def)
  have "\<not> mac_opt (arg sample_store)" by (simp add: a sample_arg_def)
  with set_correct [OF sample_store_inv(1) sample_env_ok(2) length_sample_nonce q f]
  show ?thesis
    by (auto simp: sample_set_def sample_key_word sample_store_inv)
qed

text \<open>
  C2. GET. On every state that satisfies the invariant, GET of a key that the map has answers
  with its value and a NUL at the start of the buffer and leaves the state as it is, and GET of
  any other key returns the request as it came and prints a message.
\<close>

theorem get_correct:
  assumes "store_inv E s" "request_ok s cmd k (key_request cmd k rest)"
    "\<And>v. store_map E s k = Some v \<Longrightarrow> length v + 1 \<le> length (key_request cmd k rest)"
  shows "enclave_get E s (key_request cmd k rest) =
    (case store_map E s k of
       None \<Rightarrow> Inr (key_request cmd k rest, print ''GET FAILED: No data in database'' s)
     | Some v \<Rightarrow> Inr (replied s (key_request cmd k rest) (v @ [0]), s))"
proof -
  from assms(1) obtain bs kvs where r: "rep E s bs kvs" by (auto simp: store_inv_def)
  then have r0: "rep0 E s bs kvs" by (simp add: rep_def)
  note R = request_okD [OF assms(2)]
  show ?thesis
  proof (cases "store_map E s k")
    case None
    with enclave_get_rep_absent [OF r0 None R(1,2,4)] show ?thesis by simp
  next
    case (Some v)
    with enclave_get_rep_found [OF r Some assms(2)] assms(3) show ?thesis by simp
  qed
qed

theorem get_correct_witness:
  "enclave_get sample_env sample_filled sample_get =
     Inr (replied sample_filled sample_get (lit ''xy'' @ [0]), sample_filled)"
proof -
  have "enclave_get sample_env sample_filled (key_request (lit ''GET '') sample_key (replicate 9 0)) =
    (case store_map sample_env sample_filled sample_key of
       None \<Rightarrow> Inr (key_request (lit ''GET '') sample_key (replicate 9 0),
         print ''GET FAILED: No data in database'' sample_filled)
     | Some v \<Rightarrow> Inr (replied sample_filled (key_request (lit ''GET '') sample_key (replicate 9 0)) (v @ [0]),
         sample_filled))"
    using sample_filled_inv(2) length_sample_get sample_get_ok
    by (intro get_correct sample_filled_inv(1)) (simp_all add: sample_get_def)
  then show ?thesis by (simp add: sample_get_def sample_filled_inv(2))
qed

text \<open>
  C3. APPEND without MAC buckets. APPEND to a key that the map has stores the old value followed
  by the new one, replies with the key and keeps the invariant; APPEND to any other key returns
  the cut request, prints a message and changes nothing else.
\<close>

theorem append_correct:
  assumes "store_inv E s" "\<not> mac_opt (arg s)" "request_ok s cmd k (kv_request cmd k w rest)" "0 \<notin> set w"
    "\<And>v. store_map E s k = Some v \<Longrightarrow> kv_fits k (v @ w)"
  shows "case store_map E s k of
      None \<Rightarrow> enclave_append E s (kv_request cmd k w rest) =
        Inr (cut_request cmd k w rest, print ''There's no data in the database'' s)
    | Some v \<Rightarrow> \<exists>s'. enclave_append E s (kv_request cmd k w rest) =
        Inr (replied s (cut_request cmd k w rest) (k @ [0]), s') \<and>
        store_inv E s' \<and> store_map E s' = (store_map E s)(k \<mapsto> v @ w) \<and> out s' = out s"
proof -
  from assms(1) obtain bs kvs where r: "rep E s bs kvs" by (auto simp: store_inv_def)
  then have r0: "rep0 E s bs kvs" by (simp add: rep_def)
  show ?thesis
  proof (cases "store_map E s k")
    case None
    with enclave_append_absent [OF r0 None assms(3,4)] show ?thesis by simp
  next
    case (Some v)
    with enclave_append_rep [OF r Some assms(3) _ assms(2)] assms(5) show ?thesis
      by (auto simp: written_def)
  qed
qed

theorem append_correct_witness:
  "\<exists>c' s'. enclave_append sample_env sample_filled (kv_request (lit ''APP '') sample_key (lit ''z'') (replicate 7 0)) =
     Inr (c', s') \<and> store_map sample_env s' sample_key = Some (lit ''xyz'')"
proof -
  have "\<not> mac_opt (arg sample_filled)" by (simp add: sample_filled_inv sample_arg_def)
  moreover have "request_ok sample_filled (lit ''APP '') sample_key
      (kv_request (lit ''APP '') sample_key (lit ''z'') (replicate 7 0))"
    using sample_filled_inv(3) by (intro sample_request_ok) (simp_all add: kv_request_def sample_key_word)
  moreover have "0 \<notin> set (lit ''z'')" "0 \<notin> set (lit ''xy'' @ lit ''z'')" "lit ''xyz'' = lit ''xy'' @ lit ''z''"
    by code_simp+
  ultimately show ?thesis
    using append_correct [OF sample_filled_inv(1), of "lit ''APP ''" sample_key "lit ''z''" "replicate 7 0"]
      sample_fits [of "lit ''xy'' @ lit ''z''"]
    by (auto simp: sample_filled_inv)
qed

text \<open>
  C4. Sealing and unsealing. What \<open>enclave_encrypt\<close> makes of a key and a value,
  \<open>enclave_decrypt\<close> turns back, \<open>decrypt_and_get_key\<close> turns back into the key,
  \<open>enclave_verification\<close> accepts without a message, and \<open>decrypt_key_val_and_compare\<close> accepts
  for exactly this key.
\<close>

theorem seal_roundtrip:
  assumes "env_ok E" "kv_fits k v" "length n = NAC_SIZE" "length k' = unat (len32 k)"
  shows "\<exists>c t. enclave_encrypt E (packed k v) ki (len32 k) (len32 v) n = Inr (c, t) \<and>
    enclave_decrypt E c ki (len32 k) (len32 v) n t s = Inr (Some (packed k v), s) \<and>
    decrypt_and_get_key E c (len32 k) (len32 v) n = Inr (k @ [0]) \<and>
    enclave_verification E c ki (len32 k) (len32 v) n t s = Inr (SGX_SUCCESS, s) \<and>
    (\<exists>n'. decrypt_key_val_and_compare E k' c (len32 k) (len32 v) n =
       Inr (if k' = k @ [0] then Some (packed k v, n') else None))"
proof -
  from assms(1-3) obtain c t where e: "enclave_encrypt E (packed k v) ki (len32 k) (len32 v) n = Inr (c, t)"
    "sealed E (packed k v) ki (len32 k) (len32 v) n c t" by (rule enclave_encrypt_packed)
  have k: "take (unat (len32 k)) (packed k v) = k @ [0]"
    unfolding kv_fitsD(5) [OF assms(2)] by (simp add: packed_def)
  obtain n' where d: "decrypt_key_val_and_compare E k' c (len32 k) (len32 v) n =
       Inr (if take (unat (len32 k)) (packed k v) = k' then Some (packed k v, n') else None)"
    using e(2) assms(4) by (rule decrypt_sealed)
  have "\<exists>n'. decrypt_key_val_and_compare E k' c (len32 k) (len32 v) n =
       Inr (if k' = k @ [0] then Some (packed k v, n') else None)"
    by (rule exI [of _ n']) (simp only: d k eq_commute [of k'])
  moreover have "decrypt_and_get_key E c (len32 k) (len32 v) n = Inr (k @ [0])"
    using decrypt_and_get_key_sealed [OF e(2)] unfolding k .
  ultimately show ?thesis
    using e(1) enclave_decrypt_sealed [OF assms(1) e(2), of s] enclave_verification_sealed [OF assms(1) e(2), of s]
    by blast
qed

theorem seal_roundtrip_witness:
  "\<exists>c t. enclave_encrypt sample_env (packed sample_key (lit ''xy'')) 5 (len32 sample_key) (len32 (lit ''xy''))
       sample_nonce = Inr (c, t) \<and>
     enclave_decrypt sample_env c 5 (len32 sample_key) (len32 (lit ''xy'')) sample_nonce t sample_store =
       Inr (Some (packed sample_key (lit ''xy'')), sample_store)"
proof -
  have "length (sample_key @ [0]) = unat (len32 sample_key)" "0 \<notin> set (lit ''xy'')" by code_simp+
  with seal_roundtrip [OF sample_env_ok(1) sample_fits length_sample_nonce, of "lit ''xy''" "sample_key @ [0]" 5
    sample_store] show ?thesis by auto
qed

text \<open>
  C5. The bucket of a key. For a table with a positive size the hash is an index of the table; it
  depends only on the key up to its NUL, and it is the polynomial hash of the key modulo the
  size, unless the sum is once exactly \<open>ULONG_MAX\<close>, where the loop stops early.
\<close>

theorem hash_correct:
  assumes "0 < sz" "sz < 2 ^ 31" "0 \<notin> set k"
  shows "0 \<le> ht_hash sz (k @ 0 # rest) \<and> ht_hash sz (k @ 0 # rest) < sz \<and>
    ht_hash sz (k @ 0 # rest) = ht_hash sz k \<and>
    (\<not> hits_max 61 7 k \<longrightarrow> ht_hash sz k = int (unat (poly_hash 61 7 k mod word_of_int sz)))"
  using ht_hash_bounds [OF assms(1,2), of k] ht_hash_c_str [OF assms(3), of sz rest] ht_hash_eq [OF assms(1,2), of k]
    hash_loop_poly [OF assms(3), of 61 7] by simp

theorem hash_correct_witness:
  "0 \<le> ht_hash 4 (sample_key @ 0 # [1]) \<and> ht_hash 4 (sample_key @ 0 # [1]) < 4"
  using hash_correct [of 4 sample_key "[1]"] sample_key_word(3) by simp

end
