(* ===== verification/Integrity_Gaps.thy ===== *)
theory Integrity_Gaps
  imports Integrity
begin

text \<open>
  Where the code stops short of what the integrity protection means to do. Each lemma states
  the behaviour for all states it concerns: the status of an entry's verification does not
  depend on the tag, GET answers whatever was decrypted, a key whose chain was cut is reported
  as absent without a verification, an entry that is replayed under MAC buckets goes
  unnoticed, APPEND writes the MAC of an entry into the slot of another one, and the
  thirty-first entry of a bucket is written behind its MAC bucket.
\<close>

section \<open>Verification of an entry\<close>

lemma verification_status:
  assumes "cmac_ok E" "temp_all c ki kl vl n = Inr m"
  shows "\<exists>s'. enclave_verification E c ki kl vl n t s = Inr (SGX_SUCCESS, s')"
proof -
  have "m \<noteq> []" using temp_all_msg [OF assms(2)] by simp
  with cmac_okD [OF assms(1)] assms(2) show ?thesis by (simp add: enclave_verification_def)
qed

text \<open>GET answers what was decrypted, whatever the two verifications say.\<close>

lemma get_unverified:
  assumes "config_ok s" "request_ok s cmd k (key_request cmd k rest)"
    "ht_get_o E s (k @ [0]) (len32 k) = Inr (Some (a, plain, n'), pos)"
    "verify_found E s a = Inr (e, s1)" "enclave_verify_tree_root E s1 (bin_of s k) = Inr ret"
    "memread (unat (val_size e)) (drop (unat (key_size e)) plain) = Inr v"
    "length v \<le> length (key_request cmd k rest)"
  shows "\<exists>s'. enclave_get E s (key_request cmd k rest) = Inr (replied s (key_request cmd k rest) v, s')"
proof -
  note R = request_okD [OF assms(2)]
  obtain ms where "s1 = s\<lparr>out := out s @ ms\<rparr>" using assms(4) by (rule verify_found_out)
  then have "arg s1 = arg s" by simp
  then have "reply s1 (key_request cmd k rest) v = Inr (replied s (key_request cmd k rest) v)"
    "reply (print m s1) (key_request cmd k rest) v = Inr (replied s (key_request cmd k rest) v)" for m
    using reply_eq [OF assms(1) R(5) assms(7)] by (simp_all add: reply_def)
  with assms(3-6) bucket_index_eq [OF assms(1) R(3)] show ?thesis
    unfolding enclave_get_def parse_key_request [OF R(1,2)] bindE_Inr prod.case len32_of_nat [of k]
    by (simp add: Let_def)
qed

section \<open>Absence\<close>

text \<open>A key whose bucket was emptied is reported as absent; the roots are not consulted.\<close>

lemma get_cut_chain:
  assumes "config_ok s" "length t = nbuckets s" "t ! bin_of s k = None" "length cmd = 4" "plain_word k"
  shows "enclave_get E (with_memory s h t mb) (key_request cmd k rest) =
    Inr (key_request cmd k rest, print ''GET FAILED: No data in database'' (with_memory s h t mb))"
proof -
  have k0: "0 \<notin> set k" using assms(5) by (simp add: plain_word_def)
  have "bucket_index (with_memory s h t mb) (k @ [0]) = Inr (bin_of s k)"
    using bucket_index_eq [OF assms(1) k0] assms(1,2)
    by (simp add: bucket_index_def Let_def config_ok_def split: if_splits)
  with assms(3) show ?thesis
    unfolding enclave_get_def parse_key_request [OF assms(4,5)] bindE_Inr prod.case
    by (simp add: ht_get_o_def Let_def)
qed

section \<open>Replay under MAC buckets\<close>

definition replayed :: "enclave \<Rightarrow> nat \<Rightarrow> entry \<Rightarrow> enclave" where
  "replayed s a e = s\<lparr>heap := (heap s)[a := e]\<rparr>"

lemma replayed_simps [simp]:
  "ht (replayed s a e) = ht s" "heap (replayed s a e) = (heap s)[a := e]"
  "MACbuf (replayed s a e) = MACbuf s" "MACTable (replayed s a e) = MACTable s"
  "arg (replayed s a e) = arg s" "ratio_root_per_buckets (replayed s a e) = ratio_root_per_buckets s"
  "out (replayed s a e) = out s"
  by (simp_all add: replayed_def)

lemma replayed_root:
  assumes "mac_opt (arg s)"
  shows "enclave_verify_tree_root E (replayed s a e) b = enclave_verify_tree_root E s b"
  using assms
  by (simp add: enclave_verify_tree_root_def get_chain_mac_def aggregate_mac_def group_indices_def
      root_slot_def Let_def)

text \<open>
  An adversary who puts an old entry of the key back into the memory, with the tag it had,
  makes GET answer the old value without any message.
\<close>

lemma replay_undetected:
  assumes r: "rep E s bs kvs" and mo: "mac_opt (arg s)" and i: "i < length (kvs (bin_of s k))"
    "kvs (bin_of s k) ! i = (k, v)" and old: "entry_holds E e k w" "nxt e = nxt (heap s ! (bs (bin_of s k) ! i))"
    and q: "request_ok s cmd k (key_request cmd k rest)" "length w + 1 \<le> length (key_request cmd k rest)"
  shows "enclave_get E (replayed s (bs (bin_of s k) ! i) e) (key_request cmd k rest) =
    Inr (replied s (key_request cmd k rest) (w @ [0]), replayed s (bs (bin_of s k) ! i) e)"
proof -
  let ?b = "bin_of s k" and ?c = "key_request cmd k rest"
  let ?a = "bs ?b ! i"
  let ?s = "replayed s ?a e"
  have r0: "rep0 E s bs kvs" using r by (simp add: rep_def)
  note D = rep0D [OF r0] and R = request_okD [OF q(1)]
  have b: "?b < nbuckets s" by (rule bin_of_less [OF D(2)])
  note B = bucket_repD [OF D(5) [OF b]]
  have a: "?a < length (heap s)" using chain_bounds [OF B(1)] i(1) B(5) by simp
  have ch: "chain (heap ?s) (table (ht s) ! ?b) (bs ?b)" using chain_update [OF B(1) old(2)] by simp
  have eq: "bs ?b ! i = bs ?b ! n \<longleftrightarrow> i = n" if "n < length (kvs ?b)" for n
    using chain_distinct [OF B(1)] i(1) B(5) that by (simp add: nth_eq_iff_index_eq)
  have "entry_holds E (heap ?s ! (bs ?b ! n)) (fst ((kvs ?b)[i := (k, w)] ! n)) (snd ((kvs ?b)[i := (k, w)] ! n))"
    if "n < length (kvs ?b)" for n
    using that i a old(1) holds_nth [OF B(2) that] eq [OF that] by (cases "n = i") auto
  then have hl: "holds E (heap ?s) (bs ?b) ((kvs ?b)[i := (k, w)])"
    using B(5) by (simp add: holds_def list_all2_conv_all_nth split_beta)
  have bi: "bucket_index ?s (k @ [0]) = Inr ?b"
    using bucket_index_eq [OF D(2) R(3)] bucket_index_frame [of ?s s] by simp
  have nb: "k \<notin> fst ` set (take i ((kvs ?b)[i := (k, w)]))"
    using distinct_keys_before [OF B(3) i] by simp
  have ch': "chain (heap ?s) (table (ht ?s) ! ?b) (bs ?b)" using ch by simp
  have iw: "i < length ((kvs ?b)[i := (k, w)])" "(kvs ?b)[i := (k, w)] ! i = (k, w)" using i(1) by simp_all
  from bi D(4) ch' hl iw nb R(3,4) obtain n' where
    g: "ht_get_o E ?s (k @ [0]) (len32 k) = Inr (Some (?a, packed k w, n'), i)"
    by (rule ht_get_o_chain)
  have vf: "verify_found E ?s ?a = Inr (e, ?s)"
    using verify_found_holds [OF D(1), of ?a ?s k w] a old(1) by simp
  have vt: "enclave_verify_tree_root E ?s ?b = Inr SGX_SUCCESS"
    unfolding replayed_root [OF mo] using i(1) by (intro verify_tree_root_rep [OF r b]) auto
  have f: "unat (key_size e) = Suc (length k)" "unat (val_size e) = Suc (length w)"
    using old(1) kv_fitsD(5,6) [OF entry_holds_fits [OF old(1)]] by (auto simp: entry_holds_def)
  have "memread (unat (val_size e)) (drop (unat (key_size e)) (packed k w)) = Inr (w @ [0])"
    by (simp add: f memread_def)
  moreover have "reply ?s ?c (w @ [0]) = Inr (replied s ?c (w @ [0]))"
    using reply_eq [OF D(2) R(5), of "w @ [0]"] q(2) by (simp add: reply_def)
  ultimately show ?thesis
    using g vf vt bi
    unfolding enclave_get_def parse_key_request [OF R(1,2)] bindE_Inr prod.case len32_of_nat [of k]
    by simp
qed

section \<open>APPEND under MAC buckets\<close>

text \<open>
  The new MAC goes to slot \<open>i\<close> of the MAC bucket, but the MAC of the \<open>i\<close>-th entry of the chain is
  in the slot \<open>i\<close> counted from the other end. The aggregate with the changed MAC taken back is
  then not the authenticated one, and the root is not updated.
\<close>

lemma flat_restore:
  assumes "j < length (f b)" "f b ! j = m"
  shows "(flat f (xs @ b # ys))[length (flat f xs) + j := m] = flat f (xs @ b # ys)"
proof -
  have "flat f (xs @ b # ys) ! (length (flat f xs) + j) = m"
    using assms by (simp add: nth_append)
  then show ?thesis by (metis list_update_id)
qed

lemma misplaced_blocks:
  assumes "rep0 E s bs kvs" "mac_opt (arg s)" "b < nbuckets s" "set idx \<subseteq> {..<nbuckets s}"
    "macs_ok s bs b ((bmacs s bs b)[i := t]) mb"
  shows "group_blocks (overwritten s a e mb) idx ((bmacs s bs)(b := (bmacs s bs b)[i := t]))"
  unfolding group_blocks_def
proof
  fix j assume j: "j \<in> set idx"
  then have jn: "j < nbuckets s" using assms(4) by auto
  note M = macbuf_rep [OF assms(1) jn assms(2)]
  have mb: "macbuf_holds (mb ! j) (((bmacs s bs)(b := (bmacs s bs b)[i := t])) j)"
    using M(2) assms(2,5) by (cases "j = b") (auto simp: macs_ok_def)
  then have "all_macs (((bmacs s bs)(b := (bmacs s bs b)[i := t])) j)" by (simp add: macbuf_holds_def)
  with mb M(1) assms(2,5) show "all_macs (((bmacs s bs)(b := (bmacs s bs b)[i := t])) j) \<and>
    (if mac_opt (arg (overwritten s a e mb))
     then j < length (MACbuf (overwritten s a e mb)) \<and>
       macbuf_holds (MACbuf (overwritten s a e mb) ! j) (((bmacs s bs)(b := (bmacs s bs b)[i := t])) j)
     else bucket_macs (overwritten s a e mb) j = Inr (((bmacs s bs)(b := (bmacs s bs b)[i := t])) j))"
    by (simp add: macs_ok_def)
qed

lemma misplaced_rebuild:
  fixes e :: entry
  assumes r: "rep E s bs kvs" and mo: "mac_opt (arg s)" and b: "b < nbuckets s"
    and i: "i < length (kvs b)" "2 * i + 1 \<noteq> length (kvs b)"
    and mb: "macs_ok s bs b ((bmacs s bs b)[i := t]) mb"
    and prev: "prev_mac = mac (heap s ! (bs b ! i))"
  defines "s2 \<equiv> overwritten s (bs b ! i) e mb" and "idx \<equiv> group_of s (b div ratio s)"
  defines "bm \<equiv> (bmacs s bs)(b := (bmacs s bs b)[i := t])"
  shows "\<exists>ret s3. enclave_rebuild_tree_root E s2 b i False prev_mac = Inr (ret, s3) \<and>
    heap s3 = heap s2 \<and> MACbuf s3 = MACbuf s2 \<and> arg s3 = arg s2 \<and>
    (ret = SGX_ERROR_UNEXPECTED \<and> s3 = print ''Previous MAC compare failed'' s2 \<or>
     tag E gsk (concat (flat bm idx)) = tag E gsk (concat (flat (bmacs s bs) idx)))"
proof -
  have r0: "rep0 E s bs kvs" using r by (simp add: rep_def)
  note D = rep0D [OF r0] and M = macbuf_rep [OF r0 b mo]
  note G = group_of_bucket [OF D(2) b]
  note B = bucket_repD [OF D(5) [OF b]]
  obtain xs ys where sp: "idx = xs @ b # ys" "b \<notin> set xs" "b \<notin> set ys"
    unfolding idx_def using group_of_split [OF G(3)] .
  have gb: "group_blocks s2 (xs @ b # ys) bm"
    unfolding s2_def bm_def using misplaced_blocks [OF r0 mo b _ mb, of "xs @ b # ys"] G(4) sp(1)
    by (simp add: idx_def)
  have gi: "group_indices s2 b = Inr (xs @ b # ys)" "root_slot s2 b = Inr (b div ratio s)"
    using G(1,2) sp(1) group_indices_frame [of s2 s b] root_slot_frame [of s2 s b]
    by (simp_all add: s2_def idx_def)
  define j where "j = length (kvs b) - 1 - i"
  have j: "j < length (bm b)" "i \<noteq> j" using i M(4) by (auto simp: j_def bm_def)
  have idxj: "mac_index (mac_opt (arg s2)) False (length (bm b)) i = int j"
    using i(1) M(4) mo by (auto simp: s2_def mac_index_def j_def bm_def)
  have pm: "bm b ! j = prev_mac"
    using j i(1) M(4) B(5) mo by (simp add: bm_def prev bmacs_def rev_nth j_def)
  have len: "length prev_mac = MAC_SIZE"
    using holds_mac_size [OF D(3) B(2)] i(1) B(5) prev by simp
  have "root_ok E s bs (b div ratio s)" using r G(5) by (simp add: rep_def)
  moreover have "flat (bmacs s bs) idx \<noteq> []" using i(1) M(4) by (auto simp: sp(1))
  ultimately have root: "MACTable s2 ! (b div ratio s) = tag E gsk (concat (flat (bmacs s bs) idx))"
    unfolding root_ok_def Let_def idx_def by (simp add: s2_def)
  have "(flat bm idx)[length (flat bm xs) + j := prev_mac] = flat bm idx"
    unfolding sp(1) by (rule flat_restore [of j bm b prev_mac, OF j(1) pm])
  then show ?thesis
    using rebuild_update_eq [OF D(1) gi(1) sp(2,3) gb gi(2) idxj j(1) len] root
    unfolding sp(1) [symmetric] by simp
qed

lemma append_misplaced:
  assumes "rep E s bs kvs" "mac_opt (arg s)" "i < length (kvs (bin_of s k))" "kvs (bin_of s k) ! i = (k, v)"
    "2 * i + 1 \<noteq> length (kvs (bin_of s k))" "request_ok s cmd k (kv_request cmd k w rest)" "kv_fits k (v @ w)"
  defines "b \<equiv> bin_of s k"
  shows "\<exists>c' s' t. enclave_append E s (kv_request cmd k w rest) = Inr (c', s') \<and>
    mac (heap s' ! (bs b ! i)) = t \<and> macbuf_holds (MACbuf s' ! b) ((bmacs s bs b)[i := t]) \<and>
    (MACTable s' = MACTable s \<and>
       out s' = out s @ [''Previous MAC compare failed'', ''Tree verification failed''] \<or>
     tag E gsk (concat (flat ((bmacs s bs)(b := (bmacs s bs b)[i := t])) (group_of s (b div ratio s)))) =
     tag E gsk (concat (flat (bmacs s bs) (group_of s (b div ratio s)))))"
proof -
  have r0: "rep0 E s bs kvs" using assms(1) by (simp add: rep_def)
  note D = rep0D [OF r0]
  have b: "b < nbuckets s" unfolding b_def by (rule bin_of_less [OF D(2)])
  note B = bucket_repD [OF D(5) [OF b]]
  have sm: "store_map E s k = Some v"
    using store_map_rep [OF r0, of k] B(3) assms(3,4) by (metis b_def map_of_is_SomeI nth_mem)
  from assms(1) sm assms(6,7) obtain i' c n t where a: "i' < length (kvs b)" "kvs b ! i' = (k, v)"
    "sealed E (packed k (v @ w)) (key_hash_func k) (len32 k) (len32 (v @ w)) n c t"
    "enclave_append E s (kv_request cmd k w rest) =
      bindE (ht_append_o E s (Some (bs b ! i')) (k @ [0]) c n t (len32 k) (len32 (v @ w)) i') (\<lambda>s2.
      bindE (enclave_rebuild_tree_root E s2 b i' False (mac (heap s ! (bs b ! i'))))
        (\<lambda>(ret, s3).
        let s4 = (if ret \<noteq> SGX_SUCCESS then print ''Tree verification failed'' s3 else s3) in
        bindE (reply s4 (cut_request cmd k w rest) (k @ [0])) (\<lambda>cipher2. Inr (cipher2, s4))))"
    unfolding b_def by (rule enclave_append_unfold)
  have "i' = i"
    using nth_eq_iff_index_eq [OF B(3), of i' i] a(1,2) assms(3,4) by (simp add: b_def)
  note a = a [unfolded this]
  from r0 a(1,2) meta_eq_to_obj_eq [OF b_def] a(3) assms(7) obtain e mb where u:
    "ht_append_o E s (Some (bs b ! i)) (k @ [0]) c n t (len32 k) (len32 (v @ w)) i =
      Inr (overwritten s (bs b ! i) e mb)" "mac e = t" "macs_ok s bs b ((bmacs s bs b)[i := t]) mb"
    by (rule ht_append_o_eq)
  have c: "i < length (kvs b)" "2 * i + 1 \<noteq> length (kvs b)" using assms(3,5) by (simp_all add: b_def)
  let ?s2 = "overwritten s (bs b ! i) e mb"
  from misplaced_rebuild [OF assms(1,2) b c u(3) refl, of e] obtain ret s3 where rb:
    "enclave_rebuild_tree_root E ?s2 b i False (mac (heap s ! (bs b ! i))) = Inr (ret, s3)"
    "heap s3 = heap ?s2" "MACbuf s3 = mb" "arg s3 = arg s"
    "ret = SGX_ERROR_UNEXPECTED \<and> s3 = print ''Previous MAC compare failed'' ?s2 \<or>
     tag E gsk (concat (flat ((bmacs s bs)(b := (bmacs s bs b)[i := t])) (group_of s (b div ratio s)))) =
     tag E gsk (concat (flat (bmacs s bs) (group_of s (b div ratio s))))" by auto
  define s4 where "s4 = (if ret \<noteq> SGX_SUCCESS then print ''Tree verification failed'' s3 else s3)"
  have s4: "heap s4 = (heap s)[bs b ! i := e]" "MACbuf s4 = mb" "arg s4 = arg s"
    using rb(2-4) by (simp_all add: s4_def)
  have "enclave_append E s (kv_request cmd k w rest) =
      Inr (replied s (cut_request cmd k w rest) (k @ [0]), s4)"
    using a(4) u(1) rb(1) reply_key [OF D(2) assms(6) s4(3)] by (simp add: s4_def)
  moreover have "bs b ! i < length (heap s)" using chain_bounds [OF B(1)] c(1) B(5) by simp
  moreover have "macbuf_holds (MACbuf s4 ! b) ((bmacs s bs b)[i := t])"
    using u(3) assms(2) s4(2) by (simp add: macs_ok_def)
  ultimately show ?thesis
    using rb(5) u(2) s4(1) by (intro exI [of _ s4] exI [of _ t] exI) (auto simp: s4_def)
qed

section \<open>Limits of an insertion\<close>

text \<open>The state an insertion hands to \<open>ht_set_o\<close>, for a new key.\<close>

lemma enclave_set_new:
  assumes "rep0 E s bs kvs" "store_map E s k = None" "request_ok s cmd k (kv_request cmd k w rest)"
    "kv_fits k w" "length rand = NAC_SIZE"
  obtains c t where "sealed E (packed k w) (key_hash_func k) (len32 k) (len32 w) rand c t"
    "enclave_set E rand s (kv_request cmd k w rest) =
      bindE (ht_set_o E s None (k @ [0]) c rand t (len32 k) (len32 w) (length (kvs (bin_of s k)))) (\<lambda>s2.
      bindE (enclave_rebuild_tree_root E s2 (bin_of s k) (length (kvs (bin_of s k))) True []) (\<lambda>(ret, s3).
      let s4 = (if ret \<noteq> SGX_SUCCESS then print ''Tree verification failed'' s3 else s3) in
      bindE (reply s4 (cut_request cmd k w rest) (k @ [0])) (\<lambda>cipher2. Inr (cipher2, s4))))"
proof -
  note D = rep0D [OF assms(1)] and R = request_okD [OF assms(3)]
  from D(1) assms(4,5) obtain c t where e:
    "enclave_encrypt E (packed k w) (key_hash_func k) (len32 k) (len32 w) rand = Inr (c, t)"
    "sealed E (packed k w) (key_hash_func k) (len32 k) (len32 w) rand c t"
    by (rule enclave_encrypt_packed)
  have "enclave_set E rand s (kv_request cmd k w rest) =
      bindE (ht_set_o E s None (k @ [0]) c rand t (len32 k) (len32 w) (length (kvs (bin_of s k)))) (\<lambda>s2.
      bindE (enclave_rebuild_tree_root E s2 (bin_of s k) (length (kvs (bin_of s k))) True []) (\<lambda>(ret, s3).
      let s4 = (if ret \<noteq> SGX_SUCCESS then print ''Tree verification failed'' s3 else s3) in
      bindE (reply s4 (cut_request cmd k w rest) (k @ [0])) (\<lambda>cipher2. Inr (cipher2, s4))))"
    using ht_get_o_absent [OF assms(1,2) R(3,4)] e(1) bucket_index_eq [OF D(2) R(3)]
      key_hash_func_c_str [OF R(3)]
      parse_val_string [OF kv_fitsD(4) [OF assms(4)], of rest] packed_append [of k w]
    unfolding enclave_set_def parse_kv_request [OF R(1,2)] cut_request_def
    by (simp add: len32_of_nat [simplified] Let_def)
  with e(2) show thesis by (rule that)
qed

text \<open>With MAC buckets, a thirty-first entry is written behind the MAC bucket.\<close>

lemma set_full_bucket:
  assumes "rep0 E s bs kvs" "mac_opt (arg s)" "store_map E s k = None" "length (kvs (bin_of s k)) = MAC_SLOTS"
    "request_ok s cmd k (kv_request cmd k w rest)" "kv_fits k w" "length rand = NAC_SIZE"
  shows "enclave_set E rand s (kv_request cmd k w rest) = Inl OutOfBounds"
proof -
  let ?b = "bin_of s k"
  note D = rep0D [OF assms(1)] and R = request_okD [OF assms(5)]
  from assms(1,3,5,6,7) obtain c t where s: "sealed E (packed k w) (key_hash_func k) (len32 k) (len32 w) rand c t"
    "enclave_set E rand s (kv_request cmd k w rest) =
      bindE (ht_set_o E s None (k @ [0]) c rand t (len32 k) (len32 w) (length (kvs ?b))) (\<lambda>s2.
      bindE (enclave_rebuild_tree_root E s2 ?b (length (kvs ?b)) True []) (\<lambda>(ret, s3).
      let s4 = (if ret \<noteq> SGX_SUCCESS then print ''Tree verification failed'' s3 else s3) in
      bindE (reply s4 (cut_request cmd k w rest) (k @ [0])) (\<lambda>cipher2. Inr (cipher2, s4))))"
    by (rule enclave_set_new)
  note M = macbuf_rep [OF assms(1) bin_of_less [OF D(2)] assms(2)]
  let ?mb = "(MACbuf s)[?b := (MACbuf s ! ?b)\<lparr>msize := msize (MACbuf s ! ?b) + 1\<rparr>]"
  have "length (mmac (?mb ! ?b)) = MAC_SIZE * MAC_SLOTS"
    using M(1,2) [of k] by (simp add: macbuf_holds_def)
  from macbuf_write_full [OF this order_refl, of t]
  have "macbuf_write ?mb ?b (int (length (kvs ?b))) t = Inl OutOfBounds" unfolding assms(4) .
  then have "ht_set_o E s None (k @ [0]) c rand t (len32 k) (len32 w) (length (kvs ?b)) = Inl OutOfBounds"
    using bucket_index_eq [OF D(2) R(3)] ht_newpair_eq [OF D(1) s(1)] M(1) [of k] assms(2)
    by (simp add: ht_set_o_def Let_def)
  with s(2) show ?thesis by simp
qed

text \<open>
  In a build with assertions, an insertion into a bucket that holds an entry already fails the
  assertion \<open>kv_pos == 0\<close>.
\<close>

lemma set_assertion:
  assumes "rep E s bs kvs" "\<not> ndebug E" "store_map E s k = None" "kvs (bin_of s k) \<noteq> []"
    "mac_opt (arg s) \<Longrightarrow> length (kvs (bin_of s k)) < MAC_SLOTS"
    "request_ok s cmd k (kv_request cmd k w rest)" "kv_fits k w" "length rand = NAC_SIZE"
  shows "enclave_set E rand s (kv_request cmd k w rest) = Inl AssertFail"
proof -
  let ?b = "bin_of s k"
  have r0: "rep0 E s bs kvs" using assms(1) by (simp add: rep_def)
  note D = rep0D [OF r0]
  from r0 assms(3,6-8) obtain c t where s: "sealed E (packed k w) (key_hash_func k) (len32 k) (len32 w) rand c t"
    "enclave_set E rand s (kv_request cmd k w rest) =
      bindE (ht_set_o E s None (k @ [0]) c rand t (len32 k) (len32 w) (length (kvs ?b))) (\<lambda>s2.
      bindE (enclave_rebuild_tree_root E s2 ?b (length (kvs ?b)) True []) (\<lambda>(ret, s3).
      let s4 = (if ret \<noteq> SGX_SUCCESS then print ''Tree verification failed'' s3 else s3) in
      bindE (reply s4 (cut_request cmd k w rest) (k @ [0])) (\<lambda>cipher2. Inr (cipher2, s4))))"
    by (rule enclave_set_new)
  have new: "k \<notin> fst ` set (kvs ?b)"
    using assms(3) store_map_rep [OF r0] by (simp add: map_of_eq_None_iff)
  from r0 new refl s(1) assms(7,5) obtain e mb where u:
    "ht_set_o E s None (k @ [0]) c rand t (len32 k) (len32 w) (length (kvs ?b)) = Inr (inserted s ?b e mb)"
    "insert_ok E s bs kvs ?b k w e mb" by (rule ht_set_o_insert)
  let ?s = "inserted s ?b e mb" and ?bs = "bs(?b := length (heap s) # bs ?b)"
  note r' = insert_rep0 [OF u(2)]
  have b': "?b < nbuckets ?s" using bin_of_less [OF D(2)] by simp
  note G = group_of_bucket [OF rep0D(2) [OF r'] b']
  obtain xs ys where sp: "group_of ?s (?b div ratio ?s) = xs @ ?b # ys" "?b \<notin> set xs" "?b \<notin> set ys"
    using group_of_split [OF G(3)] .
  have gb: "group_blocks ?s (xs @ ?b # ys) (bmacs ?s ?bs)"
    using group_blocks_rep0 [OF r' G(4)] sp(1) by simp
  have "enclave_rebuild_tree_root E ?s ?b (length (kvs ?b)) True [] = Inl AssertFail"
    using G(1) sp(1) assms(2,4) rebuild_counts_blocks [OF gb sp(2,3), of "length (kvs ?b)" True]
      aggregate_mac_blocks [OF gb]
    by (simp add: enclave_rebuild_tree_root_def)
  with s(2) u(1) show ?thesis by simp
qed

section \<open>Sizes that wrap around\<close>

text \<open>
  Sizes of an entry that add up to \<open>2^32\<close> or more make the buffer of the authenticated message
  smaller than what is copied into it.
\<close>

lemma temp_all_wraps:
  assumes "2 ^ 32 \<le> unat kl + unat vl"
  shows "temp_all c ki kl vl n = Inl OutOfBounds"
proof -
  have "unat (kl + vl + of_nat NAC_SIZE + 1) < 2 ^ LENGTH(32)" by (rule unsigned_less)
  then have "temp_all_size kl vl < unat kl + unat vl + NAC_SIZE + 1 + 4 + 4"
    using assms unfolding temp_all_size_def NAC_SIZE_def by simp
  then show ?thesis by (auto simp: temp_all_def memread_def)
qed

text \<open>A request that fills its buffer without a NUL is read past its end.\<close>

lemma unterminated_request:
  assumes "4 \<le> length c" "0 \<notin> set (drop 4 c)" "blank \<notin> set (drop 4 c)"
  shows "parse_key c = Inl OutOfBounds"
  using assms strtok_r_unterminated [OF assms(2,3)] by (simp add: parse_key_def)

end
