(* ===== verification/Security_Properties.thy ===== *)
theory Security_Properties
  imports Sample_World Integrity_Gaps
begin

text \<open>
  What the enclave guarantees when the memory outside it is not to be trusted, and where the
  guarantee ends: an answer without a warning is the right one, a verified root pins every MAC
  of its group, and the known ways around the verification.
\<close>

section \<open>Tampering that is noticed\<close>


text \<open>Executable forms, for concrete memories.\<close>

definition group_msg_list :: "enclave \<Rightarrow> bytes list" where
  "group_msg_list s =
     List.map_filter (\<lambda>g. case aggregate_mac s (group_of s g) of Inl f \<Rightarrow> None | Inr m \<Rightarrow> Some m)
       [0..<length (MACTable s)]"

lemma group_msgs_list: "group_msgs s = set (group_msg_list s)"
  by (force simp: group_msgs_def group_msg_list_def List.map_filter_def split: sum.splits)

definition forged_in :: "env \<Rightarrow> enclave \<Rightarrow> enclave \<Rightarrow> bool" where
  "forged_in E s s' \<longleftrightarrow>
     list_ex (\<lambda>m. list_ex (\<lambda>m'. m \<noteq> m' \<and> tag E gsk m = tag E gsk m')
         (map entry_msg (heap s') @ group_msg_list s'))
       (map entry_msg (heap s) @ group_msg_list s) \<or>
     list_ex (\<lambda>g. aggregate_mac s (group_of s g) = Inr [] \<and>
         (case aggregate_mac s' (group_of s g) of
            Inl f \<Rightarrow> False | Inr m' \<Rightarrow> m' \<noteq> [] \<and> tag E gsk m' = MACTable s ! g))
       [0..<length (MACTable s)]"

lemma forgery_iff: "forgery E s s' \<longleftrightarrow> forged_in E s s'"
proof -
  have eq: "(case x of Inl (f :: fault) \<Rightarrow> False | Inr m' \<Rightarrow> P m') \<longleftrightarrow> (\<exists>m'. x = Inr m' \<and> P m')" for x P
    by (cases x) simp_all
  show ?thesis
    unfolding forgery_def forged_in_def group_msgs_list eq list_ex_iff by (auto simp: Bex_def)
qed

text \<open>The entry is moved to another address, and a copy with another key hash is put in its place.\<close>

definition sample_moved :: "entry list" where
  "sample_moved = (let e = heap sample_filled ! 0 in [e\<lparr>key_hash := key_hash e + 1\<rparr>, e])"

definition sample_table :: "ptr list" where
  "sample_table = (table (ht sample_filled))[bin_of sample_filled sample_key := Some 1]"

definition sample_tampered :: enclave where
  "sample_tampered = with_memory sample_filled sample_moved sample_table []"

definition sample_answer :: bytes where
  "sample_answer = (case enclave_get sample_env sample_tampered sample_get of Inl f \<Rightarrow> [] | Inr (c, s) \<Rightarrow> c)"


text \<open>
  C10. A verified root pins the MACs of its group. When \<open>enclave_verify_tree_root\<close> accepts a bucket on
  tampered memory, with or without MAC buckets, the MACs it read for the buckets of the group are,
  one after the other, those of the untampered store, unless the memory forges a CMAC.
\<close>

theorem tampered_root:
  assumes "store_inv E s" "b < nbuckets s"
    "enclave_verify_tree_root E (with_memory s h t mb) b = Inr SGX_SUCCESS"
    "\<not> forgery E s (with_memory s h t mb)"
  shows "\<exists>m. group_indices s b = Inr (group_of s (b div ratio s)) \<and> b \<in> set (group_of s (b div ratio s)) \<and>
    aggregate_mac s (group_of s (b div ratio s)) = Inr m \<and>
    aggregate_mac (with_memory s h t mb) (group_of s (b div ratio s)) = Inr m"
proof -
  from assms(1) obtain bs kvs where r: "rep E s bs kvs" by (auto simp: store_inv_def)
  then have r0: "rep0 E s bs kvs" by (simp add: rep_def)
  note G = group_of_bucket [OF rep0D(2) [OF r0] assms(2)]
  from verified_aggregate [OF r assms(2-4)] rep_aggregate(1) [OF r0 G(5)] G(1,3) show ?thesis by simp
qed

theorem tampered_root_witness:
  "\<exists>m. aggregate_mac sample_filled [2, 3] = Inr m \<and> aggregate_mac sample_tampered [2, 3] = Inr m"
proof -
  have ok: "enclave_verify_tree_root sample_env sample_tampered 2 = Inr SGX_SUCCESS" "2 < nbuckets sample_filled"
    "group_of sample_filled (2 div ratio sample_filled) = [2, 3]"
    "\<not> forged_in sample_env sample_filled sample_tampered" by code_simp+
  with tampered_root [OF sample_filled_inv(1) ok(2), of sample_moved sample_table "[]"] show ?thesis
    by (simp add: forgery_iff sample_tampered_def)
qed

text \<open>
  C11. The authenticated message of an entry is unambiguous: two entries whose message buffers are
  equal agree in both sizes, the key hash, the nonce and all of the ciphertext. So a CMAC that
  matches leaves no field of an entry open.
\<close>

theorem entry_authentic:
  assumes "temp_all c ki kl vl n = Inr m" "temp_all c' ki' kl' vl' n' = Inr m"
    "length n = NAC_SIZE" "length n' = NAC_SIZE"
  shows "kl = kl' \<and> vl = vl' \<and> ki = ki' \<and> n = n' \<and>
    take (unat (kl + vl)) c = take (unat (kl' + vl')) c' \<and>
    length m = unat (kl + vl) + NAC_SIZE + 9"
proof -
  have "unat (kl + vl) \<le> length c"
    using assms(1) by (auto simp: temp_all_def fault_simps memread_def split: if_splits)
  then show ?thesis
    using temp_all_inj [OF assms] temp_all_msg [OF assms(1)] assms(3) by (auto simp: le32_def)
qed

theorem entry_authentic_witness:
  "\<exists>m. temp_all [1, 2, 3] 5 2 1 sample_nonce = Inr m \<and> length m = 28"
proof -
  have "\<not> isl (temp_all [1, 2, 3] 5 2 1 sample_nonce)" by code_simp
  then obtain m where "temp_all [1, 2, 3] 5 2 1 sample_nonce = Inr m"
    by (cases "temp_all [1, 2, 3] 5 2 1 sample_nonce") auto
  with entry_authentic [OF this this length_sample_nonce length_sample_nonce] show ?thesis
    by (simp add: NAC_SIZE_def)
qed

section \<open>Tampering that is not noticed\<close>

text \<open>
  C28. Replay under MAC buckets. With the option for MAC buckets, the root is computed over the MAC
  buckets and GET never compares the MAC of the entry it found with its slot there. An adversary
  who puts an old version of an entry back into memory (a version that the enclave itself had
  sealed for the key) makes GET answer the old value, without any report.
\<close>

theorem replay_accepted:
  assumes "store_inv E s" "mac_opt (arg s)" "chain (heap s) (table (ht s) ! bin_of s k) as"
    "i < length (bucket_pairs E s (bin_of s k))" "bucket_pairs E s (bin_of s k) ! i = (k, v)"
    "entry_holds E e k w" "nxt e = nxt (heap s ! (as ! i))"
    "request_ok s cmd k (key_request cmd k rest)" "length w + 1 \<le> length (key_request cmd k rest)"
  shows "store_map E s k = Some v \<and>
    enclave_get E (replayed s (as ! i) e) (key_request cmd k rest) =
      Inr (replied s (key_request cmd k rest) (w @ [0]), replayed s (as ! i) e)"
proof -
  from assms(1) obtain bs kvs where r: "rep E s bs kvs" by (auto simp: store_inv_def)
  then have r0: "rep0 E s bs kvs" by (simp add: rep_def)
  note B = rep0D(5) [OF r0 bin_of_less [OF rep0D(2) [OF r0], of k]]
  have as: "as = bs (bin_of s k)" by (rule chain_unique [OF assms(3) bucket_repD(1) [OF B]])
  note p = bucket_pairs_rep [OF B]
  have "store_map E s k = Some v"
    using store_map_rep [OF r0, of k] bucket_repD(3) [OF B] assms(4,5) p
    by (metis map_of_is_SomeI nth_mem)
  then show ?thesis using replay_undetected [OF r assms(2) _ _ assms(6) _ assms(8,9), of i v] assms(4,5,7) p as by simp
qed

definition sample_mac_store :: enclave where
  "sample_mac_store = fresh sample_junk (sample_arg\<lparr>mac_opt := True\<rparr>)"

definition sample_first :: enclave where
  "sample_first = after_set sample_mac_store (lit ''xy'')"

definition sample_second :: enclave where
  "sample_second = after_set sample_first (lit ''zw'')"

lemma sample_mac_steps:
  "store_inv sample_env sample_first" "arg sample_first = sample_arg\<lparr>mac_opt := True\<rparr>"
  "store_inv sample_env sample_second" "arg sample_second = sample_arg\<lparr>mac_opt := True\<rparr>"
proof -
  have i: "store_inv sample_env sample_mac_store"
    using fresh_rep [where junk = sample_junk, OF sample_env_ok(1) sample_usable(3) length_sample_junk]
    by (auto simp: store_inv_def sample_mac_store_def)
  have "arg sample_mac_store = sample_arg\<lparr>mac_opt := True\<rparr>" by (simp add: sample_mac_store_def fresh_def)
  moreover have "length (bucket_pairs sample_env sample_mac_store (bin_of sample_mac_store sample_key)) < MAC_SLOTS"
    "length (bucket_pairs sample_env sample_first (bin_of sample_first sample_key)) < MAC_SLOTS"
    "0 \<notin> set (lit ''xy'')" "0 \<notin> set (lit ''zw'')" by code_simp+
  ultimately show f: "store_inv sample_env sample_first" "arg sample_first = sample_arg\<lparr>mac_opt := True\<rparr>"
    "store_inv sample_env sample_second" "arg sample_second = sample_arg\<lparr>mac_opt := True\<rparr>"
    using after_set_written [OF i, of "lit ''xy''"] after_set_written [of sample_first "lit ''zw''"]
    by (auto simp: sample_first_def sample_second_def written_def)
qed

lemma stored_entry:
  assumes "store_inv E s" "b < nbuckets s" "chain (heap s) (table (ht s) ! b) as" "i < length as"
    "bucket_pairs E s b ! i = (k, v)"
  shows "entry_holds E (heap s ! (as ! i)) k v"
proof -
  from assms(1) obtain bs kvs where "rep0 E s bs kvs" by (auto simp: store_inv_def rep_def)
  note B = rep0D(5) [OF this assms(2)]
  have "as = bs b" by (rule chain_unique [OF assms(3) bucket_repD(1) [OF B]])
  then show ?thesis
    using holds_nth [OF bucket_repD(2) [OF B], of i] bucket_repD(5) [OF B] bucket_pairs_rep [OF B] assms(4,5) by simp
qed

theorem replay_accepted_witness:
  "store_map sample_env sample_second sample_key = Some (lit ''zw'') \<and>
   enclave_get sample_env (replayed sample_second 0 (heap sample_first ! 0)) sample_get =
     Inr (replied sample_second sample_get (lit ''xy'' @ [0]), replayed sample_second 0 (heap sample_first ! 0))"
proof -
  have f: "chain (heap sample_first) (table (ht sample_first) ! 2) [0]" "2 < nbuckets sample_first"
    "bucket_pairs sample_env sample_first 2 ! 0 = (sample_key, lit ''xy'')" by code_simp+
  have e: "entry_holds sample_env (heap sample_first ! 0) sample_key (lit ''xy'')"
    using stored_entry [OF sample_mac_steps(1) f(2,1) _ f(3)] by simp
  have t: "bin_of sample_second sample_key = 2" "chain (heap sample_second) (table (ht sample_second) ! 2) [0]"
    "bucket_pairs sample_env sample_second 2 = [(sample_key, lit ''zw'')]"
    "nxt (heap sample_first ! 0) = nxt (heap sample_second ! 0)" by code_simp+
  have q: "request_ok sample_second (lit ''GET '') sample_key (key_request (lit ''GET '') sample_key (replicate 9 0))"
    using sample_mac_steps(4) by (intro sample_request_ok) (simp_all add: key_request_def sample_key_word)
  show ?thesis
    using replay_accepted [OF sample_mac_steps(3), of sample_key "[0]" 0 "lit ''zw''" "heap sample_first ! 0",
        OF _ _ _ _ e _ q] t sample_mac_steps(4)
    by (simp add: sample_get_def key_request_def sample_key_word)
qed

text \<open>
  C29. Absence is not authenticated. When the bucket of a key is emptied in the untrusted table, GET
  reports that there is no data, whatever the store held, and consults neither MAC nor root: an
  adversary can make any key disappear.
\<close>

theorem deletion_accepted:
  assumes "store_inv E s" "length cmd = 4" "plain_word k"
  shows "enclave_get E (with_memory s (heap s) ((table (ht s))[bin_of s k := None]) (MACbuf s)) (key_request cmd k rest) =
    Inr (key_request cmd k rest, print ''GET FAILED: No data in database''
      (with_memory s (heap s) ((table (ht s))[bin_of s k := None]) (MACbuf s)))"
proof (rule get_cut_chain [OF store_inv_config [OF assms(1)] _ _ assms(2,3)])
  note c = store_inv_config [OF assms(1)]
  show "length ((table (ht s))[bin_of s k := None]) = nbuckets s" using c by (simp add: config_ok_def)
  then show "(table (ht s))[bin_of s k := None] ! bin_of s k = None" using bin_of_less [OF c] by simp
qed

theorem deletion_accepted_witness:
  "store_map sample_env sample_filled sample_key = Some (lit ''xy'') \<and>
   fst (projr (enclave_get sample_env (with_memory sample_filled (heap sample_filled)
     ((table (ht sample_filled))[bin_of sample_filled sample_key := None]) (MACbuf sample_filled)) sample_get)) = sample_get"
  using deletion_accepted [OF sample_filled_inv(1) _ sample_key_word(1), of "lit ''GET ''" "replicate 9 0"]
  by (simp add: sample_filled_inv(2) sample_get_def)

end
