(* ===== verification/Store_Limits.thy ===== *)
theory Store_Limits
  imports Sample_World Integrity_Gaps
begin

text \<open>
  Requests for which the handlers do not return: a thirty-first key in a bucket under MAC buckets,
  and a second key in a bucket in a build with assertions.
\<close>

section \<open>The thirty-first entry\<close>

text \<open>
  C30. With MAC buckets, SET of a new key fails in a bucket that holds thirty entries: \<open>ht_set_o\<close>
  counts the entry and writes its MAC behind the end of the array \<open>mac\<close> of the MAC bucket.
\<close>

theorem set_overflows:
  assumes "store_inv E s" "mac_opt (arg s)" "store_map E s k = None"
    "length (bucket_pairs E s (bin_of s k)) = MAC_SLOTS"
    "request_ok s cmd k (kv_request cmd k v rest)" "kv_fits k v" "length rand = NAC_SIZE"
  shows "enclave_set E rand s (kv_request cmd k v rest) = Inl OutOfBounds"
proof -
  from assms(1) obtain bs kvs where r0: "rep0 E s bs kvs" by (auto simp: store_inv_def rep_def)
  have "bucket_pairs E s (bin_of s k) = kvs (bin_of s k)"
    by (rule bucket_pairs_rep [OF rep0D(5) [OF r0 bin_of_less [OF rep0D(2) [OF r0]]]])
  with assms(4) set_full_bucket [OF r0 assms(2,3) _ assms(5-7)] show ?thesis by simp
qed

text \<open>A store with one bucket, filled with key after key.\<close>

definition fill_key :: "nat \<Rightarrow> bytes" where
  "fill_key n = [75, of_nat (65 + n)]"

definition fill_set :: "nat \<Rightarrow> bytes" where
  "fill_set n = kv_request (lit ''SET '') (fill_key n) (lit ''v'') (replicate 7 0)"

primrec fill :: "nat \<Rightarrow> enclave" where
  "fill 0 = fresh sample_junk (sample_arg\<lparr>mac_opt := True, bucket_size := 1, tree_root_size := 1\<rparr>)"
| "fill (Suc n) =
     (case enclave_set sample_env sample_nonce (fill n) (fill_set n) of Inl f \<Rightarrow> fill n | Inr (c, s) \<Rightarrow> s)"

lemma fill_key_char: "n < 64 \<Longrightarrow> unat (of_nat (65 + n) :: byte) = 65 + n"
  unfolding unat_of_nat by (rule mod_less) simp

lemma fill_key_inj: "inj_on fill_key {..<64}"
proof (rule inj_onI)
  fix m n assume "m \<in> {..<64::nat}" "n \<in> {..<64}" "fill_key m = fill_key n"
  then show "m = n" using fill_key_char [of m] fill_key_char [of n] by (simp add: fill_key_def)
qed

lemma fill_key_new: "n < 64 \<Longrightarrow> fill_key n \<notin> fill_key ` {..<n}"
  using inj_on_eq_iff [OF fill_key_inj] by fastforce

lemma fill_key_word: "n < 64 \<Longrightarrow> plain_word (fill_key n)"
proof -
  assume n: "n < 64"
  have "(of_nat (65 + n) :: byte) \<noteq> 0" "(of_nat (65 + n) :: byte) \<noteq> blank"
    using fill_key_char [OF n] by (auto simp: blank_def simp del: of_nat_add)
  then show ?thesis by (auto simp: plain_word_def fill_key_def blank_def simp del: of_nat_add)
qed

lemma fill_request:
  assumes "arg s = sample_arg\<lparr>mac_opt := True, bucket_size := 1, tree_root_size := 1\<rparr>" "n < 64"
  shows "request_ok s (lit ''SET '') (fill_key n) (fill_set n)" "kv_fits (fill_key n) (lit ''v'')"
  using assms fill_key_word [OF assms(2)]
  by (auto simp: request_ok_def fill_set_def kv_request_def fill_key_def sample_arg_def kv_fits_def plain_word_def lit_def)

lemma one_bucket_pairs:
  assumes "store_inv E s" "hsize (ht s) = 1"
  shows "bin_of s k = 0" "length (bucket_pairs E s 0) = card (dom (store_map E s))"
proof -
  have c: "config_ok s" using assms(1) by (auto simp: store_inv_def rep_def dest: rep0D(2))
  have b: "bin_of s k = 0" for k using bin_of_less [OF c, of k] assms(2) by simp
  then show "bin_of s k = 0" .
  from assms(1) obtain bs kvs where "rep0 E s bs kvs" by (auto simp: store_inv_def rep_def)
  note B = rep0D(5) [OF this, of 0]
  have n: "0 < nbuckets s" using assms(2) by simp
  note P = bucket_pairs_rep [OF B [OF n]] and D = bucket_repD(3) [OF B [OF n]]
  have "store_map E s = map_of (kvs 0)" by (rule ext) (simp add: store_map_def b P)
  then show "length (bucket_pairs E s 0) = card (dom (store_map E s))"
    using D by (simp add: P dom_map_of_conv_image_fst distinct_card flip: set_map)
qed

lemma fill_inv:
  assumes "n \<le> MAC_SLOTS"
  shows "store_inv sample_env (fill n) \<and> hsize (ht (fill n)) = 1 \<and>
    arg (fill n) = sample_arg\<lparr>mac_opt := True, bucket_size := 1, tree_root_size := 1\<rparr> \<and>
    dom (store_map sample_env (fill n)) = fill_key ` {..<n}"
  using assms
proof (induction n)
  case 0
  have u: "usable (sample_arg\<lparr>mac_opt := True, bucket_size := 1, tree_root_size := 1\<rparr>)"
    by (simp add: usable_def sample_arg_def)
  show ?case
    using fresh_rep [where junk = sample_junk, OF sample_env_ok(1) u length_sample_junk]
      fresh_map [where junk = sample_junk, OF sample_env_ok(1) u length_sample_junk]
    by (auto simp: store_inv_def) (simp_all add: fresh_def)
next
  case (Suc n)
  let ?s = "fill n" and ?k = "fill_key n"
  have I: "store_inv sample_env ?s" "hsize (ht ?s) = 1"
    "arg ?s = sample_arg\<lparr>mac_opt := True, bucket_size := 1, tree_root_size := 1\<rparr>"
    "dom (store_map sample_env ?s) = fill_key ` {..<n}" using Suc by simp_all
  have n: "n < 30" "n < 64" using Suc.prems by (simp_all add: MAC_SLOTS_def)
  from I(1) obtain bs kvs where r: "rep sample_env ?s bs kvs" by (auto simp: store_inv_def)
  then have r0: "rep0 sample_env ?s bs kvs" by (simp add: rep_def)
  have inj: "inj_on fill_key {..<Suc n}" using fill_key_inj by (rule inj_on_subset) (use n in auto)
  have "?k \<notin> dom (store_map sample_env ?s)" unfolding I(4) by (rule fill_key_new [OF n(2)])
  then have new: "store_map sample_env ?s ?k = None" by (simp add: domIff)
  have "card (fill_key ` {..<n}) = n" using card_image [OF inj_on_subset [OF inj]] by simp
  then have "length (kvs (bin_of ?s ?k)) < MAC_SLOTS"
    using one_bucket_pairs [OF I(1,2)] bucket_pairs_rep [OF rep0D(5) [OF r0 bin_of_less [OF rep0D(2) [OF r0]]], of ?k] n
    by (simp add: I(4) MAC_SLOTS_def)
  then obtain s' where s': "enclave_set sample_env sample_nonce ?s (fill_set n) =
      Inr (replied ?s (cut_request (lit ''SET '') ?k (lit ''v'') (replicate 7 0)) (?k @ [0]), s')"
    "written sample_env ?s s' ?k (lit ''v'')"
    using enclave_set_rep_insert [OF r new fill_request(1) [OF I(3) n(2), unfolded fill_set_def]
        fill_request(2) [OF I(3) n(2)] length_sample_nonce] sample_env_ok(2)
    unfolding fill_set_def by blast
  then have step: "fill (Suc n) = s'" by simp
  have w: "store_inv sample_env s'" "hsize (ht s') = 1" "arg s' = arg ?s"
    using s'(2) I(2) by (simp_all add: written_def)
  from s'(2) have "dom (store_map sample_env s') = fill_key ` {..<Suc n}"
    by (simp add: written_def dom_fun_upd I(4) lessThan_Suc)
  with w show ?case unfolding step I(3) by blast
qed

theorem set_overflows_witness:
  "enclave_set sample_env sample_nonce (fill 30) (fill_set 30) = Inl OutOfBounds"
proof -
  have I: "store_inv sample_env (fill 30)" "hsize (ht (fill 30)) = 1"
    "arg (fill 30) = sample_arg\<lparr>mac_opt := True, bucket_size := 1, tree_root_size := 1\<rparr>"
    "dom (store_map sample_env (fill 30)) = fill_key ` {..<30}"
    using fill_inv [of 30] by (simp_all add: MAC_SLOTS_def)
  have inj: "inj_on fill_key {..<30}" using fill_key_inj by (rule inj_on_subset) auto
  have "fill_key 30 \<notin> fill_key ` {..<30}" by (rule fill_key_new) simp
  then have "store_map sample_env (fill 30) (fill_key 30) = None" using I(4) by (metis domIff)
  moreover have "length (bucket_pairs sample_env (fill 30) (bin_of (fill 30) (fill_key 30))) = MAC_SLOTS"
    using one_bucket_pairs [OF I(1,2)] card_image [OF inj] by (simp add: I(4) MAC_SLOTS_def)
  moreover have "mac_opt (arg (fill 30))" by (simp add: I(3))
  ultimately show ?thesis
    using set_overflows [OF I(1) _ _ _ fill_request(1) [OF I(3), of 30, unfolded fill_set_def]
        fill_request(2) [OF I(3), of 30] length_sample_nonce]
    by (simp add: fill_set_def)
qed

section \<open>Assertions\<close>

text \<open>
  C31. In a build without \<open>NDEBUG\<close>, SET of a new key fails in every bucket that holds an entry: the
  assertion \<open>kv_pos == 0\<close> of \<open>enclave_rebuild_tree_root\<close> is checked against the position behind the
  end of the chain, after the entry was linked in.
\<close>

theorem set_asserts:
  assumes "store_inv E s" "\<not> ndebug E" "store_map E s k = None" "bucket_pairs E s (bin_of s k) \<noteq> []"
    "mac_opt (arg s) \<longrightarrow> length (bucket_pairs E s (bin_of s k)) < MAC_SLOTS"
    "request_ok s cmd k (kv_request cmd k v rest)" "kv_fits k v" "length rand = NAC_SIZE"
  shows "enclave_set E rand s (kv_request cmd k v rest) = Inl AssertFail"
proof -
  from assms(1) obtain bs kvs where r: "rep E s bs kvs" by (auto simp: store_inv_def)
  then have r0: "rep0 E s bs kvs" by (simp add: rep_def)
  have "bucket_pairs E s (bin_of s k) = kvs (bin_of s k)"
    by (rule bucket_pairs_rep [OF rep0D(5) [OF r0 bin_of_less [OF rep0D(2) [OF r0]]]])
  with assms(4,5) set_assertion [OF r assms(2,3) _ _ assms(6-8)] show ?thesis by simp
qed

lemma store_inv_ndebug: "store_inv (E\<lparr>ndebug := d\<rparr>) s = store_inv E s"
proof -
  have "sealed (E\<lparr>ndebug := d\<rparr>) = sealed E" by (intro ext) (simp add: sealed_def tag_def)
  then have "entry_holds (E\<lparr>ndebug := d\<rparr>) = entry_holds E" by (intro ext) (simp add: entry_holds_def)
  then have "bucket_rep (E\<lparr>ndebug := d\<rparr>) = bucket_rep E" by (intro ext) (simp add: bucket_rep_def holds_def)
  moreover have "env_ok (E\<lparr>ndebug := d\<rparr>) = env_ok E"
    by (simp add: env_ok_def aes_ok_def cmac_ok_def memory_ok_def)
  ultimately show ?thesis by (simp add: store_inv_def rep_def rep0_def root_ok_def tag_def)
qed

definition sample_other :: bytes where
  "sample_other = lit ''af''"

theorem set_asserts_witness:
  "enclave_set (sample_env\<lparr>ndebug := False\<rparr>) sample_nonce sample_filled
     (kv_request (lit ''SET '') sample_other (lit ''v'') (replicate 7 0)) = Inl AssertFail"
proof -
  have w: "plain_word sample_other" "length sample_other = 2"
    by (simp_all add: sample_other_def plain_word_def lit_def blank_def)
  have q: "request_ok sample_filled (lit ''SET '') sample_other
      (kv_request (lit ''SET '') sample_other (lit ''v'') (replicate 7 0))"
    using w sample_filled_inv(3) by (simp add: request_ok_def sample_arg_def kv_request_def)
  have f: "kv_fits sample_other (lit ''v'')" using w by (simp add: kv_fits_def plain_word_def) (simp add: lit_def)
  have "store_map (sample_env\<lparr>ndebug := False\<rparr>) sample_filled sample_other = None"
    "bucket_pairs (sample_env\<lparr>ndebug := False\<rparr>) sample_filled (bin_of sample_filled sample_other) \<noteq> []"
    "\<not> mac_opt (arg sample_filled)" by code_simp+
  then show ?thesis
    using set_asserts [of "sample_env\<lparr>ndebug := False\<rparr>", OF _ _ _ _ _ q f length_sample_nonce]
    by (simp add: store_inv_ndebug sample_filled_inv(1))
qed

end
