(* ===== verification/Plain_Table.thy ===== *)
theory Plain_Table
  imports Hash_Functions Linked_Chain Chain_Walk
begin

text \<open>
  The hash table without protection of \<open>Experiment/Motivation\<close>: the operations of
  \<open>Unsecure_kvs/server.c\<close>, and what they do to the represented map. The insertion is written
  over the function that makes a new pair, in which the programs that share this code differ.
\<close>

section \<open>Data\<close>

record plain_entry =
  e_key_size :: int
  e_val_size :: int
  e_key :: "bytes option"
  e_val :: "bytes option"
  e_next :: ptr

text \<open>The table, the memory its entries are in, and what was printed.\<close>

record plain =
  p_size :: int
  p_table :: "ptr list"
  p_heap :: "plain_entry list"
  p_out :: "string list"

definition p_print :: "string \<Rightarrow> plain \<Rightarrow> plain" where
  "p_print msg t = t\<lparr>p_out := p_out t @ [msg]\<rparr>"

text \<open>
  Whether an allocation succeeds, by the number of entries there are, the place of the
  request in the code and its size.
\<close>

type_synonym allocator = "nat \<Rightarrow> nat \<Rightarrow> nat \<Rightarrow> bool"

section \<open>Operations\<close>

text \<open>\<open>ht_hash(key)\<close> as an index of the table; \<open>m\<close> is the modulus.\<close>

definition plain_bin :: "int \<Rightarrow> plain \<Rightarrow> bytes \<Rightarrow> nat res" where
  "plain_bin m t key =
     bindE (c_str key) (\<lambda>k.
       if m = 0 then Inl DivByZero
       else let b = ht_hash m k in
         if 0 \<le> b \<and> b < int (length (p_table t)) then Inr (nat b) else Inl OutOfBounds)"

text \<open>
  The loop over the chain: stops at \<open>NULL\<close>, at an entry without a key and at an entry with the
  key. The result is \<open>last\<close> and \<open>next\<close>.
\<close>

fun plain_find :: "nat \<Rightarrow> plain_entry list \<Rightarrow> bytes \<Rightarrow> ptr \<Rightarrow> ptr \<Rightarrow> (ptr \<times> ptr) res" where
  "plain_find 0 h key lst nx = Inl Diverges"
| "plain_find (Suc n) h key lst None = Inr (lst, None)"
| "plain_find (Suc n) h key lst (Some a) =
     bindE (deref h a) (\<lambda>e.
     case e_key e of
       None \<Rightarrow> Inr (lst, Some a)
     | Some k \<Rightarrow> bindE (strcmp_eq key k) (\<lambda>eq.
         if eq then Inr (lst, Some a) else plain_find n h key (Some a) (e_next e)))"

text \<open>\<open>next != NULL && next->key != NULL && (strcmp(key, next->key) == 0)\<close>.\<close>

definition key_matches :: "plain_entry list \<Rightarrow> bytes \<Rightarrow> ptr \<Rightarrow> bool res" where
  "key_matches h key p =
     (case p of
        None \<Rightarrow> Inr False
      | Some a \<Rightarrow> bindE (deref h a) (\<lambda>e.
          case e_key e of None \<Rightarrow> Inr False | Some k \<Rightarrow> strcmp_eq key k))"

definition u_ht_newpair ::
  "allocator \<Rightarrow> bytes \<Rightarrow> bytes \<Rightarrow> int \<Rightarrow> int \<Rightarrow> plain \<Rightarrow> plain_entry option res" where
  "u_ht_newpair mem key val ks vs t =
     (let n = length (p_heap t) in
      if \<not> mem n 0 32 then Inl Exited
      else if \<not> mem n 1 (size_arg ks) then Inr None
      else if \<not> mem n 2 (size_arg vs) then Inr None
      else bindE (memread (size_arg ks) key) (\<lambda>k.
           bindE (memread (size_arg vs) val) (\<lambda>v.
             Inr (Some \<lparr>e_key_size = ks, e_val_size = vs, e_key = Some k, e_val = Some v,
                        e_next = None\<rparr>))))"

text \<open>The value of a pair that is there is overwritten, in a larger or smaller buffer if the size differs.\<close>

definition plain_replace :: "allocator \<Rightarrow> nat \<Rightarrow> bytes \<Rightarrow> int \<Rightarrow> plain_entry \<Rightarrow> plain_entry res" where
  "plain_replace mem n val vs e =
     bindE (memread (size_arg vs) val) (\<lambda>v.
       if e_val_size e \<noteq> vs
       then if mem n 3 (size_arg vs)
            then Inr (e\<lparr>e_val := Some v, e_val_size := vs\<rparr>)
            else Inl NullDeref
       else case e_val e of
              None \<Rightarrow> Inl NullDeref
            | Some old \<Rightarrow>
                if size_arg vs \<le> length old
                then Inr (e\<lparr>e_val := Some (v @ drop (size_arg vs) old), e_val_size := vs\<rparr>)
                else Inl OutOfBounds)"

text \<open>The three places where a new pair is linked in.\<close>

definition plain_link :: "nat \<Rightarrow> ptr \<Rightarrow> ptr \<Rightarrow> plain_entry \<Rightarrow> plain \<Rightarrow> plain res" where
  "plain_link bin lst nx newpair t =
     (let h = p_heap t; new = length h in
      if nx = p_table t ! bin
      then Inr (t\<lparr>p_heap := h @ [newpair\<lparr>e_next := nx\<rparr>], p_table := (p_table t)[bin := Some new]\<rparr>)
      else case lst of
             None \<Rightarrow> Inl NullDeref
           | Some l \<Rightarrow> bindE (deref h l) (\<lambda>e.
               let h' = h[l := e\<lparr>e_next := Some new\<rparr>] in
               if nx = None then Inr (t\<lparr>p_heap := h' @ [newpair]\<rparr>)
               else Inr (t\<lparr>p_heap := h' @ [newpair\<lparr>e_next := nx\<rparr>]\<rparr>)))"

text \<open>
  A pair that could not be made: at the start and in the middle of the chain it is dereferenced,
  at the end it is linked in like any other and is lost.
\<close>

definition plain_link_null :: "nat \<Rightarrow> ptr \<Rightarrow> ptr \<Rightarrow> plain \<Rightarrow> plain res" where
  "plain_link_null bin lst nx t =
     (if nx = p_table t ! bin \<or> nx \<noteq> None then Inl NullDeref
      else case lst of
             None \<Rightarrow> Inl NullDeref
           | Some l \<Rightarrow> bindE (deref (p_heap t) l) (\<lambda>e. Inr (t\<lparr>p_heap := (p_heap t)[l := e\<lparr>e_next := None\<rparr>]\<rparr>)))"

definition plain_set ::
  "(bytes \<Rightarrow> bytes \<Rightarrow> int \<Rightarrow> int \<Rightarrow> plain \<Rightarrow> plain_entry option res) \<Rightarrow> allocator \<Rightarrow> int \<Rightarrow>
   bytes \<Rightarrow> bytes \<Rightarrow> int \<Rightarrow> int \<Rightarrow> plain \<Rightarrow> plain res" where
  "plain_set newp mem m key val ks vs t =
     bindE (plain_bin m t key) (\<lambda>bin.
     bindE (plain_find (Suc (length (p_heap t))) (p_heap t) key None (p_table t ! bin)) (\<lambda>(lst, nx).
     bindE (key_matches (p_heap t) key nx) (\<lambda>hit.
       if hit then
         bindE (deref (p_heap t) (the nx)) (\<lambda>e.
         bindE (plain_replace mem (length (p_heap t)) val vs e) (\<lambda>e'.
           Inr (t\<lparr>p_heap := (p_heap t)[the nx := e']\<rparr>)))
       else
         bindE (newp key val ks vs t) (\<lambda>newpair.
           case newpair of None \<Rightarrow> plain_link_null bin lst nx t | Some np \<Rightarrow> plain_link bin lst nx np t))))"

definition u_ht_set ::
  "allocator \<Rightarrow> int \<Rightarrow> bytes \<Rightarrow> bytes \<Rightarrow> int \<Rightarrow> int \<Rightarrow> plain \<Rightarrow> plain res" where
  "u_ht_set mem g_size = plain_set (u_ht_newpair mem) mem g_size"

definition plain_get :: "int \<Rightarrow> bytes \<Rightarrow> plain \<Rightarrow> ptr res" where
  "plain_get m key t =
     bindE (plain_bin m t key) (\<lambda>bin.
     bindE (plain_find (Suc (length (p_heap t))) (p_heap t) key None (p_table t ! bin)) (\<lambda>(lst, pair).
     bindE (key_matches (p_heap t) key pair) (\<lambda>hit. Inr (if hit then pair else None))))"

text \<open>\<open>exit(0)\<close> on a bad size and on a failed allocation.\<close>

definition u_ht_create :: "allocator \<Rightarrow> int \<Rightarrow> plain res" where
  "u_ht_create mem sz =
     (if sz < 1 then Inl Exited
      else if \<not> mem 0 0 16 then Inl Exited
      else if \<not> mem 0 1 (size_arg (8 * sz)) then Inl Exited
      else Inr \<lparr>p_size = sz, p_table = replicate (nat sz) None, p_heap = [], p_out = []\<rparr>)"

text \<open>
  The pointers \<open>ht_destroy\<close> passes to \<open>free\<close> in its loop: those that are \<open>NULL\<close>. What is an
  address among them is freed.
\<close>

definition plain_destroy :: "plain \<Rightarrow> nat list" where
  "plain_destroy t = List.map_filter (\<lambda>p. if p = None then p else None) (p_table t)"

section \<open>The search is a walk along a chain\<close>

definition find_live :: "plain_entry list \<Rightarrow> bytes \<Rightarrow> ptr \<Rightarrow> bool" where
  "find_live h key p \<longleftrightarrow>
     (case p of
        None \<Rightarrow> False
      | Some a \<Rightarrow> a < length h \<and>
          (case e_key (h ! a) of None \<Rightarrow> False | Some k \<Rightarrow> strcmp_eq key k = Inr False))"

interpretation find: chain_walk "length h" "find_live h key"
  "\<lambda>p. case p of None \<Rightarrow> None | Some a \<Rightarrow> e_next (h ! a)" "\<lambda>p l. p" "\<lambda>p r. r"
  "\<lambda>n p l. plain_find n h key l p" for h key
proof (unfold_locales, goal_cases)
  case (1 p)
  then show ?case by (auto simp: find_live_def split: option.splits)
next
  case (3 p n x)
  then show ?case
    by (cases p) (auto simp: find_live_def deref_def bindE_def split: option.splits sum.splits)
next
  case (4 p x)
  then show ?case
    by (cases p) (auto simp: find_live_def deref_def bindE_def strcmp_eq_defined
        split: option.splits sum.splits)
next
  case (5 p n x)
  then show ?case
    by (cases p) (auto simp: find_live_def deref_def split: option.splits)
qed simp_all

end
