(* ===== verification/Chained_Table.thy ===== *)
theory Chained_Table
  imports Linked_Chain
begin

text \<open>
  Hash tables with chained buckets, for any kind of entry: \<open>nx\<close> is the \<open>next\<close> pointer of an entry,
  \<open>hold e k v\<close> says that the entry represents the pair, \<open>bin\<close> is the hash. A table that is changed
  in one bucket represents a map that is changed in one bucket.
\<close>

definition bucket_of ::
  "('e \<Rightarrow> ptr) \<Rightarrow> ('e \<Rightarrow> 'k \<Rightarrow> 'v \<Rightarrow> bool) \<Rightarrow> ('k \<Rightarrow> nat) \<Rightarrow> 'e list \<Rightarrow> ptr list \<Rightarrow> nat \<Rightarrow> nat list \<Rightarrow>
   ('k \<times> 'v) list \<Rightarrow> bool" where
  "bucket_of nx hold bin h tab i as kvs \<longleftrightarrow>
     chain_of nx h (tab ! i) as \<and> list_all2 (\<lambda>a (k, v). hold (h ! a) k v) as kvs \<and>
     distinct (map fst kvs) \<and> (\<forall>k \<in> fst ` set kvs. bin k = i)"

definition table_of ::
  "('e \<Rightarrow> ptr) \<Rightarrow> ('e \<Rightarrow> 'k \<Rightarrow> 'v \<Rightarrow> bool) \<Rightarrow> ('k \<Rightarrow> nat) \<Rightarrow> nat \<Rightarrow> 'e list \<Rightarrow> ptr list \<Rightarrow>
   (nat \<Rightarrow> nat list) \<Rightarrow> (nat \<Rightarrow> ('k \<times> 'v) list) \<Rightarrow> bool" where
  "table_of nx hold bin n h tab bs kvs \<longleftrightarrow>
     length tab = n \<and> (\<forall>i < n. bucket_of nx hold bin h tab i (bs i) (kvs i)) \<and>
     (\<forall>i < n. \<forall>j < n. i \<noteq> j \<longrightarrow> set (bs i) \<inter> set (bs j) = {})"

lemma bucket_ofD:
  assumes "bucket_of nx hold bin h tab i as kvs"
  shows "chain_of nx h (tab ! i) as" "length as = length kvs" "distinct (map fst kvs)"
    "\<And>n. n < length kvs \<Longrightarrow> hold (h ! (as ! n)) (fst (kvs ! n)) (snd (kvs ! n))"
    "\<And>k. k \<in> fst ` set kvs \<Longrightarrow> bin k = i" "list_all2 (\<lambda>a (k, v). hold (h ! a) k v) as kvs"
  using assms by (auto simp: bucket_of_def list_all2_conv_all_nth split_beta)

lemma table_ofD:
  assumes "table_of nx hold bin n h tab bs kvs"
  shows "length tab = n" "i < n \<Longrightarrow> bucket_of nx hold bin h tab i (bs i) (kvs i)"
    "i < n \<Longrightarrow> j < n \<Longrightarrow> i \<noteq> j \<Longrightarrow> set (bs i) \<inter> set (bs j) = {}"
  using assms by (simp_all add: table_of_def)

lemma table_of_empty:
  "table_of nx hold bin n h (replicate n None) (\<lambda>_. []) (\<lambda>_. [])"
  by (simp add: table_of_def bucket_of_def)

lemma all_holds_append:
  "list_all2 (\<lambda>a (k, v). hold (h ! a) k v) as kvs \<Longrightarrow> (\<forall>a \<in> set as. a < length h) \<Longrightarrow>
   list_all2 (\<lambda>a (k, v). hold ((h @ es) ! a) k v) as kvs"
  by (induction rule: list_all2_induct) (auto simp: nth_append)

text \<open>Where a search for a key stops.\<close>

lemma takeWhile_found:
  assumes "distinct (map fst kvs)" "i < length kvs" "kvs ! i = (k, v)"
  shows "length (takeWhile (\<lambda>kv. fst kv \<noteq> k) kvs) = i"
proof -
  have "takeWhile (\<lambda>kv. fst kv \<noteq> k) kvs = take i kvs"
  proof (rule takeWhile_eq_take_P_nth)
    fix j assume j: "j < i" "j < length kvs"
    then show "fst (kvs ! j) \<noteq> k"
      using assms nth_eq_iff_index_eq [OF assms(1), of j i] by simp
  qed (simp add: assms(3))
  then show ?thesis using assms(2) by simp
qed

lemma takeWhile_absent:
  "k \<notin> fst ` set kvs \<Longrightarrow> length (takeWhile (\<lambda>kv. fst kv \<noteq> k) kvs) = length kvs"
  by (induction kvs) auto

section \<open>A change in one bucket\<close>

lemma table_update:
  assumes r: "table_of nx hold bin n h tab bs kvs" and b: "b < n"
    and own: "bucket_of nx hold bin h' tab' b as' kvs'" and tab: "length tab' = n"
    and fresh: "\<And>a. a \<in> set as' \<Longrightarrow> a \<in> set (bs b) \<or> length h \<le> a"
    and other: "\<And>j. j < n \<Longrightarrow> j \<noteq> b \<Longrightarrow> tab' ! j = tab ! j"
      "\<And>a. a < length h \<Longrightarrow> a \<notin> set (bs b) \<Longrightarrow> a < length h' \<and> h' ! a = h ! a"
  shows "table_of nx hold bin n h' tab' (bs(b := as')) (kvs(b := kvs'))"
proof -
  note D = table_ofD [OF r]
  have same: "a < length h' \<and> h' ! a = h ! a" if "j < n" "j \<noteq> b" "a \<in> set (bs j)" for j a
    using D(3) [OF that(1) b that(2)] that(3) chain_bounds [OF bucket_ofD(1) [OF D(2) [OF that(1)]]]
    by (intro other(2)) auto
  have "bucket_of nx hold bin h' tab' j (bs j) (kvs j)" if j: "j < n" "j \<noteq> b" for j
  proof -
    note J = bucket_ofD [OF D(2) [OF j(1)]]
    have "chain_of nx h' p as" if "chain_of nx h p as" "set as \<subseteq> set (bs j)" for p as
      using that
    proof (induction as arbitrary: p)
      case (Cons a as)
      then show ?case using same [OF j, of a] by auto
    qed simp
    then have "chain_of nx h' (tab' ! j) (bs j)" using J(1) other(1) [OF j] by simp
    moreover have "list_all2 (\<lambda>a (k, v). hold (h' ! a) k v) (bs j) (kvs j)"
      using J(2,4) same [OF j] by (auto simp: list_all2_conv_all_nth split_beta)
    ultimately show ?thesis using J(3,5) by (auto simp: bucket_of_def)
  qed
  moreover have "set ((bs(b := as')) i) \<inter> set ((bs(b := as')) j) = {}" if "i < n" "j < n" "i \<noteq> j" for i j
  proof -
    have "x \<notin> set as' \<or> x \<notin> set (bs l)" if "l < n" "l \<noteq> b" for l x
      using fresh [of x] D(3) [OF that(1) b that(2)] chain_bounds [OF bucket_ofD(1) [OF D(2) [OF that(1)]]]
      by (metis disjoint_iff not_le)
    with that D(3) [OF that] show ?thesis by auto
  qed
  ultimately show ?thesis using own tab by (auto simp: table_of_def)
qed

text \<open>The map of a table: the pairs of the bucket of a key.\<close>

lemma map_update_bucket:
  assumes "map_of kvs' = (map_of (kvs (bin k)))(k \<mapsto> v)"
  shows "map_of ((kvs(bin k := kvs')) (bin x)) x = ((\<lambda>x. map_of (kvs (bin x)) x)(k \<mapsto> v)) x"
  using assms by auto

lemma map_fst_update: "xs ! i = (k, w) \<Longrightarrow> map fst (xs[i := (k, v)]) = map fst xs"
  by (metis fst_conv list_update_id map_update)

text \<open>An entry is overwritten by one that represents another value for its key.\<close>

lemma table_overwrite:
  assumes "table_of nx hold bin n h tab bs kvs" "bin k < n" "i < length (kvs (bin k))"
    "kvs (bin k) ! i = (k, w)" "hold e k v" "nx e = nx (h ! (bs (bin k) ! i))"
  shows "table_of nx hold bin n (h[bs (bin k) ! i := e]) tab bs (kvs(bin k := (kvs (bin k))[i := (k, v)]))"
proof -
  let ?b = "bin k"
  let ?a = "bs ?b ! i"
  note D = table_ofD [OF assms(1)]
  note B = bucket_ofD [OF D(2) [OF assms(2)]]
  have a: "?a < length h" "?a \<in> set (bs ?b)" using chain_bounds [OF B(1)] B(2) assms(3) by simp_all
  have "hold (h[?a := e] ! (bs ?b ! m)) (fst ((kvs ?b)[i := (k, v)] ! m)) (snd ((kvs ?b)[i := (k, v)] ! m))"
    if "m < length (kvs ?b)" for m
  proof (cases "m = i")
    case True
    then show ?thesis using a assms(3,5) by simp
  next
    case False
    then have "?a \<noteq> bs ?b ! m"
      using nth_eq_iff_index_eq [OF chain_distinct [OF B(1)], of i m] B(2) assms(3) that by simp
    then show ?thesis using B(4) [OF that] False by simp
  qed
  then have l: "list_all2 (\<lambda>a (k, v). hold (h[?a := e] ! a) k v) (bs ?b) ((kvs ?b)[i := (k, v)])"
    using B(2) by (simp add: list_all2_conv_all_nth split_beta)
  have k: "map fst ((kvs ?b)[i := (k, v)]) = map fst (kvs ?b)" by (rule map_fst_update [OF assms(4)])
  then have "fst ` set ((kvs ?b)[i := (k, v)]) = fst ` set (kvs ?b)" by (metis list.set_map)
  then have "\<forall>x \<in> fst ` set ((kvs ?b)[i := (k, v)]). bin x = ?b" using B(5) by blast
  then have "bucket_of nx hold bin (h[?a := e]) tab ?b (bs ?b) ((kvs ?b)[i := (k, v)])"
    unfolding bucket_of_def k using chain_update [OF B(1) assms(6)] l B(3) by blast
  then have "table_of nx hold bin n (h[?a := e]) tab (bs(?b := bs ?b)) (kvs(?b := (kvs ?b)[i := (k, v)]))"
  proof (rule table_update [OF assms(1,2) _ D(1)])
    show "x < length (h[?a := e]) \<and> h[?a := e] ! x = h ! x" if "x < length h" "x \<notin> set (bs ?b)" for x
      using that a(2) by (cases "x = ?a") simp_all
  qed simp_all
  then show ?thesis by (simp only: fun_upd_triv)
qed

end
