(* ===== verification/Kv_Interface.thy ===== *)
theory Kv_Interface
  imports Prelude
begin

text \<open>
  The contract of a key-value store, whatever protects its entries: on states that satisfy
  its invariant, a write that is admitted succeeds and changes the represented map at one key,
  and a read answers what the map has. What clients rely on follows once for all stores: after
  a sequence of writes a read answers the last write to its key, and two stores that are given
  the same writes give the same answers.
\<close>

text \<open>A sequence of writes.\<close>

primrec puts :: "('s \<Rightarrow> bytes \<Rightarrow> 'v \<Rightarrow> 's res) \<Rightarrow> 's \<Rightarrow> (bytes \<times> 'v) list \<Rightarrow> 's res" where
  "puts put s [] = Inr s"
| "puts put s (kv # kvs) = bindE (put s (fst kv) (snd kv)) (\<lambda>s'. puts put s' kvs)"

locale kv_store =
  fixes inv :: "'s \<Rightarrow> bool" and look :: "'s \<Rightarrow> bytes \<Rightarrow> 'v option" and admits :: "bytes \<Rightarrow> 'v \<Rightarrow> bool"
    and asks :: "bytes \<Rightarrow> bool"
    and put :: "'s \<Rightarrow> bytes \<Rightarrow> 'v \<Rightarrow> 's res" and get :: "'s \<Rightarrow> bytes \<Rightarrow> 'v option res"
  assumes put_ok: "inv s \<Longrightarrow> admits k v \<Longrightarrow> \<exists>s'. put s k v = Inr s' \<and> inv s' \<and> look s' = (look s)(k \<mapsto> v)"
    and get_ok: "inv s \<Longrightarrow> asks k \<Longrightarrow> get s k = Inr (look s k)"
begin

lemma puts_ok:
  "inv s \<Longrightarrow> (\<And>k v. (k, v) \<in> set kvs \<Longrightarrow> admits k v) \<Longrightarrow>
   \<exists>s'. puts put s kvs = Inr s' \<and> inv s' \<and> look s' = look s ++ map_of (rev kvs)"
proof (induction kvs arbitrary: s)
  case Nil
  then show ?case by simp
next
  case (Cons kv kvs)
  obtain k v where kv: "kv = (k, v)" by (cases kv)
  from put_ok [OF Cons.prems(1), of k v] Cons.prems(2) kv obtain s1
    where s1: "put s k v = Inr s1" "inv s1" "look s1 = (look s)(k \<mapsto> v)" by auto
  from Cons.IH [OF s1(2)] Cons.prems(2) obtain s2
    where "puts put s1 kvs = Inr s2" "inv s2" "look s2 = look s1 ++ map_of (rev kvs)" by auto
  with s1 kv show ?case by (auto simp: map_add_def fun_eq_iff split: option.splits)
qed

lemma read_last_write:
  assumes "inv s" "\<And>k v. (k, v) \<in> set kvs \<Longrightarrow> admits k v" "asks k"
  shows "\<exists>s'. puts put s kvs = Inr s' \<and>
    get s' k = Inr (case map_of (rev kvs) k of Some v \<Rightarrow> Some v | None \<Rightarrow> look s k)"
proof -
  obtain s' where "puts put s kvs = Inr s'" "inv s'" "look s' = look s ++ map_of (rev kvs)"
    using puts_ok [of s kvs] assms(1,2) by auto
  with get_ok [OF _ assms(3)] show ?thesis by (auto simp: map_add_def)
qed

end

text \<open>Two stores with the same kind of values.\<close>

locale kv_pair =
  a: kv_store inv look admits asks put get + b: kv_store inv' look' admits' asks' put' get'
  for inv :: "'s \<Rightarrow> bool" and look :: "'s \<Rightarrow> bytes \<Rightarrow> 'v option" and admits asks put get
    and inv' :: "'t \<Rightarrow> bool" and look' :: "'t \<Rightarrow> bytes \<Rightarrow> 'v option" and admits' asks' put' get'
begin

lemma same_answers:
  assumes "inv s" "inv' s'" "look s = look' s'" "asks k" "asks' k"
    "\<And>k v. (k, v) \<in> set kvs \<Longrightarrow> admits k v \<and> admits' k v"
  shows "\<exists>t t'. puts put s kvs = Inr t \<and> puts put' s' kvs = Inr t' \<and> get t k = get' t' k"
proof -
  obtain t where "puts put s kvs = Inr t" "inv t" "look t = look s ++ map_of (rev kvs)"
    using a.puts_ok [of s kvs] assms(1,6) by auto
  moreover obtain t' where "puts put' s' kvs = Inr t'" "inv' t'" "look' t' = look' s' ++ map_of (rev kvs)"
    using b.puts_ok [of s' kvs] assms(2,6) by auto
  ultimately show ?thesis using assms(3-5) a.get_ok b.get_ok by simp
qed

end

end
