(* ===== verification/Plain_Semantics.thy ===== *)
theory Plain_Semantics
  imports Plain_Table Chained_Table Kv_Interface
begin

text \<open>
  The map that a table without protection represents, and that the insertion and the lookup
  of \<open>Plain_Table\<close> are the update and the application of this map.
\<close>

section \<open>Representation\<close>

text \<open>An entry holds a key and the bytes of a value buffer.\<close>

definition plain_holds :: "plain_entry \<Rightarrow> bytes \<Rightarrow> bytes \<Rightarrow> bool" where
  "plain_holds e k v \<longleftrightarrow> 0 \<notin> set k \<and> e_key e = Some (k @ [0]) \<and> e_key_size e = int (length k) + 1 \<and>
     e_val e = Some v \<and> e_val_size e = int (length v)"

definition pbin :: "plain \<Rightarrow> bytes \<Rightarrow> nat" where
  "pbin t k = nat (ht_hash (p_size t) k)"

abbreviation plain_bucket :: "plain \<Rightarrow> nat \<Rightarrow> nat list \<Rightarrow> (bytes \<times> bytes) list \<Rightarrow> bool" where
  "plain_bucket t \<equiv> bucket_of e_next plain_holds (pbin t) (p_heap t) (p_table t)"

definition plain_rep :: "plain \<Rightarrow> (nat \<Rightarrow> nat list) \<Rightarrow> (nat \<Rightarrow> (bytes \<times> bytes) list) \<Rightarrow> bool" where
  "plain_rep t bs kvs \<longleftrightarrow> 0 < p_size t \<and> p_size t < 2 ^ 31 \<and>
     table_of e_next plain_holds (pbin t) (nat (p_size t)) (p_heap t) (p_table t) bs kvs"

definition plain_pairs :: "plain \<Rightarrow> nat \<Rightarrow> (bytes \<times> bytes) list" where
  "plain_pairs t i =
     (case addrs_of e_next (Suc (length (p_heap t))) (p_heap t) (p_table t ! i) of
        None \<Rightarrow> []
      | Some as \<Rightarrow> map (\<lambda>a. (butlast (the (e_key (p_heap t ! a))), the (e_val (p_heap t ! a)))) as)"

definition plain_map :: "plain \<Rightarrow> bytes \<Rightarrow> bytes option" where
  "plain_map t k = map_of (plain_pairs t (pbin t k)) k"

definition plain_inv :: "plain \<Rightarrow> bool" where
  "plain_inv t \<longleftrightarrow> (\<exists>bs kvs. plain_rep t bs kvs)"

lemma plain_repD:
  assumes "plain_rep t bs kvs"
  shows "0 < p_size t" "p_size t < 2 ^ 31"
    "table_of e_next plain_holds (pbin t) (nat (p_size t)) (p_heap t) (p_table t) bs kvs"
    "length (p_table t) = nat (p_size t)" "pbin t k < nat (p_size t)"
    "0 \<le> ht_hash (p_size t) k" "ht_hash (p_size t) k < p_size t"
  using assms ht_hash_bounds [of "p_size t" k] by (auto simp: plain_rep_def pbin_def table_of_def)

lemma plain_bucket_of:
  "plain_rep t bs kvs \<Longrightarrow> plain_bucket t (pbin t k) (bs (pbin t k)) (kvs (pbin t k))"
  using plain_repD(3,5) table_ofD(2) by blast

lemma map_of_snoc: "k \<notin> fst ` set xs \<Longrightarrow> map_of (xs @ [(k, v)]) = (map_of xs)(k \<mapsto> v)"
  by (induction xs) auto

lemma plain_pairs_rep: "plain_bucket t i as kvs \<Longrightarrow> plain_pairs t i = kvs"
proof -
  assume b: "plain_bucket t i as kvs"
  note B = bucket_ofD [OF b]
  have "map (\<lambda>a. (butlast (the (e_key (p_heap t ! a))), the (e_val (p_heap t ! a)))) as = kvs"
    using B(2,4) by (auto simp: list_eq_iff_nth_eq plain_holds_def)
  with B(1) show ?thesis by (simp add: plain_pairs_def chain_iff_addrs)
qed

lemma plain_map_rep:
  assumes "plain_rep t bs kvs"
  shows "plain_map t k = map_of (kvs (pbin t k)) k"
  using plain_pairs_rep [OF plain_bucket_of [OF assms]]
  by (simp add: plain_map_def)

lemma plain_bin_rep:
  "plain_rep t bs kvs \<Longrightarrow> 0 \<notin> set k \<Longrightarrow> plain_bin (p_size t) t (k @ [0]) = Inr (pbin t k)"
  using plain_repD(1,4,6,7) [of t bs kvs] by (simp add: plain_bin_def c_str_terminated pbin_def)

section \<open>The search\<close>

definition plain_last :: "ptr \<Rightarrow> nat list \<Rightarrow> ptr" where
  "plain_last l as = (if as = [] then l else Some (last as))"

lemma plain_find_chain:
  assumes "chain_of e_next h p as" "length as < n" "0 \<notin> set k"
    "list_all2 (\<lambda>a (k, v). plain_holds (h ! a) k v) as kvs"
  shows "plain_find n h (k @ [0]) l p =
    Inr (let pre = takeWhile (\<lambda>kv. fst kv \<noteq> k) kvs; m = length pre in
         (plain_last l (take m as), if m = length kvs then None else Some (as ! m)))"
  using assms
proof (induction as arbitrary: n p l kvs)
  case Nil
  then show ?case by (cases n) (auto simp: plain_last_def)
next
  case (Cons a as)
  from Cons.prems obtain m k' v' kvs' where m: "n = Suc m" "kvs = (k', v') # kvs'" "plain_holds (h ! a) k' v'"
    "list_all2 (\<lambda>a (k, v). plain_holds (h ! a) k v) as kvs'" "a < length h" "p = Some a"
    "chain_of e_next h (e_next (h ! a)) as" "length as < m"
    by (cases n; cases kvs) auto
  have eq: "strcmp_eq (k @ [0]) (k' @ [0]) = Inr (k = k')"
    using Cons.prems(3) m(3) by (intro strcmp_eq_c_str) (auto simp: plain_holds_def)
  show ?case
  proof (cases "k = k'")
    case True
    then show ?thesis using m eq by (simp add: deref_def plain_holds_def plain_last_def)
  next
    case False
    have "plain_find m h (k @ [0]) (Some a) (e_next (h ! a)) =
        Inr (let pre = takeWhile (\<lambda>kv. fst kv \<noteq> k) kvs'; m = length pre in
         (plain_last (Some a) (take m as), if m = length kvs' then None else Some (as ! m)))"
      by (rule Cons.IH [OF m(7,8) Cons.prems(3) m(4)])
    with False m eq show ?thesis
      by (simp add: deref_def plain_holds_def plain_last_def Let_def)
  qed
qed

text \<open>The two results of the search: the place of the pair with the key, or the end.\<close>

lemma find_rep:
  assumes "plain_rep t bs kvs" "0 \<notin> set k"
  defines "b \<equiv> pbin t k"
  shows "\<And>i v. i < length (kvs b) \<Longrightarrow> kvs b ! i = (k, v) \<Longrightarrow>
      plain_find (Suc (length (p_heap t))) (p_heap t) (k @ [0]) None (p_table t ! b) =
        Inr (plain_last None (take i (bs b)), Some (bs b ! i)) \<and>
      key_matches (p_heap t) (k @ [0]) (Some (bs b ! i)) = Inr True"
    "k \<notin> fst ` set (kvs b) \<Longrightarrow>
      plain_find (Suc (length (p_heap t))) (p_heap t) (k @ [0]) None (p_table t ! b) =
        Inr (plain_last None (bs b), None)"
proof -
  have bk: "plain_bucket t b (bs b) (kvs b)" unfolding b_def using plain_bucket_of [OF assms(1)] .
  note B = bucket_ofD [OF bk]
  note F = plain_find_chain [OF B(1) _ assms(2) B(6), of "Suc (length (p_heap t))" None]
  have len: "length (bs b) < Suc (length (p_heap t))" using chain_length [OF B(1)] by simp
  show "k \<notin> fst ` set (kvs b) \<Longrightarrow>
      plain_find (Suc (length (p_heap t))) (p_heap t) (k @ [0]) None (p_table t ! b) =
        Inr (plain_last None (bs b), None)"
    using F [OF len] takeWhile_absent [of k "kvs b"] B(2) by (simp add: Let_def)
  fix i v assume i: "i < length (kvs b)" "kvs b ! i = (k, v)"
  then have "bs b ! i < length (p_heap t)" using chain_bounds [OF B(1)] B(2) by simp
  moreover have "plain_holds (p_heap t ! (bs b ! i)) k v" using B(4) [OF i(1)] i(2) by simp
  ultimately have "key_matches (p_heap t) (k @ [0]) (Some (bs b ! i)) = Inr True"
    using strcmp_eq_c_str [OF assms(2,2), of "[]" "[]"] by (simp add: key_matches_def deref_def plain_holds_def)
  then show "plain_find (Suc (length (p_heap t))) (p_heap t) (k @ [0]) None (p_table t ! b) =
        Inr (plain_last None (take i (bs b)), Some (bs b ! i)) \<and>
      key_matches (p_heap t) (k @ [0]) (Some (bs b ! i)) = Inr True"
    using F [OF len] takeWhile_found [OF B(3) i] i(1) by (simp add: Let_def)
qed

section \<open>Lookup\<close>

lemma plain_get_rep:
  assumes "plain_rep t bs kvs" "0 \<notin> set k"
  shows "\<exists>p. plain_get (p_size t) (k @ [0]) t = Inr p \<and>
    (case p of None \<Rightarrow> plain_map t k = None
     | Some a \<Rightarrow> a < length (p_heap t) \<and> plain_map t k = e_val (p_heap t ! a) \<and> plain_map t k \<noteq> None)"
proof -
  let ?b = "pbin t k"
  note F = find_rep [OF assms] and P = plain_bin_rep [OF assms]
  note B = bucket_ofD [OF plain_bucket_of [OF assms(1), of k]]
  show ?thesis
  proof (cases "plain_map t k")
    case None
    then have "k \<notin> fst ` set (kvs ?b)" by (simp add: plain_map_rep [OF assms(1)] map_of_eq_None_iff)
    from F(2) [OF this] None P show ?thesis by (simp add: plain_get_def key_matches_def)
  next
    case (Some v)
    then have "(k, v) \<in> set (kvs ?b)" by (simp add: plain_map_rep [OF assms(1)] map_of_SomeD)
    then obtain i where i: "i < length (kvs ?b)" "kvs ?b ! i = (k, v)" by (auto simp: in_set_conv_nth)
    have "plain_holds (p_heap t ! (bs ?b ! i)) k v" using B(4) [OF i(1)] i(2) by simp
    moreover have "bs ?b ! i < length (p_heap t)" using chain_bounds [OF B(1)] B(2) i(1) by simp
    ultimately show ?thesis
      using F(1) [OF i] P Some by (simp add: plain_get_def plain_holds_def)
  qed
qed

section \<open>Insertion\<close>

text \<open>What a function that makes a new pair has to do.\<close>

definition makes_pairs ::
  "(bytes \<Rightarrow> bytes \<Rightarrow> int \<Rightarrow> int \<Rightarrow> plain \<Rightarrow> plain_entry option res) \<Rightarrow> bool" where
  "makes_pairs newp \<longleftrightarrow> (\<forall>k v t. 0 \<notin> set k \<longrightarrow> length k + length v + 1 < 2 ^ 31 \<longrightarrow>
     newp (k @ [0]) v (int (length k) + 1) (int (length v)) t =
       Inr (Some \<lparr>e_key_size = int (length k) + 1, e_val_size = int (length v), e_key = Some (k @ [0]),
                  e_val = Some v, e_next = None\<rparr>))"

lemma plain_replace_holds:
  assumes "plain_holds e k w" "length v < 2 ^ 31" "\<And>n j x. mem n j x"
  shows "\<exists>e'. plain_replace mem n v (int (length v)) e = Inr e' \<and> plain_holds e' k v \<and> e_next e' = e_next e"
proof -
  have "size_arg (int (length v)) = length v" using assms(2) by (intro size_arg_nat) simp
  with assms(1,3) show ?thesis by (auto simp: plain_replace_def plain_holds_def memread_def)
qed

lemma overwrite_plain_rep:
  assumes "plain_rep t bs kvs" "i < length (kvs (pbin t k))" "kvs (pbin t k) ! i = (k, w)"
    "plain_holds e k v" "e_next e = e_next (p_heap t ! (bs (pbin t k) ! i))"
  shows "plain_rep (t\<lparr>p_heap := (p_heap t)[bs (pbin t k) ! i := e]\<rparr>) bs
    (kvs(pbin t k := (kvs (pbin t k))[i := (k, v)]))"
proof -
  note D = plain_repD [OF assms(1)]
  have p: "pbin (t\<lparr>p_heap := h\<rparr>) = pbin t" for h by (rule ext) (simp add: pbin_def)
  from table_overwrite [OF D(3) D(5) assms(2-5)] D(1,2) show ?thesis by (simp add: plain_rep_def p)
qed

lemma plain_set_update:
  assumes "plain_rep t bs kvs" "0 \<notin> set k" "length v < 2 ^ 31" "\<And>n j x. mem n j x"
    "i < length (kvs (pbin t k))" "kvs (pbin t k) ! i = (k, w)"
  shows "\<exists>t'. plain_set newp mem (p_size t) (k @ [0]) v ks (int (length v)) t = Inr t' \<and>
    plain_rep t' bs (kvs(pbin t k := (kvs (pbin t k))[i := (k, v)])) \<and> p_size t' = p_size t \<and> p_out t' = p_out t"
proof -
  let ?b = "pbin t k"
  let ?a = "bs ?b ! i"
  note B = bucket_ofD [OF plain_bucket_of [OF assms(1), of k]]
  have a: "?a < length (p_heap t)" using chain_bounds [OF B(1)] B(2) assms(5) by simp
  have "plain_holds (p_heap t ! ?a) k w" using B(4) [OF assms(5)] assms(6) by simp
  from plain_replace_holds [where mem = mem and n = "length (p_heap t)", OF this assms(3,4)] obtain e where e:
    "plain_replace mem (length (p_heap t)) v (int (length v)) (p_heap t ! ?a) = Inr e"
    "plain_holds e k v" "e_next e = e_next (p_heap t ! ?a)" by auto
  have "plain_set newp mem (p_size t) (k @ [0]) v ks (int (length v)) t = Inr (t\<lparr>p_heap := (p_heap t)[?a := e]\<rparr>)"
    using find_rep(1) [OF assms(1,2,5,6)] plain_bin_rep [OF assms(1,2)] a e(1)
    by (simp add: plain_set_def deref_def)
  with overwrite_plain_rep [OF assms(1,5,6) e(2,3)] show ?thesis by simp
qed

text \<open>A new pair at the end of its chain; \<open>h\<close> is the memory with the last pair of the chain changed.\<close>

lemma insert_plain_rep:
  assumes "plain_rep t bs kvs" "k \<notin> fst ` set (kvs (pbin t k))" "plain_holds e k v"
    and h: "length h = length (p_heap t)" "\<And>a k v. plain_holds (p_heap t ! a) k v \<Longrightarrow> plain_holds (h ! a) k v"
      "\<And>a. a \<notin> set (bs (pbin t k)) \<Longrightarrow> h ! a = p_heap t ! a"
    and tab: "length tab = length (p_table t)" "\<And>j. j \<noteq> pbin t k \<Longrightarrow> tab ! j = p_table t ! j"
    and own: "chain_of e_next (h @ [e]) (tab ! pbin t k) (bs (pbin t k) @ [length h])"
  shows "plain_rep (t\<lparr>p_heap := h @ [e], p_table := tab\<rparr>) (bs(pbin t k := bs (pbin t k) @ [length h]))
    (kvs(pbin t k := kvs (pbin t k) @ [(k, v)]))"
proof -
  let ?b = "pbin t k"
  note D = plain_repD [OF assms(1)]
  note B = bucket_ofD [OF plain_bucket_of [OF assms(1), of k]]
  have "list_all2 (\<lambda>a (k, v). plain_holds (h ! a) k v) (bs ?b) (kvs ?b)"
    using B(2,4) h(2) by (simp add: list_all2_conv_all_nth split_beta)
  then have "list_all2 (\<lambda>a (k, v). plain_holds ((h @ [e]) ! a) k v) (bs ?b) (kvs ?b)"
    using chain_bounds [OF B(1)] h(1) by (intro all_holds_append) simp_all
  then have "list_all2 (\<lambda>a (k, v). plain_holds ((h @ [e]) ! a) k v) (bs ?b @ [length h]) (kvs ?b @ [(k, v)])"
    using assms(3) by (intro list_all2_appendI) simp_all
  moreover have "\<forall>x \<in> fst ` set (kvs ?b @ [(k, v)]). pbin t x = ?b"
  proof
    fix x assume "x \<in> fst ` set (kvs ?b @ [(k, v)])"
    then have "x = k \<or> x \<in> fst ` set (kvs ?b)" by simp
    then show "pbin t x = ?b" using B(5) [of x] by blast
  qed
  moreover have "distinct (map fst (kvs ?b @ [(k, v)]))" using B(3) assms(2) by simp
  ultimately have "bucket_of e_next plain_holds (pbin t) (h @ [e]) tab ?b (bs ?b @ [length h]) (kvs ?b @ [(k, v)])"
    unfolding bucket_of_def using own by blast
  then have "table_of e_next plain_holds (pbin t) (nat (p_size t)) (h @ [e]) tab
      (bs(?b := bs ?b @ [length h])) (kvs(?b := kvs ?b @ [(k, v)]))"
    using tab D(4) h(1,3) by (intro table_update [OF D(3) D(5)]) (auto simp: nth_append)
  moreover have "pbin (t\<lparr>p_heap := h @ [e], p_table := tab\<rparr>) = pbin t" by (rule ext) (simp add: pbin_def)
  ultimately show ?thesis using D(1,2) by (simp add: plain_rep_def)
qed

lemma plain_holds_next [simp]: "plain_holds (e\<lparr>e_next := p\<rparr>) k v = plain_holds e k v"
  by (simp add: plain_holds_def)

lemma plain_link_rep:
  assumes "plain_rep t bs kvs" "k \<notin> fst ` set (kvs (pbin t k))" "plain_holds e k v" "e_next e = None"
  shows "\<exists>t' bs'. plain_link (pbin t k) (plain_last None (bs (pbin t k))) None e t = Inr t' \<and>
    plain_rep t' bs' (kvs(pbin t k := kvs (pbin t k) @ [(k, v)])) \<and> p_size t' = p_size t \<and> p_out t' = p_out t"
proof -
  let ?b = "pbin t k" and ?h = "p_heap t"
  note D = plain_repD [OF assms(1)]
  note B = bucket_ofD [OF plain_bucket_of [OF assms(1), of k]]
  show ?thesis
  proof (cases "bs ?b = []")
    case True
    then have n: "p_table t ! ?b = None" using B(1) by simp
    let ?t = "t\<lparr>p_heap := ?h @ [e], p_table := (p_table t)[?b := Some (length ?h)]\<rparr>"
    have "plain_rep ?t (bs(?b := bs ?b @ [length ?h])) (kvs(?b := kvs ?b @ [(k, v)]))"
      using True assms(4) D(4) D(5) [of k] by (intro insert_plain_rep [OF assms(1-3)]) (auto simp: nth_append)
    moreover have "e\<lparr>e_next := None\<rparr> = e" using assms(4) by simp
    ultimately show ?thesis using n by (auto simp: plain_link_def Let_def)
  next
    case False
    let ?l = "last (bs ?b)"
    let ?e = "(?h ! ?l)\<lparr>e_next := Some (length ?h)\<rparr>"
    let ?h' = "?h[?l := ?e]"
    have l: "?l < length ?h" using chain_bounds [OF B(1)] False by simp
    have nn: "p_table t ! ?b \<noteq> None" using B(1) False by (cases "bs ?b") auto
    have "plain_rep (t\<lparr>p_heap := ?h' @ [e], p_table := p_table t\<rparr>) (bs(?b := bs ?b @ [length ?h'])) (kvs(?b := kvs ?b @ [(k, v)]))"
    proof (rule insert_plain_rep [OF assms(1-3)])
      show "plain_holds (?h' ! a) k v" if "plain_holds (?h ! a) k v" for a k v
        using that l by (cases "a = ?l") simp_all
      show "chain_of e_next (?h' @ [e]) (p_table t ! ?b) (bs ?b @ [length ?h'])"
        using chain_snoc [OF B(1) False, of ?e e] assms(4) by simp
      show "?h' ! a = ?h ! a" if "a \<notin> set (bs ?b)" for a
        using that False by (cases "a = ?l") auto
    qed simp_all
    moreover have "plain_link ?b (plain_last None (bs ?b)) None e t = Inr (t\<lparr>p_heap := ?h' @ [e]\<rparr>)"
      using nn l False by (auto simp: plain_link_def plain_last_def deref_def Let_def)
    ultimately show ?thesis by auto
  qed
qed

lemma plain_set_rep:
  assumes "plain_rep t bs kvs" "0 \<notin> set k" "length k + length v + 1 < 2 ^ 31" "\<And>n j x. mem n j x"
    "makes_pairs newp"
  shows "\<exists>t'. plain_set newp mem (p_size t) (k @ [0]) v (int (length k) + 1) (int (length v)) t = Inr t' \<and>
    plain_inv t' \<and> plain_map t' = (plain_map t)(k \<mapsto> v) \<and> p_size t' = p_size t \<and> p_out t' = p_out t"
proof -
  let ?b = "pbin t k"
  note D = plain_repD [OF assms(1)] and M = plain_map_rep [OF assms(1)]
  note B = bucket_ofD [OF plain_bucket_of [OF assms(1), of k]]
  have "\<exists>t' bs' l. plain_set newp mem (p_size t) (k @ [0]) v (int (length k) + 1) (int (length v)) t = Inr t' \<and>
    plain_rep t' bs' (kvs(?b := l)) \<and> map_of l = (map_of (kvs ?b))(k \<mapsto> v) \<and>
    p_size t' = p_size t \<and> p_out t' = p_out t"
  proof (cases "k \<in> fst ` set (kvs ?b)")
    case True
    then obtain w i where i: "i < length (kvs ?b)" "kvs ?b ! i = (k, w)" by (force simp: in_set_conv_nth)
    have "length v < 2 ^ 31" using assms(3) by simp
    from plain_set_update [where mem = mem and newp = newp and ks = "int (length k) + 1", OF assms(1,2) this assms(4) i]
    obtain t' where t': "plain_set newp mem (p_size t) (k @ [0]) v (int (length k) + 1) (int (length v)) t = Inr t'"
      "plain_rep t' bs (kvs(?b := (kvs ?b)[i := (k, v)]))" "p_size t' = p_size t" "p_out t' = p_out t" by blast
    have "map_of ((kvs ?b)[i := (k, v)]) = (map_of (kvs ?b))(k \<mapsto> v)"
      using i(2) by (intro map_of_map_upd_nth [OF B(3) i(1)]) simp
    with t' show ?thesis by blast
  next
    case False
    define e where "e = \<lparr>e_key_size = int (length k) + 1, e_val_size = int (length v), e_key = Some (k @ [0]),
      e_val = Some v, e_next = None\<rparr>"
    have e: "plain_holds e k v" "e_next e = None" using assms(2) by (simp_all add: e_def plain_holds_def)
    have "newp (k @ [0]) v (int (length k) + 1) (int (length v)) t = Inr (Some e)"
      using assms(5,2,3) unfolding makes_pairs_def e_def by blast
    with find_rep(2) [OF assms(1,2) False] plain_bin_rep [OF assms(1,2)]
    have "plain_set newp mem (p_size t) (k @ [0]) v (int (length k) + 1) (int (length v)) t =
        plain_link ?b (plain_last None (bs ?b)) None e t"
      by (simp add: plain_set_def key_matches_def)
    moreover have "map_of (kvs ?b @ [(k, v)]) = (map_of (kvs ?b))(k \<mapsto> v)"
      using False by (rule map_of_snoc)
    ultimately show ?thesis using plain_link_rep [OF assms(1) False e] by metis
  qed
  then obtain t' bs' l where t: "plain_set newp mem (p_size t) (k @ [0]) v (int (length k) + 1) (int (length v)) t = Inr t'"
    "plain_rep t' bs' (kvs(?b := l))" "map_of l = (map_of (kvs ?b))(k \<mapsto> v)"
    "p_size t' = p_size t" "p_out t' = p_out t" by blast
  have "plain_map t' x = ((plain_map t)(k \<mapsto> v)) x" for x
    using plain_map_rep [OF t(2), of x] M [of x] t(3,4) by (auto simp: pbin_def)
  then have "plain_map t' = (plain_map t)(k \<mapsto> v)" by blast
  with t show ?thesis unfolding plain_inv_def by blast
qed

end
