(* ===== verification/Plain_Programs.thy ===== *)
theory Plain_Programs
  imports Plain_Semantics C_Library
begin

text \<open>
  The two programs of \<open>Experiment/Motivation\<close> that run a workload on the table without
  protection: \<open>Unsecure_kvs/server.c\<close>, and \<open>Baseline_kvs\<close>, which keeps the table in an enclave.
  A workload is two files of lines, SET lines to load and GET lines to run. The copies of a key
  and a value that a line is cut into are taken to be allocated; timing and its log are left out.
\<close>

section \<open>Lines\<close>

definition BUF_SIZE :: nat where
  "BUF_SIZE = 64"

text \<open>
  A line of the load file: the command is compared, the key is cut off, and the value buffer is
  made of the rest by \<open>mkval\<close>, in which the two programs differ.
\<close>

definition load_line ::
  "(bytes \<Rightarrow> bytes res) \<Rightarrow> (bytes \<Rightarrow> bytes \<Rightarrow> int \<Rightarrow> int \<Rightarrow> plain \<Rightarrow> plain res) \<Rightarrow> string \<Rightarrow>
   bytes \<Rightarrow> plain \<Rightarrow> plain res" where
  "load_line mkval set_pair invalid line t =
     bindE (memread BUF_SIZE line) (\<lambda>buf.
     bindE (is_command 3 ''SET'' ''set'' buf) (\<lambda>is_set.
     if is_set then
       bindE (parse_key buf) (\<lambda>(key, temp, _).
       case temp of
         None \<Rightarrow> Inl Unspecified
       | Some r \<Rightarrow>
           bindE (c_str r) (\<lambda>s.
           bindE (mkval s) (\<lambda>val. set_pair key val (int (length key)) (int (length val)) t)))
     else Inr (p_print invalid t)))"

text \<open>A line of the run file: the last character of the key, the newline, is dropped.\<close>

definition run_line :: "(bytes \<Rightarrow> plain \<Rightarrow> ptr res) \<Rightarrow> string \<Rightarrow> bytes \<Rightarrow> plain \<Rightarrow> plain res" where
  "run_line get_pair invalid line t =
     bindE (memread BUF_SIZE line) (\<lambda>buf.
     bindE (is_command 3 ''GET'' ''get'' buf) (\<lambda>is_get.
     if is_get then
       bindE (parse_key buf) (\<lambda>(tok, temp, _).
       let key = butlast (butlast tok) @ [0] in
       bindE (get_pair key t) (\<lambda>ret_entry.
         Inr (if ret_entry = None then p_print ''No data'' t else t)))
     else Inr (p_print invalid t)))"

primrec each_line :: "(bytes \<Rightarrow> plain \<Rightarrow> plain res) \<Rightarrow> bytes list \<Rightarrow> plain \<Rightarrow> plain res" where
  "each_line f [] t = Inr t"
| "each_line f (l # ls) t = bindE (f l t) (\<lambda>t'. each_line f ls t')"

section \<open>Unsecure_kvs\<close>

definition u_mkval :: "bytes \<Rightarrow> bytes res" where
  "u_mkval s = Inr (s @ [0])"

definition u_load :: "allocator \<Rightarrow> int \<Rightarrow> bytes list \<Rightarrow> plain \<Rightarrow> plain res" where
  "u_load mem g_size inst t =
     bindE (each_line (load_line u_mkval (u_ht_set mem g_size) ''Invalid load command'') inst t) (\<lambda>t'.
       Inr (p_print ''Load Process has done'' t'))"

definition u_run :: "int \<Rightarrow> bytes list \<Rightarrow> plain \<Rightarrow> plain res" where
  "u_run g_size inst2 t =
     bindE (each_line (run_line (plain_get g_size) ''Invalid run command'') inst2 t) (\<lambda>t'.
       Inr (p_print ''Run Process has done'' t'))"

text \<open>
  \<open>file_to_memory\<close>: the file name is printed into thirty bytes, a file that is missing is read
  through a null pointer, and \<open>16384 * atoi(workload)\<close> and ten million lines are read. \<open>junk\<close> is
  what the line buffer held before.
\<close>

definition file_to_memory ::
  "(nat \<Rightarrow> bool) \<Rightarrow> (string \<Rightarrow> bytes option) \<Rightarrow> bytes \<Rightarrow> string \<Rightarrow> (bytes list \<times> bytes list) res" where
  "file_to_memory mem files junk workload =
     (let set_size = 16384 * atoi workload; set_size2 = 10000000;
          name = ''../workloads/load_'' @ workload @ ''.txt'';
          name2 = ''../workloads/run_'' @ workload @ ''.txt'' in
      bindE (requireE (set_size \<le> 0 \<or> mem (size_arg (8 * set_size)) \<and> mem BUF_SIZE) NullDeref) (\<lambda>_.
      bindE (requireE (mem (size_arg (8 * set_size2)) \<and> mem BUF_SIZE) NullDeref) (\<lambda>_.
      bindE (requireE (length name < 30) OutOfBounds) (\<lambda>_.
      case files name of
        None \<Rightarrow> Inl NullDeref
      | Some f \<Rightarrow>
          let inst = read_lines (nat set_size) BUF_SIZE junk f;
              buf = (if inst = [] then junk else last inst) in
          case files name2 of
            None \<Rightarrow> Inl NullDeref
          | Some f2 \<Rightarrow> Inr (inst, read_lines (nat set_size2) BUF_SIZE buf f2)))))"

text \<open>\<open>main\<close>: without an argument the usage is printed and the missing argument is used.\<close>

definition u_main ::
  "allocator \<Rightarrow> (nat \<Rightarrow> bool) \<Rightarrow> (string \<Rightarrow> bytes option) \<Rightarrow> bytes \<Rightarrow> string list \<Rightarrow> (plain \<times> nat list) res" where
  "u_main mem amem files junk args =
     (let g_size = 1048576 in
      bindE (u_ht_create mem g_size) (\<lambda>t.
      let t0 = p_print ''HT is created!'' t;
          t1 = (if length args \<noteq> 1
                then p_print ''Usage: ./app [workload] : workload <-- 16, 32, 48, ... , 4096'' t0 else t0) in
      case args of
        [] \<Rightarrow> Inl NullDeref
      | workload # _ \<Rightarrow>
          bindE (file_to_memory amem files junk workload) (\<lambda>(inst, inst2).
          bindE (u_load mem g_size inst t1) (\<lambda>t2.
          bindE (u_run g_size inst2 t2) (\<lambda>t3. Inr (t3, plain_destroy t3))))))"

section \<open>Baseline_kvs\<close>

text \<open>In the enclave, failed allocations are printed and then used.\<close>

definition b_ht_create :: "allocator \<Rightarrow> int \<Rightarrow> plain res" where
  "b_ht_create mem sz =
     (if \<not> mem 0 0 16 then Inl NullDeref
      else if \<not> mem 0 1 (size_arg (8 * sz)) \<and> 0 < sz then Inl NullDeref
      else Inr \<lparr>p_size = sz, p_table = replicate (nat sz) None, p_heap = [],
                p_out = (if sz < 1 then [''Size of hashtable is negative''] else []) @
                  (if \<not> mem 0 1 (size_arg (8 * sz)) then [''Array of Pointers is not allocated''] else [])\<rparr>)"

definition b_ht_newpair ::
  "allocator \<Rightarrow> bytes \<Rightarrow> bytes \<Rightarrow> int \<Rightarrow> int \<Rightarrow> plain \<Rightarrow> plain_entry option res" where
  "b_ht_newpair mem key val ks vs t =
     (let n = length (p_heap t) in
      if \<not> mem n 0 32 then Inl NullDeref
      else if \<not> mem n 1 (size_arg ks) then Inr None
      else if \<not> mem n 2 (size_arg vs) then Inr None
      else bindE (memread (size_arg ks) key) (\<lambda>k.
           bindE (memread (size_arg vs) val) (\<lambda>v.
             Inr (Some \<lparr>e_key_size = ks, e_val_size = vs, e_key = Some k, e_val = Some v, e_next = None\<rparr>))))"

definition b_ht_set :: "allocator \<Rightarrow> bytes \<Rightarrow> bytes \<Rightarrow> int \<Rightarrow> int \<Rightarrow> plain \<Rightarrow> plain res" where
  "b_ht_set mem key val ks vs t = plain_set (b_ht_newpair mem) mem (p_size t) key val ks vs t"

definition b_ht_get :: "bytes \<Rightarrow> plain \<Rightarrow> ptr res" where
  "b_ht_get key t = plain_get (p_size t) key t"

text \<open>\<open>ht_destroy(size)\<close>: the loop over the first \<open>size\<close> buckets.\<close>

definition b_ht_destroy :: "int \<Rightarrow> plain \<Rightarrow> nat list res" where
  "b_ht_destroy sz t =
     bindE (requireE (nat sz \<le> length (p_table t)) OutOfBounds) (\<lambda>_.
       Inr (plain_destroy (t\<lparr>p_table := take (nat sz) (p_table t)\<rparr>)))"

text \<open>
  The value loses its last character, the newline; of an empty rest, \<open>memcpy\<close> is asked to copy
  \<open>(size_t)-1\<close> bytes.
\<close>

definition b_mkval :: "bytes \<Rightarrow> bytes res" where
  "b_mkval s = (if s = [] then Inl OutOfBounds else Inr (butlast s @ [0]))"

text \<open>\<open>enclave_process\<close>; the counts are eight times the numbers of lines.\<close>

definition b_enclave_process ::
  "allocator \<Rightarrow> int \<Rightarrow> bytes list \<Rightarrow> int \<Rightarrow> bytes list \<Rightarrow> plain \<Rightarrow> plain res" where
  "b_enclave_process mem count inst count2 inst2 t =
     (let n = nat (c_div count 8); n2 = nat (c_div count2 8) in
      bindE (requireE (n \<le> length inst \<and> n2 \<le> length inst2) OutOfBounds) (\<lambda>_.
      bindE (each_line (load_line b_mkval (b_ht_set mem) ''Invalid load command'') (take n inst) t) (\<lambda>t1.
      bindE (each_line (run_line b_ht_get ''Invalid run command'') (take n2 inst2)
               (p_print ''Load Process has done'' t1)) (\<lambda>t2.
        Inr (p_print ''Run Process has done'' t2)))))"

text \<open>
  \<open>main\<close> of the application, with the status of loading the enclave; its result is the return
  value and the final table.
\<close>

definition b_main ::
  "bool \<Rightarrow> allocator \<Rightarrow> (nat \<Rightarrow> bool) \<Rightarrow> (string \<Rightarrow> bytes option) \<Rightarrow> bytes \<Rightarrow> string list \<Rightarrow>
   (int \<times> (plain \<times> nat list) option) res" where
  "b_main loaded mem amem files junk args =
     (if \<not> loaded then Inr (- 1, None)
      else bindE (b_ht_create mem 1048576) (\<lambda>t.
      case args of
        [workload] \<Rightarrow>
          bindE (file_to_memory amem files junk workload) (\<lambda>(inst, inst2).
          bindE (b_enclave_process mem (8 * int (length inst)) inst (8 * int (length inst2)) inst2
                   (p_print ''HT is created!'' t)) (\<lambda>t1.
          bindE (b_ht_destroy 1048576 t1) (\<lambda>freed. Inr (0, Some (t1, freed)))))
      | _ \<Rightarrow> Inl Exited))"

end
