(* ===== verification/Plain_Correct.thy ===== *)
theory Plain_Correct
  imports Plain_Programs
begin

text \<open>
  The programs with the unprotected table run a workload as a map would: the load lines are
  its updates, in order, and a run line reports \<open>No data\<close> exactly for a key that was not loaded.
  Both tables meet the contract of a key-value store.
\<close>

section \<open>The tables as key-value stores\<close>

definition no_fail :: allocator where
  "no_fail n j x \<longleftrightarrow> True"

definition plain_admits :: "bytes \<Rightarrow> bytes \<Rightarrow> bool" where
  "plain_admits k v \<longleftrightarrow> 0 \<notin> set k \<and> length k + length v + 1 < 2 ^ 31"

definition plain_asks :: "bytes \<Rightarrow> bool" where
  "plain_asks k \<longleftrightarrow> 0 \<notin> set k"

definition plain_state :: "int \<Rightarrow> string list \<Rightarrow> plain \<Rightarrow> bool" where
  "plain_state sz msgs t \<longleftrightarrow> plain_inv t \<and> p_size t = sz \<and> p_out t = msgs"

text \<open>The value an answer of \<open>ht_get\<close> points to.\<close>

definition answer_of :: "plain \<Rightarrow> ptr \<Rightarrow> bytes option" where
  "answer_of t p = (case p of None \<Rightarrow> None | Some a \<Rightarrow> e_val (p_heap t ! a))"

definition u_put :: "plain \<Rightarrow> bytes \<Rightarrow> bytes \<Rightarrow> plain res" where
  "u_put t k v = u_ht_set no_fail (p_size t) (k @ [0]) v (int (length k) + 1) (int (length v)) t"

definition b_put :: "plain \<Rightarrow> bytes \<Rightarrow> bytes \<Rightarrow> plain res" where
  "b_put t k v = b_ht_set no_fail (k @ [0]) v (int (length k) + 1) (int (length v)) t"

definition plain_fetch :: "plain \<Rightarrow> bytes \<Rightarrow> bytes option res" where
  "plain_fetch t k = bindE (plain_get (p_size t) (k @ [0]) t) (\<lambda>p. Inr (answer_of t p))"

lemma size_arg_Suc [simp]: "n + 1 < 2 ^ 31 \<Longrightarrow> size_arg (int n + 1) = Suc n"
  using size_arg_nat [of "Suc n"] by (simp add: add.commute)

lemma makes_pairs_programs: "makes_pairs (u_ht_newpair no_fail)" "makes_pairs (b_ht_newpair no_fail)"
proof -
  have s: "size_arg (int (length k) + 1) = Suc (length k) \<and> size_arg (int (length v)) = length v"
    if "length k + length v + 1 < 2 ^ 31" for k v :: bytes
    using that by (intro conjI size_arg_Suc size_arg_nat) simp_all
  show "makes_pairs (u_ht_newpair no_fail)" "makes_pairs (b_ht_newpair no_fail)"
    unfolding makes_pairs_def u_ht_newpair_def b_ht_newpair_def Let_def
    by (use s in \<open>auto simp: no_fail_def memread_def\<close>)
qed

lemma plain_put:
  assumes "plain_state sz msgs t" "plain_admits k v"
  shows "\<exists>t'. u_put t k v = Inr t' \<and> plain_state sz msgs t' \<and> plain_map t' = (plain_map t)(k \<mapsto> v)"
    "\<exists>t'. b_put t k v = Inr t' \<and> plain_state sz msgs t' \<and> plain_map t' = (plain_map t)(k \<mapsto> v)"
proof -
  obtain bs kvs where r: "plain_rep t bs kvs" using assms(1) by (auto simp: plain_state_def plain_inv_def)
  have f: "\<And>n j x. no_fail n j x" by (simp add: no_fail_def)
  have a: "0 \<notin> set k" "length k + length v + 1 < 2 ^ 31" using assms(2) by (simp_all add: plain_admits_def)
  note S = plain_set_rep [where mem = no_fail, OF r a f]
  show "\<exists>t'. u_put t k v = Inr t' \<and> plain_state sz msgs t' \<and> plain_map t' = (plain_map t)(k \<mapsto> v)"
    using S [OF makes_pairs_programs(1)] assms(1) by (auto simp: u_put_def u_ht_set_def plain_state_def)
  show "\<exists>t'. b_put t k v = Inr t' \<and> plain_state sz msgs t' \<and> plain_map t' = (plain_map t)(k \<mapsto> v)"
    using S [OF makes_pairs_programs(2)] assms(1) by (auto simp: b_put_def b_ht_set_def plain_state_def)
qed

lemma plain_fetch_ok:
  assumes "plain_state sz msgs t" "plain_asks k"
  shows "plain_fetch t k = Inr (plain_map t k)"
proof -
  obtain bs kvs where r: "plain_rep t bs kvs" using assms(1) by (auto simp: plain_state_def plain_inv_def)
  have "0 \<notin> set k" using assms(2) by (simp add: plain_asks_def)
  from plain_get_rep [OF r this] show ?thesis
    by (auto simp: plain_fetch_def answer_of_def split: option.splits)
qed

interpretation unsecure: kv_store "plain_state sz msgs" plain_map plain_admits plain_asks u_put plain_fetch
  for sz msgs
  using plain_put(1) plain_fetch_ok by unfold_locales auto

interpretation baseline: kv_store "plain_state sz msgs" plain_map plain_admits plain_asks b_put plain_fetch
  for sz msgs
  using plain_put(2) plain_fetch_ok by unfold_locales auto

section \<open>Lines\<close>

definition set_line :: "bytes \<times> bytes \<Rightarrow> bytes" where
  "set_line kv = pad BUF_SIZE (lit ''SET '' @ fst kv @ blank # snd kv @ [newline])"

definition get_line :: "bytes \<Rightarrow> bytes" where
  "get_line k = pad BUF_SIZE (lit ''GET '' @ k @ [newline])"

text \<open>A key and a value that fit a line, without blanks and newlines where they would end it.\<close>

definition line_ok :: "bytes \<times> bytes \<Rightarrow> bool" where
  "line_ok kv \<longleftrightarrow> plain_word (fst kv) \<and> 0 \<notin> set (snd kv) \<and> length (fst kv) + length (snd kv) + 6 < BUF_SIZE"

definition key_ok :: "bytes \<Rightarrow> bool" where
  "key_ok k \<longleftrightarrow> plain_word k \<and> length k + 5 < BUF_SIZE"

lemma set_line_request:
  "line_ok kv \<Longrightarrow> \<exists>rest. set_line kv = kv_request (lit ''SET '') (fst kv) (snd kv @ [newline]) rest"
  by (auto simp: set_line_def line_ok_def pad_split kv_request_def lit_def)

lemma get_line_request:
  "key_ok k \<Longrightarrow> \<exists>rest. get_line k = key_request (lit ''GET '') (k @ [newline]) rest"
  by (auto simp: get_line_def key_ok_def pad_split key_request_def lit_def)

lemma length_lines: "line_ok kv \<Longrightarrow> length (set_line kv) = BUF_SIZE" "key_ok k \<Longrightarrow> length (get_line k) = BUF_SIZE"
  by (simp_all add: set_line_def get_line_def pad_def line_ok_def key_ok_def lit_def BUF_SIZE_def)

lemma load_set_line:
  assumes "line_ok kv"
  shows "load_line mkval sp invalid (set_line kv) t =
    bindE (mkval (snd kv @ [newline])) (\<lambda>val. sp (fst kv @ [0]) val (int (length (fst kv)) + 1) (int (length val)) t)"
proof -
  obtain rest where r: "set_line kv = kv_request (lit ''SET '') (fst kv) (snd kv @ [newline]) rest"
    using set_line_request [OF assms] by blast
  have c: "is_command 3 ''SET'' ''set'' (set_line kv) = Inr True"
    by (simp add: r kv_request_def is_command_def lit_def)
  have k: "plain_word (fst kv)" "0 \<notin> set (snd kv @ [newline])"
    using assms by (auto simp: line_ok_def newline_def)
  have m: "memread BUF_SIZE (set_line kv) = Inr (set_line kv)"
    using length_lines(1) [OF assms] by (simp add: memread_def)
  have "c_str ((snd kv @ [newline]) @ 0 # rest) = Inr (snd kv @ [newline])"
    using k(2) by (rule c_str_terminated)
  moreover have "parse_key (set_line kv) = Inr (fst kv @ [0], Some ((snd kv @ [newline]) @ 0 # rest),
      lit ''SET '' @ fst kv @ 0 # (snd kv @ [newline]) @ 0 # rest)"
    unfolding r by (rule parse_kv_request [OF _ k(1)]) (simp add: lit_def)
  ultimately show ?thesis by (simp add: load_line_def m c add.commute)
qed

lemma run_get_line:
  assumes "key_ok k"
  shows "run_line gp invalid (get_line k) t =
    bindE (gp (k @ [0]) t) (\<lambda>r. Inr (if r = None then p_print ''No data'' t else t))"
proof -
  obtain rest where r: "get_line k = key_request (lit ''GET '') (k @ [newline]) rest"
    using get_line_request [OF assms] by blast
  have c: "is_command 3 ''GET'' ''get'' (get_line k) = Inr True"
    by (simp add: r key_request_def is_command_def lit_def)
  have k: "plain_word (k @ [newline])" using assms by (auto simp: key_ok_def plain_word_def newline_def blank_def)
  have m: "memread BUF_SIZE (get_line k) = Inr (get_line k)"
    using length_lines(2) [OF assms] by (simp add: memread_def)
  have "parse_key (get_line k) = Inr ((k @ [newline]) @ [0], None, get_line k)"
    unfolding r by (rule parse_key_request [OF _ k]) (simp add: lit_def)
  then show ?thesis by (simp add: run_line_def m c butlast_append)
qed

section \<open>Workloads\<close>

text \<open>Loading is a sequence of writes.\<close>

lemma each_line_puts:
  assumes "\<And>x t. x \<in> set xs \<Longrightarrow> P t \<Longrightarrow> g (l x) t = put t (fst (f x)) (snd (f x))"
    "\<And>x t. x \<in> set xs \<Longrightarrow> P t \<Longrightarrow> \<exists>t'. put t (fst (f x)) (snd (f x)) = Inr t' \<and> P t'" "P t"
  shows "each_line g (map l xs) t = puts put t (map f xs)"
  using assms
proof (induction xs arbitrary: t)
  case Nil
  show ?case by simp
next
  case (Cons x xs)
  from Cons.prems(2) [of x t] Cons.prems(3) obtain t' where
    t': "put t (fst (f x)) (snd (f x)) = Inr t'" "P t'" by auto
  with Cons show ?case by simp
qed

lemma line_admits: "line_ok (k, v) \<Longrightarrow> length w \<le> 2 \<Longrightarrow> plain_admits k (v @ w)"
  by (auto simp: plain_admits_def line_ok_def plain_word_def BUF_SIZE_def)

lemma unsecure_load:
  assumes "plain_state sz msgs t" "\<forall>kv \<in> set kvs. line_ok kv"
  shows "\<exists>t'. each_line (load_line u_mkval (u_ht_set no_fail sz) invalid) (map set_line kvs) t = Inr t' \<and>
    plain_state sz msgs t' \<and>
    plain_map t' = plain_map t ++ map_of (rev (map (\<lambda>(k, v). (k, v @ [newline, 0])) kvs))"
proof -
  let ?f = "\<lambda>(k, v). (k, v @ [newline, 0])"
  have a: "plain_admits (fst (?f kv)) (snd (?f kv))" if "kv \<in> set kvs" for kv
    using assms(2) that by (cases kv) (auto intro: line_admits)
  have "each_line (load_line u_mkval (u_ht_set no_fail sz) invalid) (map set_line kvs) t =
      puts u_put t (map ?f kvs)"
  proof (rule each_line_puts [where P = "plain_state sz msgs"])
    fix kv t assume "kv \<in> set kvs" "plain_state sz msgs t"
    then show "load_line u_mkval (u_ht_set no_fail sz) invalid (set_line kv) t =
        u_put t (fst (?f kv)) (snd (?f kv))"
      using assms(2) by (simp add: load_set_line u_mkval_def u_put_def plain_state_def split_beta)
  qed (use a assms(1) plain_put(1) in \<open>blast+\<close>)
  moreover have "plain_admits k v" if "(k, v) \<in> set (map ?f kvs)" for k v
    using that a by auto
  ultimately show ?thesis using unsecure.puts_ok [OF assms(1), of "map ?f kvs"] by simp
qed

lemma baseline_load:
  assumes "plain_state sz msgs t" "\<forall>kv \<in> set kvs. line_ok kv"
  shows "\<exists>t'. each_line (load_line b_mkval (b_ht_set no_fail) invalid) (map set_line kvs) t = Inr t' \<and>
    plain_state sz msgs t' \<and> plain_map t' = plain_map t ++ map_of (rev (map (\<lambda>(k, v). (k, v @ [0])) kvs))"
proof -
  let ?f = "\<lambda>(k, v). (k, v @ [0])"
  have a: "plain_admits (fst (?f kv)) (snd (?f kv))" if "kv \<in> set kvs" for kv
    using assms(2) that by (cases kv) (auto intro: line_admits)
  have "each_line (load_line b_mkval (b_ht_set no_fail) invalid) (map set_line kvs) t =
      puts b_put t (map ?f kvs)"
  proof (rule each_line_puts [where P = "plain_state sz msgs"])
    fix kv t assume "kv \<in> set kvs" "plain_state sz msgs t"
    then show "load_line b_mkval (b_ht_set no_fail) invalid (set_line kv) t =
        b_put t (fst (?f kv)) (snd (?f kv))"
      using assms(2) by (simp add: load_set_line b_mkval_def b_put_def split_beta)
  qed (use a assms(1) plain_put(2) in \<open>blast+\<close>)
  moreover have "plain_admits k v" if "(k, v) \<in> set (map ?f kvs)" for k v
    using that a by auto
  ultimately show ?thesis using baseline.puts_ok [OF assms(1), of "map ?f kvs"] by simp
qed

lemma pbin_print [simp]: "pbin (p_print msg t) = pbin t"
  by (rule ext) (simp add: pbin_def p_print_def)

lemma plain_print_simps [simp]:
  "p_heap (p_print msg t) = p_heap t" "p_table (p_print msg t) = p_table t" "p_size (p_print msg t) = p_size t"
  "p_out (p_print msg t) = p_out t @ [msg]"
  by (simp_all add: p_print_def)

lemma plain_map_print [simp]: "plain_map (p_print msg t) = plain_map t"
  by (rule ext) (simp add: plain_map_def plain_pairs_def cong: option.case_cong)

lemma plain_state_print: "plain_state sz msgs t \<Longrightarrow> plain_state sz (msgs @ [m]) (p_print m t)"
  by (auto simp: plain_state_def plain_inv_def plain_rep_def)

lemma run_lines:
  assumes "plain_state sz msgs t" "\<forall>k \<in> set ks. key_ok k"
    "\<And>k t. p_size t = sz \<Longrightarrow> gp k t = plain_get sz k t"
  shows "\<exists>t'. each_line (run_line gp invalid) (map get_line ks) t = Inr t' \<and> plain_map t' = plain_map t \<and>
    plain_state sz (msgs @ map (\<lambda>_. ''No data'') (filter (\<lambda>k. plain_map t k = None) ks)) t'"
  using assms(1,2)
proof (induction ks arbitrary: t msgs)
  case Nil
  then show ?case by simp
next
  case (Cons k ks)
  let ?t = "if plain_map t k = None then p_print ''No data'' t else t"
  let ?m = "if plain_map t k = None then msgs @ [''No data''] else msgs"
  have k0: "0 \<notin> set k" using Cons.prems(2) by (simp add: key_ok_def plain_word_def)
  have p: "p_size t = sz" using Cons.prems(1) by (simp add: plain_state_def)
  obtain bs kvs where r: "plain_rep t bs kvs" using Cons.prems(1) by (auto simp: plain_state_def plain_inv_def)
  from plain_get_rep [OF r k0] p assms(3) [OF p] Cons.prems(2)
  have l: "run_line gp invalid (get_line k) t = Inr ?t"
    by (auto simp: run_get_line split: option.splits)
  have "plain_state sz ?m ?t" using Cons.prems(1) plain_state_print by simp
  from Cons.IH [OF this] Cons.prems(2) l show ?case by auto
qed

lemma created_state:
  assumes "0 < sz" "sz < 2 ^ 31"
  shows "\<exists>t. u_ht_create no_fail sz = Inr t \<and> plain_state sz [] t \<and> plain_map t = Map.empty"
    "\<exists>t. b_ht_create no_fail sz = Inr t \<and> plain_state sz [] t \<and> plain_map t = Map.empty"
proof -
  let ?t = "\<lparr>p_size = sz, p_table = replicate (nat sz) None, p_heap = [], p_out = []\<rparr>"
  have "plain_rep ?t (\<lambda>_. []) (\<lambda>_. [])" using assms by (simp add: plain_rep_def table_of_empty)
  then have "plain_state sz [] ?t" "plain_map ?t = Map.empty"
    using plain_map_rep [of ?t "\<lambda>_. []" "\<lambda>_. []"] by (auto simp: plain_state_def plain_inv_def)
  then show "\<exists>t. u_ht_create no_fail sz = Inr t \<and> plain_state sz [] t \<and> plain_map t = Map.empty"
    "\<exists>t. b_ht_create no_fail sz = Inr t \<and> plain_state sz [] t \<and> plain_map t = Map.empty"
    using assms by (auto simp: u_ht_create_def b_ht_create_def no_fail_def)
qed

lemma map_of_line_keys: "map_of (rev (map (\<lambda>(k, v). (k, f v)) kvs)) k = None \<longleftrightarrow> k \<notin> fst ` set kvs"
  by (force simp: map_of_eq_None_iff)

text \<open>
  C23. \<open>Unsecure_kvs\<close> runs a workload as a map would: on a new table of any positive size, loading
  the SET lines and running the GET lines returns; the map of the final table has, for every
  key, the value of the last line that sets it, with the newline of the line; and \<open>No data\<close> is
  printed once for each GET line whose key no SET line has.
\<close>

theorem unsecure_workload:
  assumes "0 < sz" "sz < 2 ^ 31" "\<forall>kv \<in> set kvs. line_ok kv" "\<forall>k \<in> set ks. key_ok k"
  shows "\<exists>t. bindE (u_ht_create no_fail sz) (\<lambda>t0.
      bindE (u_load no_fail sz (map set_line kvs) t0) (u_run sz (map get_line ks))) = Inr t \<and>
    plain_map t = map_of (rev (map (\<lambda>(k, v). (k, v @ [newline, 0])) kvs)) \<and>
    p_out t = [''Load Process has done''] @ map (\<lambda>_. ''No data'') (filter (\<lambda>k. k \<notin> fst ` set kvs) ks) @
      [''Run Process has done'']"
proof -
  obtain t0 where t0: "u_ht_create no_fail sz = Inr t0" "plain_state sz [] t0" "plain_map t0 = Map.empty"
    using created_state(1) [OF assms(1,2)] by blast
  obtain t1 where t1: "each_line (load_line u_mkval (u_ht_set no_fail sz) ''Invalid load command'')
      (map set_line kvs) t0 = Inr t1" "plain_state sz [] t1"
    "plain_map t1 = map_of (rev (map (\<lambda>(k, v). (k, v @ [newline, 0])) kvs))"
    using unsecure_load [OF t0(2) assms(3)] t0(3) by auto
  have e: "(plain_map t1 k = None) = (k \<notin> fst ` set kvs)" for k
    unfolding t1(3) by (rule map_of_line_keys)
  from run_lines [OF plain_state_print [OF t1(2)] assms(4), of "plain_get sz" "''Invalid run command''"
      "''Load Process has done''"] obtain t2 where
    t2: "each_line (run_line (plain_get sz) ''Invalid run command'') (map get_line ks)
      (p_print ''Load Process has done'' t1) = Inr t2" "plain_map t2 = plain_map t1"
    "p_out t2 = [''Load Process has done''] @ map (\<lambda>_. ''No data'') (filter (\<lambda>k. k \<notin> fst ` set kvs) ks)"
    unfolding plain_map_print e plain_state_def by auto
  then show ?thesis using t0(1) t1 by (simp add: u_load_def u_run_def)
qed

text \<open>Two lines to load, one of them twice, and two keys to look up.\<close>

theorem unsecure_workload_witness:
  "\<exists>t. bindE (u_ht_create no_fail 3) (\<lambda>t0.
      bindE (u_load no_fail 3 (map set_line [(lit ''a'', lit ''x''), (lit ''a'', lit ''y'')]) t0)
        (u_run 3 (map get_line [lit ''a'', lit ''b'']))) = Inr t \<and>
    plain_map t (lit ''a'') = Some (lit ''y'' @ [newline, 0]) \<and>
    p_out t = [''Load Process has done'', ''No data'', ''Run Process has done'']"
proof -
  have l: "\<forall>kv \<in> set [(lit ''a'', lit ''x''), (lit ''a'', lit ''y'')]. line_ok kv"
    "\<forall>k \<in> set [lit ''a'', lit ''b'']. key_ok k"
    by (simp_all add: line_ok_def key_ok_def plain_word_def lit_def blank_def BUF_SIZE_def)
  show ?thesis using unsecure_workload [OF _ _ l, of 3] by (auto simp: lit_def)
qed

text \<open>
  C24. \<open>Baseline_kvs\<close> runs a workload as a map would, with the table in the enclave: the final map
  has the values without the newline of their line, and the messages are those of
  \<open>Unsecure_kvs\<close>.
\<close>

theorem baseline_workload:
  assumes "0 < sz" "sz < 2 ^ 31" "\<forall>kv \<in> set kvs. line_ok kv" "\<forall>k \<in> set ks. key_ok k"
  shows "\<exists>t. bindE (b_ht_create no_fail sz) (\<lambda>t0.
      b_enclave_process no_fail (8 * int (length kvs)) (map set_line kvs) (8 * int (length ks)) (map get_line ks)
        t0) = Inr t \<and>
    plain_map t = map_of (rev (map (\<lambda>(k, v). (k, v @ [0])) kvs)) \<and>
    p_out t = [''Load Process has done''] @ map (\<lambda>_. ''No data'') (filter (\<lambda>k. k \<notin> fst ` set kvs) ks) @
      [''Run Process has done'']"
proof -
  obtain t0 where t0: "b_ht_create no_fail sz = Inr t0" "plain_state sz [] t0" "plain_map t0 = Map.empty"
    using created_state(2) [OF assms(1,2)] by blast
  obtain t1 where t1: "each_line (load_line b_mkval (b_ht_set no_fail) ''Invalid load command'')
      (map set_line kvs) t0 = Inr t1" "plain_state sz [] t1"
    "plain_map t1 = map_of (rev (map (\<lambda>(k, v). (k, v @ [0])) kvs))"
    using baseline_load [OF t0(2) assms(3)] t0(3) by auto
  have e: "(plain_map t1 k = None) = (k \<notin> fst ` set kvs)" for k
    unfolding t1(3) by (rule map_of_line_keys)
  from run_lines [OF plain_state_print [OF t1(2)] assms(4), of b_ht_get "''Invalid run command''"
      "''Load Process has done''"] obtain t2 where
    t2: "each_line (run_line b_ht_get ''Invalid run command'') (map get_line ks)
      (p_print ''Load Process has done'' t1) = Inr t2" "plain_map t2 = plain_map t1"
    "p_out t2 = [''Load Process has done''] @ map (\<lambda>_. ''No data'') (filter (\<lambda>k. k \<notin> fst ` set kvs) ks)"
    unfolding plain_map_print e plain_state_def by (auto simp: b_ht_get_def)
  then show ?thesis
    using t0(1) t1 by (simp add: b_enclave_process_def c_div_pos)
qed

theorem baseline_workload_witness:
  "\<exists>t. bindE (b_ht_create no_fail 3) (\<lambda>t0.
      b_enclave_process no_fail 8 [set_line (lit ''a'', lit ''x'')] 8 [get_line (lit ''b'')] t0) = Inr t \<and>
    plain_map t (lit ''a'') = Some (lit ''x'' @ [0])"
proof -
  have l: "\<forall>kv \<in> set [(lit ''a'', lit ''x'')]. line_ok kv" "\<forall>k \<in> set [lit ''b'']. key_ok k"
    by (simp_all add: line_ok_def key_ok_def plain_word_def lit_def blank_def BUF_SIZE_def)
  show ?thesis using baseline_workload [OF _ _ l, of 3] by auto
qed

section \<open>What the programs do not do\<close>

text \<open>\<open>ht_destroy\<close> frees no entry: it frees the buckets that are empty.\<close>

lemma destroy_frees_nothing: "plain_destroy t = []"
  by (auto simp: plain_destroy_def List.map_filter_def filter_empty_conv)

text \<open>Without an argument, \<open>main\<close> of \<open>Unsecure_kvs\<close> prints its usage and uses the null argument.\<close>

lemma usage_not_final: "u_main no_fail amem files junk [] = Inl NullDeref"
  by (simp add: u_main_def u_ht_create_def no_fail_def Let_def)

end
