(* ===== verification/Eleos_Store.thy ===== *)
theory Eleos_Store
  imports Chained_Table Chain_Walk Hash_Functions C_Library
begin

text \<open>
  The store of \<open>Experiment/eleos_shieldstore\<close>, which keeps its entries in the secure user-managed
  memory of Eleos. Eleos is a library: an \<open>Aptr\<close> stands for the cell it was made from, \<open>deref\<close>
  reads and writes that cell, and \<open>memsys5Malloc\<close> is an allocator. Keys and values have a fixed
  size.
\<close>

section \<open>Data\<close>

definition KEY_SIZE :: nat where
  "KEY_SIZE = 17"

definition VAL_SIZE :: nat where
  "VAL_SIZE = 4097"

definition EL_BUF_SIZE :: nat where
  "EL_BUF_SIZE = 4125"

definition THREAD_NUM :: nat where
  "THREAD_NUM = 1"

lemmas el_sizes = KEY_SIZE_def VAL_SIZE_def EL_BUF_SIZE_def THREAD_NUM_def

record suvm_entry =
  s_key :: "bytes option"
  s_val :: "bytes option"
  s_next :: ptr

record eleos =
  s_size :: int
  s_table :: "ptr list"
  s_heap :: "suvm_entry list"
  s_out :: "string list"

definition s_print :: "string \<Rightarrow> eleos \<Rightarrow> eleos" where
  "s_print msg t = t\<lparr>s_out := s_out t @ [msg]\<rparr>"

text \<open>Whether an allocation succeeds: the number of entries, the place of the request, its size.\<close>

type_synonym suvm_alloc = "nat \<Rightarrow> nat \<Rightarrow> nat \<Rightarrow> bool"

section \<open>The table\<close>

definition el_ht_create :: "suvm_alloc \<Rightarrow> int \<Rightarrow> eleos res" where
  "el_ht_create mem sz =
     (if \<not> mem 0 0 16 then Inl NullDeref
      else if \<not> mem 0 1 (size_arg (8 * sz)) \<and> 0 < sz then Inl NullDeref
      else Inr \<lparr>s_size = sz, s_table = replicate (nat sz) None, s_heap = [],
                s_out = (if sz < 1 then [''Size of hashtable is negative''] else []) @
                  (if \<not> mem 0 1 (size_arg (8 * sz)) then [''Array of Pointers is not allocated''] else [])\<rparr>)"

definition el_bin :: "eleos \<Rightarrow> bytes \<Rightarrow> nat res" where
  "el_bin t key =
     bindE (c_str key) (\<lambda>k.
       if s_size t = 0 then Inl DivByZero
       else let b = ht_hash (s_size t) k in
         if 0 \<le> b \<and> b < int (length (s_table t)) then Inr (nat b) else Inl OutOfBounds)"

definition el_ht_newpair :: "suvm_alloc \<Rightarrow> bytes \<Rightarrow> bytes \<Rightarrow> nat \<Rightarrow> nat \<Rightarrow> eleos \<Rightarrow> suvm_entry res" where
  "el_ht_newpair mem key val key_len val_len t =
     (let n = length (s_heap t) in
      bindE (requireE (0 < key_len \<and> 0 < val_len) AssertFail) (\<lambda>_.
      bindE (requireE (mem n 0 24) AssertFail) (\<lambda>_.
      bindE (requireE (mem n 1 key_len) AssertFail) (\<lambda>_.
      bindE (requireE (mem n 2 val_len) AssertFail) (\<lambda>_.
      bindE (memread key_len key) (\<lambda>k.
      bindE (memread val_len val) (\<lambda>v.
        Inr \<lparr>s_key = Some k, s_val = Some v, s_next = None\<rparr>)))))))"

text \<open>
  The loop of \<open>ht_set\<close> and \<open>ht_get\<close>. At an entry without a key the loop does not move on.
\<close>

fun el_find :: "nat \<Rightarrow> suvm_entry list \<Rightarrow> bytes \<Rightarrow> ptr \<Rightarrow> ptr res" where
  "el_find 0 h key p = Inl Diverges"
| "el_find (Suc n) h key None = Inr None"
| "el_find (Suc n) h key (Some a) =
     bindE (deref h a) (\<lambda>e.
     case s_key e of
       None \<Rightarrow> el_find n h key (Some a)
     | Some k \<Rightarrow> bindE (strcmp_eq key k) (\<lambda>eq.
         if eq then Inr (Some a) else el_find n h key (s_next e)))"

text \<open>The value of an entry that is there is overwritten in place.\<close>

definition el_overwrite :: "bytes \<Rightarrow> nat \<Rightarrow> suvm_entry \<Rightarrow> suvm_entry res" where
  "el_overwrite val val_len e =
     bindE (memread val_len val) (\<lambda>v.
     case s_val e of
       None \<Rightarrow> Inl NullDeref
     | Some old \<Rightarrow>
         if val_len \<le> length old then Inr (e\<lparr>s_val := Some (v @ drop val_len old)\<rparr>)
         else Inl OutOfBounds)"

definition el_ht_set :: "suvm_alloc \<Rightarrow> bytes \<Rightarrow> bytes \<Rightarrow> nat \<Rightarrow> nat \<Rightarrow> eleos \<Rightarrow> eleos res" where
  "el_ht_set mem key val key_len val_len t =
     bindE (el_bin t key) (\<lambda>bin.
     bindE (el_find (Suc (length (s_heap t))) (s_heap t) key (s_table t ! bin)) (\<lambda>p.
     case p of
       Some a \<Rightarrow>
         bindE (deref (s_heap t) a) (\<lambda>e.
         bindE (el_overwrite val val_len e) (\<lambda>e'.
           Inr (t\<lparr>s_heap := (s_heap t)[a := e']\<rparr>)))
     | None \<Rightarrow>
         bindE (el_ht_newpair mem key val key_len val_len t) (\<lambda>np.
           Inr (t\<lparr>s_heap := s_heap t @ [np\<lparr>s_next := s_table t ! bin\<rparr>],
                  s_table := (s_table t)[bin := Some (length (s_heap t))]\<rparr>))))"

text \<open>\<open>print(key)\<close> for a key that is not there; the test of the key that was found is repeated.\<close>

definition el_ht_get :: "bytes \<Rightarrow> eleos \<Rightarrow> (ptr \<times> eleos) res" where
  "el_ht_get key t =
     bindE (el_bin t key) (\<lambda>bin.
     bindE (el_find (Suc (length (s_heap t))) (s_heap t) key (s_table t ! bin)) (\<lambda>p.
     case p of
       None \<Rightarrow> bindE (c_str key) (\<lambda>k. Inr (None, s_print (map (\<lambda>c. char_of (unat c)) k) t))
     | Some a \<Rightarrow>
         bindE (deref (s_heap t) a) (\<lambda>e.
         case s_key e of
           None \<Rightarrow> Inl NullDeref
         | Some k \<Rightarrow> bindE (strcmp_eq key k) (\<lambda>eq.
             Inr (Some a, if eq then t else s_print ''GET ERROR'' t)))))"

section \<open>Requests\<close>

text \<open>
  The token of a request, as the bytes of the buffer from its start on, and the bytes behind it:
  sixteen bytes are copied for the key whatever its length.
\<close>

definition el_parse :: "bytes \<Rightarrow> (bytes \<times> bytes option) res" where
  "el_parse cipher =
     bindE (requireE (4 \<le> length cipher) OutOfBounds) (\<lambda>_.
     bindE (strtok_r (drop 4 cipher)) (\<lambda>(tok, temp, b).
     case tok of
       None \<Rightarrow> Inl NullDeref
     | Some _ \<Rightarrow> Inr (drop (length (takeWhile (\<lambda>c. c = blank) (drop 4 cipher))) b, temp)))"

definition el_copy :: "nat \<Rightarrow> bytes \<Rightarrow> bytes res" where
  "el_copy n src = bindE (memread (n - 1) src) (\<lambda>b. Inr (b @ [0]))"

definition el_enclave_set :: "suvm_alloc \<Rightarrow> bytes \<Rightarrow> eleos \<Rightarrow> eleos res" where
  "el_enclave_set mem cipher t =
     bindE (el_parse cipher) (\<lambda>(tok, temp).
     bindE (el_copy KEY_SIZE tok) (\<lambda>key.
     case temp of
       None \<Rightarrow> Inl Unspecified
     | Some r \<Rightarrow> bindE (el_copy VAL_SIZE r) (\<lambda>val. el_ht_set mem key val KEY_SIZE VAL_SIZE t)))"

definition el_enclave_get :: "bytes \<Rightarrow> eleos \<Rightarrow> eleos res" where
  "el_enclave_get cipher t =
     bindE (el_parse cipher) (\<lambda>(tok, temp).
     bindE (el_copy KEY_SIZE tok) (\<lambda>key.
     bindE (el_ht_get key t) (\<lambda>(ret, t').
       Inr (if ret = None then s_print ''No value correspond to the key'' t' else t'))))"

section \<open>The process\<close>

definition el_load_line :: "suvm_alloc \<Rightarrow> bytes \<Rightarrow> eleos \<Rightarrow> eleos res" where
  "el_load_line mem line t =
     bindE (memread EL_BUF_SIZE line) (\<lambda>buf.
     bindE (is_command 3 ''SET'' ''set'' buf) (\<lambda>is_set.
       if is_set then el_enclave_set mem buf t else Inr (s_print (''Invalid command'' @ [char_of (10 :: nat)]) t)))"

definition el_run_line :: "suvm_alloc \<Rightarrow> bytes \<Rightarrow> eleos \<Rightarrow> eleos res" where
  "el_run_line mem line t =
     bindE (memread EL_BUF_SIZE line) (\<lambda>buf.
     bindE (is_command 3 ''GET'' ''get'' buf) (\<lambda>is_get.
     if is_get then el_enclave_get buf t
     else bindE (is_command 3 ''SET'' ''set'' buf) (\<lambda>is_set.
       if is_set then el_enclave_set mem buf t else Inr (s_print (''Invalid command'' @ [char_of (10 :: nat)]) t))))"

primrec el_each :: "(bytes \<Rightarrow> eleos \<Rightarrow> eleos res) \<Rightarrow> bytes list \<Rightarrow> eleos \<Rightarrow> eleos res" where
  "el_each f [] t = Inr t"
| "el_each f (l # ls) t = bindE (f l t) (\<lambda>t'. el_each f ls t')"

text \<open>A barrier that the last of \<open>n\<close> threads has reached; otherwise it spins.\<close>

definition el_barrier :: "nat \<Rightarrow> unit res" where
  "el_barrier n = requireE (n = THREAD_NUM) Diverges"

text \<open>
  \<open>enclave_process\<close> of the thread that takes the number \<open>num\<close> when it enters, and is the last to
  enter; its lines are those of \<open>inst[num]\<close> and \<open>inst2[num]\<close>.
\<close>

definition el_enclave_process ::
  "suvm_alloc \<Rightarrow> nat \<Rightarrow> bytes list list \<Rightarrow> bytes list list \<Rightarrow> eleos \<Rightarrow> eleos res" where
  "el_enclave_process mem num inst inst2 t =
     bindE (requireE (num < length inst \<and> num < length inst2) OutOfBounds) (\<lambda>_.
     bindE (el_barrier (num + 1)) (\<lambda>_.
     bindE (el_each (el_load_line mem) (inst ! num) t) (\<lambda>t1.
     bindE (el_barrier (num + 1)) (\<lambda>_.
     let t2 = (if num = 0 then s_print ''Load Process has done'' t1 else t1) in
     bindE (el_each (el_run_line mem) (inst2 ! num) t2) (\<lambda>t3.
     bindE (el_barrier (num + 1)) (\<lambda>_.
       Inr (if num = 0 then s_print ''Run Process has done'' t3 else t3)))))))"

section \<open>The application\<close>

text \<open>
  One round of the loops of \<open>file_to_memory\<close>: a line is read, its last character is overwritten
  by NUL, a copy is kept, and the key is cut off in the buffer that the next line is read into.
  The key is copied into seventeen bytes and hashed to pick the thread. The result is the copy,
  the thread, the buffer and the rest of the file.
\<close>

definition el_read_line :: "int \<Rightarrow> bytes \<Rightarrow> bytes \<Rightarrow> (bytes \<times> nat \<times> bytes \<times> bytes) res" where
  "el_read_line g_size lbuf f =
     (case fgets EL_BUF_SIZE lbuf f of (b, f') \<Rightarrow>
      bindE (c_str b) (\<lambda>s.
      bindE (requireE (s \<noteq> []) OutOfBounds) (\<lambda>_.
      let b1 = b[length s - 1 := 0] in
      bindE (memread EL_BUF_SIZE b1) (\<lambda>buf2.
      bindE (parse_key b1) (\<lambda>(tok, temp, b2).
      bindE (requireE (length tok \<le> KEY_SIZE) OutOfBounds) (\<lambda>_.
      let d = c_div g_size (int THREAD_NUM) in
      if g_size = 0 \<or> d = 0 then Inl DivByZero
      else Inr (buf2, nat (c_div (ht_hash g_size tok) d), b2, f')))))))"

primrec el_read_lines :: "int \<Rightarrow> nat \<Rightarrow> bytes \<Rightarrow> bytes \<Rightarrow> bytes list list \<Rightarrow> (bytes list list \<times> bytes) res" where
  "el_read_lines g_size 0 lbuf f inst = Inr (inst, lbuf)"
| "el_read_lines g_size (Suc k) lbuf f inst =
     bindE (el_read_line g_size lbuf f) (\<lambda>(line, thread_id, buf', f').
     bindE (requireE (thread_id < length inst) OutOfBounds) (\<lambda>_.
       el_read_lines g_size k buf' f' (inst[thread_id := inst ! thread_id @ [line]])))"

text \<open>The sizes of the workload for the configured size of the values.\<close>

definition el_set_size :: nat where
  "el_set_size = (if VAL_SIZE = 513 then 700000 else if VAL_SIZE = 1025 then 400000 else 50000)"

definition el_g_size :: int where
  "el_g_size =
     (if VAL_SIZE = 513 then 64 * 1024 else if VAL_SIZE = 1025 then 128 * 1024
      else if VAL_SIZE = 4097 then 32 * 1024 else 0)"

definition el_file_to_memory ::
  "int \<Rightarrow> (string \<Rightarrow> bytes option) \<Rightarrow> bytes \<Rightarrow> char \<Rightarrow> (bytes list list \<times> bytes list list) res" where
  "el_file_to_memory g_size files junk workload =
     (let dir = ''/home/workloads/eleos_traces/1.5GB/4096/trace'' @ [workload];
          none = replicate THREAD_NUM [] in
      case files (dir @ ''_load.txt'') of
        None \<Rightarrow> Inl NullDeref
      | Some f \<Rightarrow>
          bindE (el_read_lines g_size el_set_size junk f none) (\<lambda>(inst, buf).
          case files (dir @ ''_run.txt'') of
            None \<Rightarrow> Inl NullDeref
          | Some f2 \<Rightarrow>
              bindE (el_read_lines g_size 10000000 buf f2 none) (\<lambda>(inst2, _). Inr (inst, inst2))))"

text \<open>
  \<open>main\<close>, with the status of loading the enclave and of initialising Eleos; a wrong number of
  arguments is reported and then ignored.
\<close>

definition el_main ::
  "bool \<Rightarrow> bool \<Rightarrow> suvm_alloc \<Rightarrow> (string \<Rightarrow> bytes option) \<Rightarrow> bytes \<Rightarrow> string list \<Rightarrow> (int \<times> eleos option) res" where
  "el_main loaded initialized mem files junk args =
     (if \<not> loaded then Inr (- 1, None)
      else if \<not> initialized then Inr (- 1, None)
      else bindE (el_ht_create mem el_g_size) (\<lambda>t0.
      let t1 = s_print ''HT is created!'' t0;
          t2 = (if length args \<noteq> 1
                then s_print ''Usage: ./app [workload] : workload <-- a,b,c,d,f,g,h,i'' t1 else t1) in
      case args of
        [] \<Rightarrow> Inl NullDeref
      | a # _ \<Rightarrow>
          bindE (el_file_to_memory el_g_size files junk (case a of [] \<Rightarrow> char_of (0 :: nat) | c # _ \<Rightarrow> c)) (\<lambda>(inst, inst2).
          bindE (el_enclave_process mem 0 inst inst2 (s_print ''Files are loaded into memory!'' t2)) (\<lambda>t3.
            Inr (0, Some t3)))))"

end
