(* ===== verification/Eleos_Correct.thy ===== *)
theory Eleos_Correct
  imports Eleos_Store Kv_Interface
begin

text \<open>
  The Eleos store is a key-value store: its search ends on every chain without an entry that has
  no key, and its requests update and read the represented map.
\<close>

section \<open>The search\<close>

text \<open>An entry without a key holds the search up for ever.\<close>

definition el_live :: "suvm_entry list \<Rightarrow> bytes \<Rightarrow> ptr \<Rightarrow> bool" where
  "el_live h key p \<longleftrightarrow>
     (case p of
        None \<Rightarrow> False
      | Some a \<Rightarrow> a < length h \<and>
          (case s_key (h ! a) of None \<Rightarrow> True | Some k \<Rightarrow> strcmp_eq key k = Inr False))"

definition el_next :: "suvm_entry list \<Rightarrow> ptr \<Rightarrow> ptr" where
  "el_next h p =
     (case p of None \<Rightarrow> None | Some a \<Rightarrow> if s_key (h ! a) = None then p else s_next (h ! a))"

interpretation el_search: chain_walk "length h" "el_live h key" "el_next h" "\<lambda>p. id" "\<lambda>p r. r"
  "\<lambda>n p (x :: unit). el_find n h key p" for h key
proof (unfold_locales, goal_cases)
  case (1 p)
  then show ?case by (auto simp: el_live_def split: option.splits)
next
  case (3 p n x)
  then show ?case
    by (cases p) (auto simp: el_live_def deref_def bindE_def split: option.splits sum.splits)
next
  case (4 p x)
  then show ?case
    by (cases p) (auto simp: el_live_def deref_def bindE_def strcmp_eq_defined
        split: option.splits sum.splits)
next
  case (5 p n x)
  then show ?case
    by (cases p) (auto simp: el_live_def el_next_def deref_def split: option.splits)
qed simp_all

section \<open>Representation\<close>

definition el_holds :: "suvm_entry \<Rightarrow> bytes \<Rightarrow> bytes \<Rightarrow> bool" where
  "el_holds e k v \<longleftrightarrow> 0 \<notin> set k \<and> 0 \<notin> set v \<and> length v < VAL_SIZE \<and>
     (\<exists>r. s_key e = Some (k @ 0 # r)) \<and> s_val e = Some (pad VAL_SIZE v)"

definition ebin :: "eleos \<Rightarrow> bytes \<Rightarrow> nat" where
  "ebin t k = nat (ht_hash (s_size t) k)"

definition el_rep :: "eleos \<Rightarrow> (nat \<Rightarrow> nat list) \<Rightarrow> (nat \<Rightarrow> (bytes \<times> bytes) list) \<Rightarrow> bool" where
  "el_rep t bs kvs \<longleftrightarrow> 0 < s_size t \<and> s_size t < 2 ^ 31 \<and>
     table_of s_next el_holds (ebin t) (nat (s_size t)) (s_heap t) (s_table t) bs kvs"

definition el_pairs :: "eleos \<Rightarrow> nat \<Rightarrow> (bytes \<times> bytes) list" where
  "el_pairs t i =
     (case addrs_of s_next (Suc (length (s_heap t))) (s_heap t) (s_table t ! i) of
        None \<Rightarrow> []
      | Some as \<Rightarrow> map (\<lambda>a. (takeWhile (\<lambda>c. c \<noteq> 0) (the (s_key (s_heap t ! a))),
                             takeWhile (\<lambda>c. c \<noteq> 0) (the (s_val (s_heap t ! a))))) as)"

definition el_map :: "eleos \<Rightarrow> bytes \<Rightarrow> bytes option" where
  "el_map t k = map_of (el_pairs t (ebin t k)) k"

lemma el_repD:
  assumes "el_rep t bs kvs"
  shows "0 < s_size t" "s_size t < 2 ^ 31"
    "table_of s_next el_holds (ebin t) (nat (s_size t)) (s_heap t) (s_table t) bs kvs"
    "length (s_table t) = nat (s_size t)" "ebin t k < nat (s_size t)"
    "0 \<le> ht_hash (s_size t) k" "ht_hash (s_size t) k < s_size t"
    "bucket_of s_next el_holds (ebin t) (s_heap t) (s_table t) (ebin t k) (bs (ebin t k)) (kvs (ebin t k))"
proof -
  show r: "0 < s_size t" "s_size t < 2 ^ 31"
    "table_of s_next el_holds (ebin t) (nat (s_size t)) (s_heap t) (s_table t) bs kvs"
    using assms by (simp_all add: el_rep_def)
  show "length (s_table t) = nat (s_size t)" using table_ofD(1) [OF r(3)] .
  show h: "0 \<le> ht_hash (s_size t) k" "ht_hash (s_size t) k < s_size t" by (rule ht_hash_bounds [OF r(1,2)])+
  then show b: "ebin t k < nat (s_size t)" by (simp add: ebin_def)
  show "bucket_of s_next el_holds (ebin t) (s_heap t) (s_table t) (ebin t k) (bs (ebin t k)) (kvs (ebin t k))"
    by (rule table_ofD(2) [OF r(3) b])
qed

lemma takeWhile_pad: "0 \<notin> set v \<Longrightarrow> takeWhile (\<lambda>c. c \<noteq> 0) (pad n v) = v"
  by (cases "n - length v") (simp_all add: pad_def takeWhile_upto_first)

lemma el_map_rep:
  assumes "el_rep t bs kvs"
  shows "el_map t k = map_of (kvs (ebin t k)) k"
proof -
  note B = bucket_ofD [OF el_repD(8) [OF assms, of k]]
  have "map (\<lambda>a. (takeWhile (\<lambda>c. c \<noteq> 0) (the (s_key (s_heap t ! a))),
      takeWhile (\<lambda>c. c \<noteq> 0) (the (s_val (s_heap t ! a))))) (bs (ebin t k)) = kvs (ebin t k)"
  proof (rule nth_equalityI)
    fix i assume "i < length (map (\<lambda>a. (takeWhile (\<lambda>c. c \<noteq> 0) (the (s_key (s_heap t ! a))),
      takeWhile (\<lambda>c. c \<noteq> 0) (the (s_val (s_heap t ! a))))) (bs (ebin t k)))"
    with B(2) have i: "i < length (kvs (ebin t k))" "i < length (bs (ebin t k))" by simp_all
    from B(4) [OF i(1)] obtain r where "s_key (s_heap t ! (bs (ebin t k) ! i)) = Some (fst (kvs (ebin t k) ! i) @ 0 # r)"
      "s_val (s_heap t ! (bs (ebin t k) ! i)) = Some (pad VAL_SIZE (snd (kvs (ebin t k) ! i)))"
      "0 \<notin> set (fst (kvs (ebin t k) ! i))" "0 \<notin> set (snd (kvs (ebin t k) ! i))"
      by (auto simp: el_holds_def)
    with i show "map (\<lambda>a. (takeWhile (\<lambda>c. c \<noteq> 0) (the (s_key (s_heap t ! a))),
      takeWhile (\<lambda>c. c \<noteq> 0) (the (s_val (s_heap t ! a))))) (bs (ebin t k)) ! i = kvs (ebin t k) ! i"
      by (simp add: takeWhile_upto_first takeWhile_pad)
  qed (use B(2) in simp)
  then have "el_pairs t (ebin t k) = kvs (ebin t k)"
    using B(1) by (simp add: el_pairs_def chain_iff_addrs)
  then show ?thesis by (simp add: el_map_def)
qed

lemma el_bin_rep: "el_rep t bs kvs \<Longrightarrow> 0 \<notin> set k \<Longrightarrow> el_bin t (k @ 0 # r) = Inr (ebin t k)"
  using el_repD(1,4,6,7) [of t bs kvs] by (simp add: el_bin_def c_str_terminated ebin_def)

lemma el_find_chain:
  assumes "chain_of s_next h p as" "length as < n" "0 \<notin> set k"
    "list_all2 (\<lambda>a (k, v). el_holds (h ! a) k v) as kvs"
  shows "el_find n h (k @ 0 # r) p =
    Inr (let m = length (takeWhile (\<lambda>kv. fst kv \<noteq> k) kvs) in if m = length kvs then None else Some (as ! m))"
  using assms
proof (induction as arbitrary: n p kvs)
  case Nil
  then show ?case by (cases n) auto
next
  case (Cons a as)
  from Cons.prems obtain m k' v' kvs' where m: "n = Suc m" "kvs = (k', v') # kvs'" "el_holds (h ! a) k' v'"
    "list_all2 (\<lambda>a (k, v). el_holds (h ! a) k v) as kvs'" "a < length h" "p = Some a"
    "chain_of s_next h (s_next (h ! a)) as" "length as < m"
    by (cases n; cases kvs) auto
  from m(3) obtain r' where k': "s_key (h ! a) = Some (k' @ 0 # r')" "0 \<notin> set k'" by (auto simp: el_holds_def)
  have eq: "strcmp_eq (k @ 0 # r) (k' @ 0 # r') = Inr (k = k')"
    by (rule strcmp_eq_c_str [OF Cons.prems(3) k'(2)])
  have "el_find m h (k @ 0 # r) (s_next (h ! a)) =
      Inr (let m = length (takeWhile (\<lambda>kv. fst kv \<noteq> k) kvs') in if m = length kvs' then None else Some (as ! m))"
    by (rule Cons.IH [OF m(7,8) Cons.prems(3) m(4)])
  with m k' eq show ?case by (cases "k = k'") (simp_all add: deref_def Let_def)
qed

text \<open>The entry the search ends at.\<close>

lemma el_find_rep:
  assumes "el_rep t bs kvs" "0 \<notin> set k"
  defines "b \<equiv> ebin t k"
  shows "\<And>i v. i < length (kvs b) \<Longrightarrow> kvs b ! i = (k, v) \<Longrightarrow>
      el_find (Suc (length (s_heap t))) (s_heap t) (k @ 0 # r) (s_table t ! b) = Inr (Some (bs b ! i))"
    "k \<notin> fst ` set (kvs b) \<Longrightarrow>
      el_find (Suc (length (s_heap t))) (s_heap t) (k @ 0 # r) (s_table t ! b) = Inr None"
proof -
  note B = bucket_ofD [OF el_repD(8) [OF assms(1), of k], folded b_def]
  have len: "length (bs b) < Suc (length (s_heap t))" using chain_length [OF B(1)] by simp
  note F = el_find_chain [OF B(1) len assms(2) B(6), of r]
  show "k \<notin> fst ` set (kvs b) \<Longrightarrow>
      el_find (Suc (length (s_heap t))) (s_heap t) (k @ 0 # r) (s_table t ! b) = Inr None"
    using F takeWhile_absent [of k "kvs b"] by (simp add: Let_def)
  fix i v assume i: "i < length (kvs b)" "kvs b ! i = (k, v)"
  show "el_find (Suc (length (s_heap t))) (s_heap t) (k @ 0 # r) (s_table t ! b) = Inr (Some (bs b ! i))"
    using F takeWhile_found [OF B(3) i] i(1) by (simp add: Let_def)
qed

lemma el_lookup:
  assumes "el_rep t bs kvs"
  obtains (absent) "el_map t k = None" "k \<notin> fst ` set (kvs (ebin t k))"
  | (found) i v where "el_map t k = Some v" "i < length (kvs (ebin t k))" "kvs (ebin t k) ! i = (k, v)"
    "bs (ebin t k) ! i < length (s_heap t)" "el_holds (s_heap t ! (bs (ebin t k) ! i)) k v"
proof (cases "el_map t k")
  case None
  then show thesis using absent by (simp add: el_map_rep [OF assms] map_of_eq_None_iff)
next
  case (Some v)
  note B = bucket_ofD [OF el_repD(8) [OF assms, of k]]
  from Some have "(k, v) \<in> set (kvs (ebin t k))" by (simp add: el_map_rep [OF assms] map_of_SomeD)
  then obtain i where i: "i < length (kvs (ebin t k))" "kvs (ebin t k) ! i = (k, v)" by (auto simp: in_set_conv_nth)
  have "bs (ebin t k) ! i < length (s_heap t)" using chain_bounds [OF B(1)] B(2) i(1) by simp
  then show thesis using found [OF Some i] B(4) [OF i(1)] i(2) by simp
qed

lemma el_get_rep:
  assumes "el_rep t bs kvs" "0 \<notin> set k"
  shows "\<exists>p. el_ht_get (k @ 0 # r) t =
      Inr (p, if el_map t k = None then s_print (map (\<lambda>c. char_of (unat c)) k) t else t) \<and>
    map_option (\<lambda>a. takeWhile (\<lambda>c. c \<noteq> 0) (the (s_val (s_heap t ! a)))) p = el_map t k"
  using assms(1)
proof (cases rule: el_lookup [where k = k])
  case absent
  then show ?thesis
    using el_find_rep(2) [OF assms absent(2)] el_bin_rep [OF assms]
    by (simp add: el_ht_get_def c_str_terminated assms(2))
next
  case (found i v)
  then obtain r' where e: "s_key (s_heap t ! (bs (ebin t k) ! i)) = Some (k @ 0 # r')"
    "s_val (s_heap t ! (bs (ebin t k) ! i)) = Some (pad VAL_SIZE v)" "0 \<notin> set v" by (auto simp: el_holds_def)
  show ?thesis
    using el_find_rep(1) [OF assms found(2,3)] el_bin_rep [OF assms] found(1,4) e
      strcmp_eq_c_str [OF assms(2,2), of r r']
    by (simp add: el_ht_get_def deref_def takeWhile_pad)
qed

section \<open>Insertion\<close>

lemma el_overwrite_holds:
  assumes "el_holds e k w" "0 \<notin> set v" "length v < VAL_SIZE"
  shows "\<exists>e'. el_overwrite (pad VAL_SIZE v) VAL_SIZE e = Inr e' \<and> el_holds e' k v \<and> s_next e' = s_next e"
  using assms by (auto simp: el_overwrite_def el_holds_def memread_def pad_def)

lemma el_push_rep:
  assumes "el_rep t bs kvs" "k \<notin> fst ` set (kvs (ebin t k))" "el_holds e k v" "s_next e = s_table t ! ebin t k"
  defines "b \<equiv> ebin t k" and "a \<equiv> length (s_heap t)"
  shows "el_rep (t\<lparr>s_heap := s_heap t @ [e], s_table := (s_table t)[b := Some a]\<rparr>)
    (bs(b := a # bs b)) (kvs(b := (k, v) # kvs b))"
proof -
  let ?h = "s_heap t @ [e]" and ?tab = "(s_table t)[b := Some a]"
  note D = el_repD [OF assms(1)]
  note B = bucket_ofD [OF D(8) [of k], folded b_def]
  have b: "b < nat (s_size t)" unfolding b_def by (rule D(5))
  have "chain_of s_next ?h (?tab ! b) (a # bs b)"
    using chain_push [of s_next "s_heap t" "s_table t ! b" "bs b" e] B(1) assms(4) b D(4)
    by (simp add: a_def b_def)
  moreover have "list_all2 (\<lambda>a (k, v). el_holds (?h ! a) k v) (a # bs b) ((k, v) # kvs b)"
    using all_holds_append [OF B(6) chain_bounds [OF B(1)], of "[e]"] assms(3) by (simp add: a_def)
  moreover have "distinct (map fst ((k, v) # kvs b))" using B(3) assms(2) by (simp add: b_def)
  moreover have "\<forall>x \<in> fst ` set ((k, v) # kvs b). ebin t x = b"
  proof
    fix x assume "x \<in> fst ` set ((k, v) # kvs b)"
    then have "x = k \<or> x \<in> fst ` set (kvs b)" by simp
    then show "ebin t x = b" using B(5) [of x] b_def by blast
  qed
  ultimately have "bucket_of s_next el_holds (ebin t) ?h ?tab b (a # bs b) ((k, v) # kvs b)"
    unfolding bucket_of_def by blast
  then have "table_of s_next el_holds (ebin t) (nat (s_size t)) ?h ?tab (bs(b := a # bs b)) (kvs(b := (k, v) # kvs b))"
    using D(4) by (intro table_update [OF D(3) b]) (auto simp: nth_append a_def)
  moreover have "ebin (t\<lparr>s_heap := ?h, s_table := ?tab\<rparr>) = ebin t" by (rule ext) (simp add: ebin_def)
  ultimately show ?thesis using D(1,2) by (simp add: el_rep_def)
qed

definition el_always :: suvm_alloc where
  "el_always n j x \<longleftrightarrow> True"

definition el_state :: "int \<Rightarrow> string list \<Rightarrow> eleos \<Rightarrow> bool" where
  "el_state sz msgs t \<longleftrightarrow> (\<exists>bs kvs. el_rep t bs kvs) \<and> s_size t = sz \<and> s_out t = msgs"

lemma el_overwrite_rep:
  assumes "el_rep t bs kvs" "i < length (kvs (ebin t k))" "kvs (ebin t k) ! i = (k, w)"
    "el_holds e k v" "s_next e = s_next (s_heap t ! (bs (ebin t k) ! i))"
  shows "el_rep (t\<lparr>s_heap := (s_heap t)[bs (ebin t k) ! i := e]\<rparr>) bs
    (kvs(ebin t k := (kvs (ebin t k))[i := (k, v)]))"
proof -
  note D = el_repD [OF assms(1)]
  have p: "ebin (t\<lparr>s_heap := h\<rparr>) = ebin t" for h by (rule ext) (simp add: ebin_def)
  from table_overwrite [OF D(3) D(5) assms(2-5)] D(1,2) show ?thesis by (simp add: el_rep_def p)
qed

lemma el_set_rep:
  assumes "el_rep t bs kvs" "0 \<notin> set k" "length (k @ 0 # r) = KEY_SIZE" "0 \<notin> set v" "length v < VAL_SIZE"
  shows "\<exists>t' bs' l. el_ht_set el_always (k @ 0 # r) (pad VAL_SIZE v) KEY_SIZE VAL_SIZE t = Inr t' \<and>
    el_rep t' bs' (kvs(ebin t k := l)) \<and> map_of l = (map_of (kvs (ebin t k)))(k \<mapsto> v) \<and>
    s_size t' = s_size t \<and> s_out t' = s_out t"
  using assms(1)
proof (cases rule: el_lookup [where k = k])
  case absent
  define e where "e = \<lparr>s_key = Some (k @ 0 # r), s_val = Some (pad VAL_SIZE v), s_next = s_table t ! ebin t k\<rparr>"
  let ?t = "t\<lparr>s_heap := s_heap t @ [e], s_table := (s_table t)[ebin t k := Some (length (s_heap t))]\<rparr>"
  have e: "el_holds e k v" "s_next e = s_table t ! ebin t k"
    using assms(2,4,5) by (auto simp: el_holds_def e_def)
  have "length (pad VAL_SIZE v) = VAL_SIZE" using assms(5) by (simp add: pad_def)
  then have "el_ht_set el_always (k @ 0 # r) (pad VAL_SIZE v) KEY_SIZE VAL_SIZE t = Inr ?t"
    using el_find_rep(2) [OF assms(1,2) absent(2)] el_bin_rep [OF assms(1,2)] assms(3)
    by (simp add: el_ht_set_def el_ht_newpair_def el_always_def memread_def e_def el_sizes)
  moreover have "map_of ((k, v) # kvs (ebin t k)) = (map_of (kvs (ebin t k)))(k \<mapsto> v)" by simp
  ultimately show ?thesis
    using el_push_rep [OF assms(1) absent(2) e]
    by (intro exI [of _ ?t] exI [of _ "bs(ebin t k := length (s_heap t) # bs (ebin t k))"]
        exI [of _ "(k, v) # kvs (ebin t k)"]) simp
next
  case (found i w)
  from el_overwrite_holds [OF found(5) assms(4,5)] obtain e' where
    e': "el_overwrite (pad VAL_SIZE v) VAL_SIZE (s_heap t ! (bs (ebin t k) ! i)) = Inr e'" "el_holds e' k v"
    "s_next e' = s_next (s_heap t ! (bs (ebin t k) ! i))" by blast
  let ?t = "t\<lparr>s_heap := (s_heap t)[bs (ebin t k) ! i := e']\<rparr>"
  have "el_ht_set el_always (k @ 0 # r) (pad VAL_SIZE v) KEY_SIZE VAL_SIZE t = Inr ?t"
    using el_find_rep(1) [OF assms(1,2) found(2,3)] el_bin_rep [OF assms(1,2)] e'(1) found(4)
    by (simp add: el_ht_set_def deref_def)
  moreover have "map_of ((kvs (ebin t k))[i := (k, v)]) = (map_of (kvs (ebin t k)))(k \<mapsto> v)"
    using found(3) by (intro map_of_map_upd_nth [OF bucket_ofD(3) [OF el_repD(8) [OF assms(1)]] found(2)]) simp
  ultimately show ?thesis
    using el_overwrite_rep [OF assms(1) found(2,3) e'(2,3)]
    by (intro exI [of _ ?t] exI [of _ bs] exI [of _ "(kvs (ebin t k))[i := (k, v)]"]) simp
qed

lemma el_set_state:
  assumes "el_state sz msgs t" "0 \<notin> set k" "length (k @ 0 # r) = KEY_SIZE" "0 \<notin> set v" "length v < VAL_SIZE"
  shows "\<exists>t'. el_ht_set el_always (k @ 0 # r) (pad VAL_SIZE v) KEY_SIZE VAL_SIZE t = Inr t' \<and>
    el_state sz msgs t' \<and> el_map t' = (el_map t)(k \<mapsto> v)"
proof -
  obtain bs kvs where rep: "el_rep t bs kvs" using assms(1) by (auto simp: el_state_def)
  from el_set_rep [OF rep assms(2-5)] obtain t' bs' l where
    t': "el_ht_set el_always (k @ 0 # r) (pad VAL_SIZE v) KEY_SIZE VAL_SIZE t = Inr t'"
    "el_rep t' bs' (kvs(ebin t k := l))" "map_of l = (map_of (kvs (ebin t k)))(k \<mapsto> v)"
    "s_size t' = s_size t" "s_out t' = s_out t" by blast
  have "el_map t' x = ((el_map t)(k \<mapsto> v)) x" for x
    using el_map_rep [OF t'(2), of x] el_map_rep [OF rep, of x] t'(3,4) by (auto simp: ebin_def)
  with t' assms(1) show ?thesis unfolding el_state_def by blast
qed

section \<open>Requests\<close>

definition el_set_line :: "bytes \<times> bytes \<Rightarrow> bytes" where
  "el_set_line kv = pad EL_BUF_SIZE (lit ''SET '' @ fst kv @ blank # snd kv)"

definition el_get_line :: "bytes \<Rightarrow> bytes" where
  "el_get_line k = pad EL_BUF_SIZE (lit ''GET '' @ k)"

definition el_key_ok :: "bytes \<Rightarrow> bool" where
  "el_key_ok k \<longleftrightarrow> plain_word k \<and> length k < KEY_SIZE"

definition el_admits :: "bytes \<Rightarrow> bytes \<Rightarrow> bool" where
  "el_admits k v \<longleftrightarrow> el_key_ok k \<and> 0 \<notin> set v \<and> length v < VAL_SIZE"

lemma plain_word_no_blank: "plain_word k \<Longrightarrow> takeWhile (\<lambda>c. c = blank) (k @ x) = []"
  by (cases k) (auto simp: plain_word_def)

lemma el_copy_key:
  assumes "el_key_ok k" "KEY_SIZE \<le> length (k @ 0 # r)"
  shows "\<exists>r'. el_copy KEY_SIZE (k @ 0 # r) = Inr (k @ 0 # r') \<and> length (k @ 0 # r') = KEY_SIZE"
proof (cases "length k = 16")
  case True
  then show ?thesis using assms by (simp add: el_copy_def memread_def el_sizes)
next
  case False
  with assms have l: "length k < 16" by (simp add: el_key_ok_def el_sizes)
  then have "take 16 (k @ 0 # r) = k @ 0 # take (15 - length k) r"
    by (simp add: take_Cons' numeral_eq_Suc)
  with l assms(2) show ?thesis
    by (intro exI [of _ "take (15 - length k) r @ [0]"]) (simp add: el_copy_def memread_def el_sizes)
qed

lemma el_copy_val:
  assumes "length v < VAL_SIZE" "VAL_SIZE \<le> n"
  shows "el_copy VAL_SIZE (pad n v) = Inr (pad VAL_SIZE v)"
proof -
  have "take (VAL_SIZE - 1) (pad n v) = v @ replicate (VAL_SIZE - 1 - length v) 0"
    using assms by (simp add: pad_def min_def)
  moreover have "replicate (VAL_SIZE - 1 - length v) 0 @ [0 :: byte] = replicate (VAL_SIZE - length v) 0"
    using assms(1) by (simp add: replicate_append_same flip: replicate_Suc)
  ultimately show ?thesis using assms by (simp add: el_copy_def memread_def pad_def)
qed

lemma el_set_request:
  assumes "el_admits k v"
  shows "\<exists>r. length (k @ 0 # r) = KEY_SIZE \<and>
    el_enclave_set mem (el_set_line (k, v)) t = el_ht_set mem (k @ 0 # r) (pad VAL_SIZE v) KEY_SIZE VAL_SIZE t"
proof -
  have k: "plain_word k" "length k < 17" and v: "length v < VAL_SIZE" and ko: "el_key_ok k"
    using assms by (auto simp: el_admits_def el_key_ok_def el_sizes)
  let ?r = "pad (EL_BUF_SIZE - 5 - length k) v"
  have line: "drop 4 (el_set_line (k, v)) = k @ blank # ?r" "4 \<le> length (el_set_line (k, v))"
    by (simp_all add: el_set_line_def pad_def lit_def numeral_eq_Suc)
  have "KEY_SIZE \<le> length (k @ 0 # ?r)" using k(2) v by (simp add: pad_def el_sizes)
  from el_copy_key [OF ko this] obtain r where
    r: "el_copy KEY_SIZE (k @ 0 # ?r) = Inr (k @ 0 # r)" "length (k @ 0 # r) = KEY_SIZE" by blast
  have "VAL_SIZE \<le> EL_BUF_SIZE - 5 - length k" using k(2) by (simp add: el_sizes)
  from el_copy_val [OF v this] strtok_r_word_blank [OF k(1), of ?r] plain_word_no_blank [OF k(1)] r show ?thesis
    by (intro exI [of _ r]) (simp add: el_enclave_set_def el_parse_def line)
qed

lemma el_get_request:
  assumes "el_key_ok k"
  shows "\<exists>r. el_enclave_get (el_get_line k) t = bindE (el_ht_get (k @ 0 # r) t) (\<lambda>(ret, t').
      Inr (if ret = None then s_print ''No value correspond to the key'' t' else t'))"
proof -
  have k: "plain_word k" "length k < 17" using assms by (auto simp: el_key_ok_def el_sizes)
  let ?r = "replicate (EL_BUF_SIZE - 5 - length k) 0"
  have line: "drop 4 (el_get_line k) = k @ 0 # ?r" "4 \<le> length (el_get_line k)"
    using k(2) by (simp_all add: el_get_line_def pad_def lit_def el_sizes Suc_diff_Suc flip: replicate_Suc)
  have "KEY_SIZE \<le> length (k @ 0 # ?r)" using k(2) by (simp add: el_sizes)
  from el_copy_key [OF assms this] obtain r where r: "el_copy KEY_SIZE (k @ 0 # ?r) = Inr (k @ 0 # r)" by blast
  with strtok_r_word_end [OF k(1), of ?r] plain_word_no_blank [OF k(1)] show ?thesis
    by (intro exI [of _ r]) (simp add: el_enclave_get_def el_parse_def line)
qed

section \<open>The store as a key-value store\<close>

definition el_put :: "eleos \<Rightarrow> bytes \<Rightarrow> bytes \<Rightarrow> eleos res" where
  "el_put t k v = el_enclave_set el_always (el_set_line (k, v)) t"

definition el_fetch :: "eleos \<Rightarrow> bytes \<Rightarrow> bytes option res" where
  "el_fetch t k = bindE (el_ht_get (pad KEY_SIZE k) t) (\<lambda>(p, _).
     Inr (map_option (\<lambda>a. takeWhile (\<lambda>c. c \<noteq> 0) (the (s_val (s_heap t ! a)))) p))"

lemma el_put_ok:
  assumes "el_state sz msgs t" "el_admits k v"
  shows "\<exists>t'. el_put t k v = Inr t' \<and> el_state sz msgs t' \<and> el_map t' = (el_map t)(k \<mapsto> v)"
proof -
  from el_set_request [OF assms(2)] obtain r where r: "length (k @ 0 # r) = KEY_SIZE"
    "el_put t k v = el_ht_set el_always (k @ 0 # r) (pad VAL_SIZE v) KEY_SIZE VAL_SIZE t"
    unfolding el_put_def by blast
  with el_set_state [OF assms(1) _ r(1)] assms(2) show ?thesis
    by (auto simp: el_admits_def el_key_ok_def plain_word_def)
qed

lemma el_fetch_ok:
  assumes "el_state sz msgs t" "el_key_ok k"
  shows "el_fetch t k = Inr (el_map t k)"
proof -
  obtain bs kvs where rep: "el_rep t bs kvs" using assms(1) by (auto simp: el_state_def)
  have k: "0 \<notin> set k" "length k < KEY_SIZE" using assms(2) by (auto simp: el_key_ok_def plain_word_def)
  from el_get_rep [OF rep k(1), of "replicate (KEY_SIZE - length k - 1) 0"] pad_split [OF k(2)] show ?thesis
    by (auto simp: el_fetch_def)
qed

interpretation eleos: kv_store "el_state sz msgs" el_map el_admits el_key_ok el_put el_fetch for sz msgs
  using el_put_ok el_fetch_ok by unfold_locales auto

section \<open>Workloads\<close>

lemma length_el_lines: "el_admits k v \<Longrightarrow> length (el_set_line (k, v)) = EL_BUF_SIZE"
  "el_key_ok k \<Longrightarrow> length (el_get_line k) = EL_BUF_SIZE"
  by (simp_all add: el_admits_def el_key_ok_def el_set_line_def el_get_line_def pad_def lit_def el_sizes)

lemma el_load:
  assumes "el_state sz msgs t" "\<forall>(k, v) \<in> set kvs. el_admits k v"
  shows "\<exists>t'. el_each (el_load_line el_always) (map el_set_line kvs) t = Inr t' \<and> el_state sz msgs t' \<and>
    el_map t' = el_map t ++ map_of (rev kvs)"
proof -
  have "el_each (el_load_line el_always) (map el_set_line kvs) t = puts el_put t kvs"
    using assms(2)
  proof (induction kvs arbitrary: t)
    case (Cons kv kvs)
    obtain k v where kv: "kv = (k, v)" by (cases kv)
    have a: "el_admits k v" using Cons.prems kv by simp
    have c: "is_command 3 ''SET'' ''set'' (el_set_line (k, v)) = Inr True"
      by (simp add: el_set_line_def pad_def is_command_def lit_def)
    have "memread EL_BUF_SIZE (el_set_line (k, v)) = Inr (el_set_line (k, v))"
      using length_el_lines(1) [OF a] by (simp add: memread_def)
    then have "el_load_line el_always (el_set_line kv) t = el_put t k v"
      by (simp add: kv el_load_line_def c el_put_def)
    then show ?case using Cons kv by simp
  qed simp
  with eleos.puts_ok [OF assms(1), of kvs] assms(2) show ?thesis by auto
qed

lemma el_state_print:
  assumes "el_state sz msgs t"
  shows "el_state sz (msgs @ [m]) (s_print m t)" "el_map (s_print m t) = el_map t"
proof -
  have b: "ebin (s_print m t) = ebin t" by (rule ext) (simp add: ebin_def s_print_def)
  have f: "s_heap (s_print m t) = s_heap t" "s_table (s_print m t) = s_table t" "s_size (s_print m t) = s_size t"
    by (simp_all add: s_print_def)
  show "el_state sz (msgs @ [m]) (s_print m t)"
    using assms unfolding el_state_def el_rep_def b f by (auto simp: s_print_def)
  show "el_map (s_print m t) = el_map t"
    by (rule ext) (simp only: el_map_def el_pairs_def b f)
qed

definition el_missing :: "bytes \<Rightarrow> string list" where
  "el_missing k = [map (\<lambda>c. char_of (unat c)) k, ''No value correspond to the key'']"

lemma el_run_get:
  assumes "el_state sz msgs t" "el_key_ok k"
  shows "\<exists>t'. el_run_line mem (el_get_line k) t = Inr t' \<and> el_map t' = el_map t \<and>
    el_state sz (msgs @ (if el_map t k = None then el_missing k else [])) t'"
proof -
  obtain bs kvs where rep: "el_rep t bs kvs" using assms(1) by (auto simp: el_state_def)
  have k: "0 \<notin> set k" using assms(2) by (simp add: el_key_ok_def plain_word_def)
  have c: "is_command 3 ''GET'' ''get'' (el_get_line k) = Inr True"
    by (simp add: el_get_line_def pad_def is_command_def lit_def)
  have m: "memread EL_BUF_SIZE (el_get_line k) = Inr (el_get_line k)"
    using length_el_lines(2) [OF assms(2)] by (simp add: memread_def)
  from el_get_request [OF assms(2), of t] obtain r where
    g: "el_enclave_get (el_get_line k) t = bindE (el_ht_get (k @ 0 # r) t) (\<lambda>(ret, t').
      Inr (if ret = None then s_print ''No value correspond to the key'' t' else t'))" by blast
  from el_get_rep [OF rep k, of r] obtain p where p: "el_ht_get (k @ 0 # r) t =
      Inr (p, if el_map t k = None then s_print (map (\<lambda>c. char_of (unat c)) k) t else t)"
    "(p = None) = (el_map t k = None)" by (metis (no_types, lifting) option.map_disc_iff)
  note s1 = el_state_print [OF assms(1), of "map (\<lambda>c. char_of (unat c)) k"]
  note s2 = el_state_print [OF s1(1), of "''No value correspond to the key''"]
  show ?thesis
    using assms(1) g p s1(2) s2 by (cases "el_map t k") (simp_all add: el_run_line_def m c el_missing_def)
qed

lemma el_run:
  "el_state sz msgs t \<Longrightarrow> \<forall>k \<in> set ks. el_key_ok k \<Longrightarrow>
   \<exists>t'. el_each (el_run_line mem) (map el_get_line ks) t = Inr t' \<and> el_map t' = el_map t \<and>
     el_state sz (msgs @ concat (map el_missing (filter (\<lambda>k. el_map t k = None) ks))) t'"
proof (induction ks arbitrary: t msgs)
  case Nil
  then show ?case by simp
next
  case (Cons k ks)
  have "el_key_ok k" using Cons.prems(2) by simp
  from el_run_get [OF Cons.prems(1) this, of mem] obtain t1 where
    t1: "el_run_line mem (el_get_line k) t = Inr t1" "el_map t1 = el_map t"
    "el_state sz (msgs @ (if el_map t k = None then el_missing k else [])) t1" by blast
  from Cons.IH [OF t1(3)] Cons.prems(2) t1(1,2) show ?case by (cases "el_map t k") auto
qed

text \<open>
  C25. The Eleos store runs a workload as a map would: on a new table of any positive size the
  process of the one thread loads SET lines and runs GET lines; the final map has for every key
  the value of the last line that sets it, and a GET line whose key was not loaded prints the
  key and a message.
\<close>

theorem eleos_workload:
  assumes "0 < sz" "sz < 2 ^ 31" "\<forall>(k, v) \<in> set kvs. el_admits k v" "\<forall>k \<in> set ks. el_key_ok k"
  shows "\<exists>t. bindE (el_ht_create el_always sz)
      (el_enclave_process el_always 0 [map el_set_line kvs] [map el_get_line ks]) = Inr t \<and>
    el_map t = map_of (rev kvs) \<and>
    s_out t = [''Load Process has done''] @
      concat (map el_missing (filter (\<lambda>k. k \<notin> fst ` set kvs) ks)) @ [''Run Process has done'']"
proof -
  let ?t = "\<lparr>s_size = sz, s_table = replicate (nat sz) None, s_heap = [], s_out = []\<rparr>"
  have "el_rep ?t (\<lambda>_. []) (\<lambda>_. [])" using assms(1,2) by (simp add: el_rep_def table_of_empty)
  then have t0: "el_state sz [] ?t" "el_map ?t = Map.empty"
    using el_map_rep [of ?t "\<lambda>_. []" "\<lambda>_. []"] by (auto simp: el_state_def)
  have c: "el_ht_create el_always sz = Inr ?t" using assms(1) by (simp add: el_ht_create_def el_always_def)
  from el_load [OF t0(1) assms(3)] t0(2) obtain t1 where
    t1: "el_each (el_load_line el_always) (map el_set_line kvs) ?t = Inr t1" "el_state sz [] t1"
    "el_map t1 = map_of (rev kvs)" by auto
  let ?t2 = "s_print ''Load Process has done'' t1"
  note s2 = el_state_print [OF t1(2), of "''Load Process has done''"]
  from el_run [OF s2(1) assms(4), of el_always] obtain t3 where
    t3: "el_each (el_run_line el_always) (map el_get_line ks) ?t2 = Inr t3" "el_map t3 = el_map t1"
    "el_state sz (([] @ [''Load Process has done'']) @
      concat (map el_missing (filter (\<lambda>k. el_map t1 k = None) ks))) t3" unfolding s2(2) by blast
  have f: "filter (\<lambda>k. el_map t1 k = None) ks = filter (\<lambda>k. k \<notin> fst ` set kvs) ks"
    by (simp add: t1(3) map_of_eq_None_iff)
  have "el_map (s_print ''Run Process has done'' t3) = map_of (rev kvs)"
    using el_state_print(2) [OF t3(3)] t3(2) t1(3) by simp
  moreover have "s_out (s_print ''Run Process has done'' t3) = [''Load Process has done''] @
      concat (map el_missing (filter (\<lambda>k. k \<notin> fst ` set kvs) ks)) @ [''Run Process has done'']"
    using t3(3) unfolding f by (simp add: el_state_def s_print_def)
  ultimately show ?thesis
    using t1(1) t3(1) by (simp add: c el_enclave_process_def el_barrier_def el_sizes)
qed

theorem eleos_workload_witness:
  "\<exists>t. bindE (el_ht_create el_always 2)
      (el_enclave_process el_always 0 [map el_set_line [(lit ''a'', lit ''x''), (lit ''a'', lit ''y'')]]
        [map el_get_line [lit ''a'', lit ''b'']]) = Inr t \<and>
    el_map t (lit ''a'') = Some (lit ''y'') \<and>
    s_out t = [''Load Process has done'', ''b'', ''No value correspond to the key'', ''Run Process has done'']"
proof -
  have l: "\<forall>(k, v) \<in> set [(lit ''a'', lit ''x''), (lit ''a'', lit ''y'')]. el_admits k v"
    "\<forall>k \<in> set [lit ''a'', lit ''b'']. el_key_ok k"
    by (simp_all add: el_admits_def el_key_ok_def plain_word_def lit_def blank_def el_sizes)
  show ?thesis
    using eleos_workload [OF _ _ l, of 2] by (simp add: lit_def el_missing_def) (auto simp: char_of_def bit_Suc_0_iff)
qed

section \<open>An entry without a key\<close>

text \<open>The loops of \<open>ht_set\<close> and \<open>ht_get\<close> do not leave an entry whose key is \<open>NULL\<close>.\<close>

lemma keyless_entry_diverges:
  "a < length h \<Longrightarrow> s_key (h ! a) = None \<Longrightarrow> el_find n h key (Some a) = Inl Diverges"
  by (induction n) (simp_all add: deref_def)

end
