(* ===== verification/Store_Interface.thy ===== *)
theory Store_Interface
  imports Sample_World Plain_Correct Eleos_Correct
begin

text \<open>
  The store of the enclave meets the contract of a key-value store, as the stores without its
  protection do: whatever sequence of SET requests they are given, a GET is answered alike.
\<close>

section \<open>The store of the enclave\<close>

definition set_request :: "nat \<Rightarrow> bytes \<Rightarrow> bytes \<Rightarrow> bytes" where
  "set_request n k v = pad n (lit ''SET '' @ k @ blank # v)"

definition get_request :: "nat \<Rightarrow> bytes \<Rightarrow> bytes" where
  "get_request n k = pad n (lit ''GET '' @ k)"

definition ss_state :: "env \<Rightarrow> bytes \<Rightarrow> nat \<Rightarrow> enclave \<Rightarrow> bool" where
  "ss_state E rand n s \<longleftrightarrow> store_inv E s \<and> ndebug E \<and> \<not> mac_opt (arg s) \<and> length rand = NAC_SIZE \<and>
     max_buf_size (arg s) = int n \<and> n < 2 ^ 30 \<and> values_fit n (store_map E s)"

definition ss_admits :: "nat \<Rightarrow> bytes \<Rightarrow> bytes \<Rightarrow> bool" where
  "ss_admits n k v \<longleftrightarrow> plain_word k \<and> 0 \<notin> set v \<and> length k + length v + 5 < n"

definition ss_asks :: "nat \<Rightarrow> bytes \<Rightarrow> bool" where
  "ss_asks n k \<longleftrightarrow> plain_word k \<and> length k + 4 < n"

definition ss_put :: "env \<Rightarrow> bytes \<Rightarrow> nat \<Rightarrow> enclave \<Rightarrow> bytes \<Rightarrow> bytes \<Rightarrow> enclave res" where
  "ss_put E rand n s k v = bindE (enclave_set E rand s (set_request n k v)) (\<lambda>(_, s'). Inr s')"

text \<open>An answer without a message is the value up to its NUL.\<close>

definition ss_fetch :: "env \<Rightarrow> nat \<Rightarrow> enclave \<Rightarrow> bytes \<Rightarrow> bytes option res" where
  "ss_fetch E n s k = bindE (enclave_get E s (get_request n k)) (\<lambda>(c, s').
     Inr (if out s' = out s then Some (takeWhile (\<lambda>c. c \<noteq> 0) c) else None))"

lemma set_request_encodes: "ss_admits n k v \<Longrightarrow> encodes n (set_request n k v) (Set k v)"
proof -
  assume a: "ss_admits n k v"
  then have "length (lit ''SET '' @ k @ blank # v) < n" by (simp add: ss_admits_def lit_def)
  then have "set_request n k v = kv_request (lit ''SET '') k v (replicate (n - length (lit ''SET '' @ k @ blank # v) - 1) 0)"
    "length (set_request n k v) = n"
    by (simp_all add: set_request_def pad_split kv_request_def)
  with a show ?thesis unfolding ss_admits_def encodes.simps by blast
qed

lemma get_request_encodes: "ss_asks n k \<Longrightarrow> encodes n (get_request n k) (Get k)"
proof -
  assume a: "ss_asks n k"
  then have "length (lit ''GET '' @ k) < n" by (simp add: ss_asks_def lit_def)
  then have "get_request n k = key_request (lit ''GET '') k (replicate (n - length (lit ''GET '' @ k) - 1) 0)"
    "length (get_request n k) = n"
    by (simp_all add: get_request_def pad_split key_request_def)
  with a show ?thesis unfolding ss_asks_def encodes.simps by blast
qed

lemma ss_put_ok:
  assumes "ss_state E rand n s" "ss_admits n k v"
  shows "\<exists>s'. ss_put E rand n s k v = Inr s' \<and> ss_state E rand n s' \<and> store_map E s' = (store_map E s)(k \<mapsto> v)"
proof -
  have s: "store_inv E s" "max_buf_size (arg s) = int n" "n < 2 ^ 30" "values_fit n (store_map E s)"
    "length rand = NAC_SIZE" "ndebug E" "\<not> mac_opt (arg s)"
    using assms(1) by (simp_all add: ss_state_def)
  note e = set_request_encodes [OF assms(2)]
  then obtain rest where c: "set_request n k v = kv_request (lit ''SET '') k v rest \<or>
      set_request n k v = kv_request (lit ''set '') k v rest" by auto
  obtain s' where s': "process_request E rand s (set_request n k v) =
      Inr (Reply (answer n (set_request n k v) (store_map E s) (Set k v)), s')" "performed E n (Set k v) s s'"
    by (rule set_performed [OF s(1-4) e s(5-7)])
  from s'(1) obtain x where "enclave_set E rand s (set_request n k v) = Inr (x, s')"
    unfolding command_set [OF c, of E rand s] by (auto simp: bindE_eq_Inr)
  with s' s show ?thesis by (auto simp: ss_put_def performed_def ss_state_def)
qed

lemma ss_fetch_ok:
  assumes "ss_state E rand n s" "ss_asks n k"
  shows "ss_fetch E n s k = Inr (store_map E s k)"
proof -
  have s: "store_inv E s" "max_buf_size (arg s) = int n" "n < 2 ^ 30" "values_fit n (store_map E s)"
    using assms(1) by (simp_all add: ss_state_def)
  from s(1) obtain bs kvs where r: "rep E s bs kvs" by (auto simp: store_inv_def)
  then have r0: "rep0 E s bs kvs" by (simp add: rep_def)
  have e: "encodes n (get_request n k) (Get k)" by (rule get_request_encodes [OF assms(2)])
  then obtain cmd rest where b: "get_request n k = key_request cmd k rest" "length cmd = 4"
    and k: "plain_word k" "length (get_request n k) = n" by (auto simp: lit_def)
  have lk: "length k + 1 < 2 ^ 32" using s(3) assms(2) by (simp add: ss_asks_def)
  show ?thesis
  proof (cases "store_map E s k")
    case None
    with enclave_get_rep_absent [OF r0 None b(2) k(1) lk, of rest] b(1) show ?thesis
      by (simp add: ss_fetch_def print_def)
  next
    case (Some v)
    have q: "request_ok s cmd k (key_request cmd k rest)" using b k lk s(2) by (simp add: request_ok_def)
    have lv: "length v + 1 \<le> length (key_request cmd k rest)" using s(4) Some k(2) b(1) by (simp add: values_fit_def)
    note g = enclave_get_rep_found [OF r Some q lv]
    have "replied s (key_request cmd k rest) (v @ [0]) = pad n (v @ [0])"
      using replied_padded [of s "key_request cmd k rest" "v @ [0]"] s(2) k(2) b(1) lv by simp
    moreover have "takeWhile (\<lambda>c. c \<noteq> 0) (pad n (v @ [0])) = v"
    proof -
      from r0 Some obtain i where i: "i < length (kvs (bin_of s k))" "kvs (bin_of s k) ! i = (k, v)"
        by (rule bucket_nth)
      note B = bucket_repD [OF rep0D(5) [OF r0 bin_of_less [OF rep0D(2) [OF r0], of k]]]
      have "0 \<notin> set v"
        using kv_fitsD(4) [OF entry_holds_fits [OF holds_nth [OF B(2) i(1)]]] i(2) by simp
      then show ?thesis by (simp add: pad_def takeWhile_upto_first)
    qed
    ultimately show ?thesis using g b(1) Some by (simp add: ss_fetch_def)
  qed
qed

interpretation shield: kv_store "ss_state E rand n" "store_map E" "ss_admits n" "ss_asks n" "ss_put E rand n"
  "ss_fetch E n" for E rand n
  using ss_put_ok ss_fetch_ok by unfold_locales auto

text \<open>The table without protection, with values that are C strings.\<close>

definition plain_look :: "plain \<Rightarrow> bytes \<Rightarrow> bytes option" where
  "plain_look t k = map_option (takeWhile (\<lambda>c. c \<noteq> 0)) (plain_map t k)"

definition string_admits :: "bytes \<Rightarrow> bytes \<Rightarrow> bool" where
  "string_admits k v \<longleftrightarrow> plain_admits k (v @ [0]) \<and> 0 \<notin> set v"

definition u_put_string :: "plain \<Rightarrow> bytes \<Rightarrow> bytes \<Rightarrow> plain res" where
  "u_put_string t k v = u_put t k (v @ [0])"

definition u_fetch_string :: "plain \<Rightarrow> bytes \<Rightarrow> bytes option res" where
  "u_fetch_string t k = bindE (plain_fetch t k) (\<lambda>r. Inr (map_option (takeWhile (\<lambda>c. c \<noteq> 0)) r))"

lemma u_put_string_ok:
  assumes "plain_state sz msgs t" "string_admits k v"
  shows "\<exists>t'. u_put_string t k v = Inr t' \<and> plain_state sz msgs t' \<and> plain_look t' = (plain_look t)(k \<mapsto> v)"
proof -
  from plain_put(1) [OF assms(1), of k "v @ [0]"] assms(2) obtain t' where
    t': "u_put t k (v @ [0]) = Inr t'" "plain_state sz msgs t'" "plain_map t' = (plain_map t)(k \<mapsto> v @ [0])"
    by (auto simp: string_admits_def)
  have "0 \<notin> set v" using assms(2) by (simp add: string_admits_def)
  with t' show ?thesis by (auto simp: u_put_string_def plain_look_def fun_eq_iff takeWhile_upto_first)
qed

lemma u_fetch_string_ok: "plain_state sz msgs t \<Longrightarrow> plain_asks k \<Longrightarrow> u_fetch_string t k = Inr (plain_look t k)"
  by (simp add: u_fetch_string_def plain_fetch_ok plain_look_def)

interpretation strings: kv_store "plain_state sz msgs" plain_look string_admits plain_asks u_put_string u_fetch_string
  for sz msgs
  using u_put_string_ok u_fetch_string_ok by unfold_locales auto

interpretation shield_unsecure: kv_pair "ss_state E rand n" "store_map E" "ss_admits n" "ss_asks n" "ss_put E rand n"
  "ss_fetch E n" "plain_state sz msgs" plain_look string_admits plain_asks u_put_string u_fetch_string
  for E rand n sz msgs
  by unfold_locales

interpretation shield_eleos: kv_pair "ss_state E rand n" "store_map E" "ss_admits n" "ss_asks n" "ss_put E rand n"
  "ss_fetch E n" "el_state sz msgs" el_map el_admits el_key_ok el_put el_fetch
  for E rand n sz msgs
  by unfold_locales

section \<open>The same answers\<close>

lemma server_start_usable:
  "usable a \<Longrightarrow> server_start (\<lambda>_. True) junk a = Inr (fresh junk a)"
  by (rule server_start_eq) simp_all

lemma fresh_ss_state:
  assumes "env_ok E" "ndebug E" "usable a" "\<not> mac_opt a" "length rand = NAC_SIZE"
    "\<And>i. length (junk i) = MAC_SIZE * MAC_SLOTS"
  shows "ss_state E rand (nat (max_buf_size a)) (fresh junk a)" "store_map E (fresh junk a) = Map.empty"
proof -
  have "rep E (fresh junk a) (\<lambda>_. []) (\<lambda>_. [])" using assms(6) by (intro fresh_rep [OF assms(1,3)])
  moreover show m: "store_map E (fresh junk a) = Map.empty" using assms(6) by (intro fresh_map [OF assms(1,3)])
  moreover have "arg (fresh junk a) = a" by (simp add: fresh_def)
  ultimately show "ss_state E rand (nat (max_buf_size a)) (fresh junk a)"
    using assms(2-5) by (auto simp: ss_state_def store_inv_def values_fit_def usable_def)
qed



end
