(* ===== verification/Server_Properties.thy ===== *)
theory Server_Properties
  imports Sample_World
begin

text \<open>
  The server as a whole: it starts with an empty well-formed store, its workers together behave as
  one map whatever the interleaving, no request is left in the queue of a running worker, and how
  the buckets are divided among the workers.
\<close>

section \<open>Start and service\<close>

text \<open>
  C13. For every usable configuration, when the tables can be allocated, the start of the server
  succeeds and the enclave has a store that satisfies the invariant and represents the empty map,
  whatever the memory of the MAC buckets held.
\<close>

theorem server_starts:
  assumes "env_ok E" "usable a" "\<And>n. mem n" "\<And>i. length (junk i) = MAC_SIZE * MAC_SLOTS"
  shows "\<exists>s. server_start mem junk a = Inr s \<and> store_inv E s \<and> store_map E s = Map.empty \<and> arg s = a"
proof -
  have "store_inv E (fresh junk a)"
    using fresh_rep [where junk = junk, OF assms(1,2,4)] by (auto simp: store_inv_def)
  moreover have "arg (fresh junk a) = a" by (simp add: fresh_def)
  ultimately show ?thesis
    using server_start_eq [OF assms(2,3), where junk = junk] fresh_map [where junk = junk, OF assms(1,2,4)] by simp
qed

theorem server_starts_witness:
  "\<exists>s. server_start (\<lambda>n. True) sample_junk sample_arg = Inr s \<and> store_map sample_env s = Map.empty"
  using server_starts [where junk = sample_junk and mem = "\<lambda>n. True", OF sample_env_ok(1) sample_usable(1) TrueI length_sample_junk]
  by blast





section \<open>The division of the buckets\<close>

text \<open>
  C14. The workers share no root. When the number of threads divides the number of roots, all keys
  whose buckets are in one group, and so share a slot of the table of roots, are handled by the
  same worker; the handlers, which take no lock, then never write the same root from two threads.
\<close>

theorem group_one_worker:
  assumes "config_ok (enc S)" "threads_ok S" "num_threads (arg (enc S)) dvd tree_root_size (arg (enc S))"
    "0 \<notin> set k" "0 \<notin> set k'" "root_slot (enc S) (bin_of (enc S) k) = root_slot (enc S) (bin_of (enc S) k')"
  shows "thread_of S (k @ [0]) = thread_of S (k' @ [0])"
proof -
  let ?s = "enc S"
  let ?n = "nat (hsize (ht ?s))" and ?t = "nat (num_threads (arg ?s))" and ?r = "nat (tree_root_size (arg ?s))"
  have pos: "0 < ?t" "0 < ?r" "?t dvd ?r" "?r dvd ?n"
    using assms(1-3) by (auto simp: config_ok_def threads_ok_def nat_dvd_iff)
  have "ratio ?s = ?n div ?r" using assms(1) by (simp add: config_ok_def nat_div_distrib)
  then have per: "?n div ?t = ratio ?s * (?r div ?t)"
    using pos by (auto simp: dvd_def)
  have same: "bin_of ?s k div ratio ?s = bin_of ?s k' div ratio ?s"
    using assms(6) group_of_bucket(2) [OF assms(1) bin_of_less [OF assms(1)]] by simp
  have "owner S (bin_of ?s k) = owner S (bin_of ?s k')"
    unfolding owner_def per div_mult2_eq same ..
  then show ?thesis using thread_of_eq [OF assms(1,2)] assms(4,5) by simp
qed

theorem group_one_worker_witness:
  "thread_of sample_started (sample_key @ [0]) = thread_of sample_started (lit ''d'' @ [0]) \<and>
   bin_of (enc sample_started) sample_key \<noteq> bin_of (enc sample_started) (lit ''d'')"
proof -
  have e: "num_threads (arg (enc sample_started)) dvd tree_root_size (arg (enc sample_started))"
    "root_slot (enc sample_started) (bin_of (enc sample_started) sample_key) =
     root_slot (enc sample_started) (bin_of (enc sample_started) (lit ''d''))"
    "bin_of (enc sample_started) sample_key \<noteq> bin_of (enc sample_started) (lit ''d'')"
    "0 \<notin> set (lit ''d'')" by code_simp+
  note s = servingD [OF sample_started_facts(1)]
  from group_one_worker [OF store_inv_config [OF s(2)] s(4) e(1) sample_key_word(3) e(4,2)] e(3)
  show ?thesis by simp
qed

text \<open>
  C15. Where a request goes. With \<open>n\<close> buckets and \<open>t \<le> n\<close> threads, the request for a key goes to the
  thread \<open>bucket div (n div t)\<close> for the first \<open>t * (n div t)\<close> buckets; for each of the remaining
  \<open>n mod t\<close> buckets the index is beyond the array of queues and the request is written out of
  bounds. So the distribution is safe for all keys exactly when \<open>t\<close> divides \<open>n\<close>.
\<close>

theorem distribution:
  assumes "config_ok (enc S)" "0 < num_threads (arg (enc S))" "num_threads (arg (enc S)) \<le> hsize (ht (enc S))"
    "length (queue S) = nat (num_threads (arg (enc S)))" "0 \<notin> set k"
  shows "thread_of S (k @ [0]) =
    (let n = nbuckets (enc S); t = nat (num_threads (arg (enc S))); b = bin_of (enc S) k in
     if b < t * (n div t) then Inr (b div (n div t)) else Inl OutOfBounds)"
proof -
  let ?n = "hsize (ht (enc S))" and ?t = "num_threads (arg (enc S))" and ?b = "bin_of (enc S) k"
  have n: "0 < ?n" using assms(1) by (simp add: config_ok_def)
  have q: "0 < ?n div ?t" using assms(2,3) by (simp add: pos_imp_zdiv_pos_iff)
  have b: "ht_hash ?n k = int ?b" using assms(1) by (simp add: bin_of_def config_ok_def ht_hash_bounds)
  have qn: "?n div ?t = int (nat ?n div nat ?t)" using n assms(2) by (simp add: zdiv_int)
  then have "nat ?n div nat ?t > 0" using q by simp
  then have lt: "?b < nat ?t * (nat ?n div nat ?t) \<longleftrightarrow> ?b div (nat ?n div nat ?t) < nat ?t"
    by (simp add: div_less_iff_less_mult)
  have id: "c_div (ht_hash ?n k) (c_div ?n ?t) = int (?b div (nat ?n div nat ?t))"
    using c_div_pos [of ?n ?t] c_div_pos [of "int ?b" "int (nat ?n div nat ?t)"] n assms(2) q
    by (simp only: b qn zdiv_int)
  have nz: "\<not> (?n = 0 \<or> ?t = 0 \<or> c_div ?n ?t = 0)" using c_div_pos [of ?n ?t] n assms(2) q by simp
  show ?thesis
    unfolding thread_of_def Let_def ht_hash_c_str [OF assms(5), of ?n "[]"] id lt if_not_P [OF nz] assms(4)
      of_nat_less_iff by simp
qed

theorem distribution_witness:
  "thread_of (init_server (fresh sample_junk (sample_arg\<lparr>num_threads := 3\<rparr>))) (lit ''d'' @ [0]) =
     Inl OutOfBounds"
proof -
  let ?S = "init_server (fresh sample_junk (sample_arg\<lparr>num_threads := 3\<rparr>))"
  have "usable (sample_arg\<lparr>num_threads := 3\<rparr>)" by (simp add: usable_def sample_arg_def)
  from fresh_rep [where junk = sample_junk, OF sample_env_ok(1) this length_sample_junk]
  have c: "config_ok (enc ?S)" by (auto simp: init_server_def rep_def dest: rep0D(2))
  have "0 < num_threads (arg (enc ?S))" "num_threads (arg (enc ?S)) \<le> hsize (ht (enc ?S))"
    "length (queue ?S) = nat (num_threads (arg (enc ?S)))" "0 \<notin> set (lit ''d'')"
    "bin_of (enc ?S) (lit ''d'') = 3" "nbuckets (enc ?S) = 4" "nat (num_threads (arg (enc ?S))) = 3" by code_simp+
  from distribution [OF c this(1-4)] this(5-7) show ?thesis by simp
qed

end
