(* ===== verification/Server_App.thy ===== *)
theory Server_App
  imports Workers
begin

text \<open>
  The application side of the server (\<open>App/App.cpp\<close>, \<open>App/ErrorSupport.cpp\<close>): loading the enclave,
  the sockets, and the loop that accepts clients and hands their requests to the enclave. The
  operating system is a parameter: each round of the loop is given what \<open>select\<close>, \<open>accept\<close> and
  \<open>read\<close> return. A request is handed over by a HotCall, which runs \<open>enclave_message_pass\<close> before it
  returns (the main thread is the only requester); its return value is ignored.
\<close>

section \<open>Messages\<close>

definition sgx_errlist :: "(sgx_status \<times> string) list" where
  "sgx_errlist =
     [(SGX_ERROR_UNEXPECTED, ''Unexpected error occurred.''),
      (SGX_ERROR_INVALID_PARAMETER, ''Invalid parameter.''),
      (SGX_ERROR_OUT_OF_MEMORY, ''Out of memory.''),
      (SGX_ERROR_ENCLAVE_LOST, ''Power transition occurred.''),
      (SGX_ERROR_INVALID_ENCLAVE, ''Invalid enclave image.''),
      (SGX_ERROR_INVALID_ENCLAVE_ID, ''Invalid enclave identification.''),
      (SGX_ERROR_INVALID_SIGNATURE, ''Invalid enclave signature.''),
      (SGX_ERROR_OUT_OF_EPC, ''Out of EPC memory.''),
      (SGX_ERROR_NO_DEVICE, ''Invalid SGX device.''),
      (SGX_ERROR_MEMORY_MAP_CONFLICT, ''Memory map conflicted.''),
      (SGX_ERROR_INVALID_METADATA, ''Invalid encalve metadata.''),
      (SGX_ERROR_DEVICE_BUSY, ''SGX device is busy.''),
      (SGX_ERROR_INVALID_VERSION, ''Enclave metadata version is invalid.''),
      (SGX_ERROR_ENCLAVE_FILE_ACCESS, ''Can't open enclave file.''),
      (SGX_ERROR_INVALID_FUNCTION, ''Invalid function name.''),
      (SGX_ERROR_OUT_OF_TCS, ''Out of TCS.''),
      (SGX_ERROR_ENCLAVE_CRASHED, ''The enclave is crashed.''),
      (SGX_ERROR_MAC_MISMATCH, ''Report varification error occurred.''),
      (SGX_ERROR_INVALID_ATTRIBUTE, ''The enclave is not authorized.''),
      (SGX_ERROR_INVALID_CPUSVN, ''Invalid CPUSVN.''),
      (SGX_ERROR_INVALID_ISVSVN, ''Invalid ISVSVN.''),
      (SGX_ERROR_INVALID_KEYNAME, ''The requested key name is invalid.''),
      (SGX_ERROR_SERVICE_UNAVAILABLE, ''AESM service is not responsive.''),
      (SGX_ERROR_SERVICE_TIMEOUT, ''Request to AESM is time out.''),
      (SGX_ERROR_SERVICE_INVALID_PRIVILEGE, ''Error occurred while getting launch token.'')]"

fun errlist_scan :: "(sgx_status \<times> string) list \<Rightarrow> sgx_status \<Rightarrow> string" where
  "errlist_scan [] ret = ''Unexpected error occurred.''"
| "errlist_scan ((err, msg) # es) ret = (if ret = err then msg else errlist_scan es ret)"

definition ret_error_support :: "sgx_status \<Rightarrow> string" where
  "ret_error_support ret = ''Error: '' @ errlist_scan sgx_errlist ret"

definition help_lines :: "string list" where
  "help_lines =
     [''-h : help'', ''-p <port number>'', ''-b <maximum buffer size>'', ''-t <number of threads>'',
      ''-s <number of hash buckets>'', ''-r <number of root nodes in enclave>'',
      ''-y : key-hint optimization on'', ''-c : mac bucketing optimization on'']"

definition parse_option :: "Arg \<Rightarrow> string list" where
  "parse_option a =
     [''Server Configuration'', ''Port: '' @ decimal (port_num a), ''Table Size: '' @ decimal (bucket_size a),
      ''Max Buf Size: '' @ decimal (max_buf_size a), ''Num Threads: '' @ decimal (num_threads a),
      ''Key OPT: '' @ (if key_opt a then ''true'' else ''false''),
      ''MAC OPT: '' @ (if mac_opt a then ''true'' else ''false'')]"

section \<open>Loading the enclave\<close>

text \<open>
  \<open>create\<close> is what \<open>sgx_create_enclave\<close> returns: a status, whether the launch token was updated
  (1), and the identifier; \<open>good\<close> is the state of the token file. The result has the status, the
  identifier, the enclaves that were destroyed, and the output.
\<close>

definition load_and_initialize_enclave ::
  "sgx_status \<times> int \<times> nat \<Rightarrow> bool \<Rightarrow> nat \<Rightarrow> sgx_status \<times> nat \<times> nat list \<times> string list" where
  "load_and_initialize_enclave create good eid =
     (let destroyed = (if eid \<noteq> 0 then [eid] else []) in
      case create of (ret, updated, eid') \<Rightarrow>
        if ret \<noteq> SGX_SUCCESS then (ret, eid', destroyed, [])
        else (ret, eid', destroyed,
              if updated = 1 \<and> \<not> good
              then [''Warning: Failed to save the launch token to '' @ CHR 0x22 # ''Enclave.token'' @ [CHR 0x22]]
              else []))"

section \<open>Connections\<close>

record app =
  srv :: server
  master :: "nat list"
  open_fds :: "nat list"
  server_sockfd :: nat
  fdmax :: nat
  num_connection :: int
  num_clients :: int
  run_phase :: bool
  abuf :: bytes
  stdout :: "string list"

text \<open>
  One round of the outside world: the descriptors that \<open>select\<close> leaves in the set (\<open>None\<close> for -1),
  what \<open>accept\<close> returns, and the bytes \<open>read\<close> stores for a descriptor (\<open>None\<close> when it returns 0 or
  less).
\<close>

record os_round =
  selected :: "nat list option"
  accepted :: int
  arrived :: "nat \<Rightarrow> bytes option"

definition say :: "string \<Rightarrow> app \<Rightarrow> app" where
  "say msg A = A\<lparr>stdout := stdout A @ [msg]\<rparr>"

definition FD_SET :: "nat \<Rightarrow> app \<Rightarrow> app" where
  "FD_SET fd A = A\<lparr>master := List.insert fd (master A)\<rparr>"

definition close_fd :: "nat \<Rightarrow> app \<Rightarrow> app" where
  "close_fd fd A = A\<lparr>open_fds := remove1 fd (open_fds A)\<rparr>"

definition FD_CLR :: "nat \<Rightarrow> app \<Rightarrow> app" where
  "FD_CLR fd A = A\<lparr>master := remove1 fd (master A)\<rparr>"

text \<open>The branch for the listening socket; \<open>None\<close> is \<open>exit(0)\<close>.\<close>

definition accept_client :: "os_round \<Rightarrow> app \<Rightarrow> app option" where
  "accept_client w A =
     (if accepted w = - 1 then None
      else
        let fd = nat (accepted w);
            A1 = FD_SET fd (say ''Accept() is OK'' (A\<lparr>open_fds := fd # open_fds A\<rparr>));
            A2 = (if fdmax A1 < fd then A1\<lparr>fdmax := fd\<rparr> else A1);
            A3 = (if run_phase A2 \<and> num_connection A2 = 0 then say ''Time check start'' A2 else A2);
            A4 = A3\<lparr>num_connection := num_connection A3 + 1\<rparr> in
        Some (if num_clients A4 < num_connection A4
              then say (''num_clients: '' @ decimal (num_connection A4)) (A4\<lparr>num_clients := num_connection A4\<rparr>)
              else A4))"

definition end_load :: "nat \<Rightarrow> app \<Rightarrow> app" where
  "end_load i A =
     (let A1 = FD_CLR i (close_fd i A);
          A2 = A1\<lparr>num_connection := num_connection A1 - 1, run_phase := True\<rparr> in
      if num_connection A2 = 0 then say ''Waiting for running clients'' A2 else A2)"

definition end_client :: "nat \<Rightarrow> app \<Rightarrow> app" where
  "end_client i A =
     (let A1 = FD_CLR i (close_fd i A);
          A2 = A1\<lparr>num_connection := num_connection A1 - 1\<rparr> in
      say (''num_connection: '' @ decimal (num_connection A2) @ '' remained'') A2)"

text \<open>
  The branch for a client: the result says whether the loop over the descriptors is left.
  \<open>read\<close> stores at most \<open>max_buf_size\<close> bytes.
\<close>

definition serve_client :: "os_round \<Rightarrow> nat \<Rightarrow> app \<Rightarrow> (bool \<times> app) res" where
  "serve_client w i A =
     (let n = nat (max_buf_size (arg (enc (srv A)))); A0 = A\<lparr>abuf := replicate n 0\<rparr> in
      case arrived w i of
        None \<Rightarrow> Inr (True, close_fd i A0)
      | Some d \<Rightarrow>
          bindE (enclave_message_pass \<lparr>ebuf = pad n (take n d), esock = int i, enum_clients = num_clients A0\<rparr> (srv A0))
            (\<lambda>(p, S).
          let A1 = A0\<lparr>abuf := ebuf p, srv := S\<rparr> in
          bindE (strncmp_eq 9 (abuf A1) (lit ''LOADDONE'' @ [0])) (\<lambda>is_done.
          let A2 = (if is_done then end_load i A1 else A1) in
          bindE (strncmp_eq 4 (abuf A2) (lit ''EXIT'' @ [0])) (\<lambda>is_exit.
          Inr (if is_exit then (True, end_client i A2) else (False, A2))))))"

text \<open>
  The loop over the descriptors \<open>0..fdmax\<close>, of which only those that \<open>select\<close> has left in the set
  matter: their ascending list is given. \<open>None\<close> is \<open>exit(0)\<close>.
\<close>

fun fd_loop :: "os_round \<Rightarrow> nat list \<Rightarrow> app \<Rightarrow> app option res" where
  "fd_loop w [] A = Inr (Some A)"
| "fd_loop w (i # is) A =
     (if fdmax A < i then Inr (Some A)
      else if i = server_sockfd A
      then (case accept_client w A of None \<Rightarrow> Inr None | Some A' \<Rightarrow> fd_loop w is A')
      else bindE (serve_client w i A) (\<lambda>(left, A'). if left then Inr (Some A') else fd_loop w is A'))"

datatype app_end = Looping app | Finished app | Exit_process

definition main_round :: "os_round \<Rightarrow> app \<Rightarrow> app_end res" where
  "main_round w A =
     (case selected w of
        None \<Rightarrow> Inr Exit_process
      | Some readfds \<Rightarrow>
          bindE (fd_loop w (sort (remdups readfds)) A) (\<lambda>r.
          case r of
            None \<Rightarrow> Inr Exit_process
          | Some A' \<Rightarrow>
              bindE (strncmp_eq 4 (abuf A') (lit ''EXIT'' @ [0])) (\<lambda>is_exit.
                Inr (if is_exit \<and> num_connection A' = 0
                     then Finished (say ''Client request is END'' A') else Looping A'))))"

fun main_loop :: "os_round list \<Rightarrow> app \<Rightarrow> app_end res" where
  "main_loop [] A = Inr (Looping A)"
| "main_loop (w # ws) A =
     bindE (main_round w A) (\<lambda>r. case r of Looping A' \<Rightarrow> main_loop ws A' | _ \<Rightarrow> Inr r)"

section \<open>The main program\<close>

text \<open>
  Before the loop: the options, the enclave, the tables, the sockets. \<open>sock\<close>, \<open>bound\<close> and
  \<open>listening\<close> are the results of \<open>socket\<close>, \<open>bind\<close> and \<open>listen\<close>. The result is the state at the
  start of the loop, or what the process has printed and the value it ends with.
\<close>

definition main_setup ::
  "(char \<times> string) list \<Rightarrow> sgx_status \<times> int \<times> nat \<Rightarrow> bool \<Rightarrow> (nat \<Rightarrow> bool) \<Rightarrow> (nat \<Rightarrow> bytes) \<Rightarrow>
   int \<Rightarrow> int \<Rightarrow> int \<Rightarrow> (string list \<times> int + app) res" where
  "main_setup opts create good mem junk sock bound listening =
     (case main_options opts configuration_init of
        None \<Rightarrow> Inr (Inl (help_lines, 0))
      | Some a \<Rightarrow>
          case load_and_initialize_enclave create good 0 of (ret, eid, _, msgs) \<Rightarrow>
          if ret \<noteq> SGX_SUCCESS then Inr (Inl (msgs @ [ret_error_support ret], - 1))
          else
            bindE (server_start mem junk a) (\<lambda>s.
            if sock < 0 then Inr (Inl (msgs @ parse_option a, 0))
            else if bound = - 1 then Inr (Inl (msgs @ parse_option a, 0))
            else if listening = - 1 then Inr (Inl (msgs @ parse_option a, 0))
            else if \<not> mem (size_arg (max_buf_size a)) then Inl NullDeref
            else if max_buf_size a < 0 then Inl OutOfBounds
            else Inr (Inr
              \<lparr>srv = init_server s, master = [nat sock], open_fds = [nat sock], server_sockfd = nat sock,
               fdmax = nat sock, num_connection = 0, num_clients = 0, run_phase = False,
               abuf = replicate (nat (max_buf_size a)) 0, stdout = msgs @ parse_option a\<rparr>)))"

end
