(* ===== verification/Server_App_Correct.thy ===== *)
theory Server_App_Correct
  imports Server_App Sample_World
begin

text \<open>
  The application loop keeps count of its clients, acts on the enclave only by passing requests,
  and ends only when the last client has left; and what happens when a client leaves without
  saying so, or says so in lower case.
\<close>

section \<open>The outside world\<close>

text \<open>
  What the loop relies on: \<open>select\<close> leaves only descriptors of the set it was given, and fails
  when one of them is closed; \<open>accept\<close> fails or returns a descriptor that is not open.
\<close>

definition os_ok :: "os_round \<Rightarrow> app \<Rightarrow> bool" where
  "os_ok w A \<longleftrightarrow>
     (case selected w of
        None \<Rightarrow> True
      | Some r \<Rightarrow> set r \<subseteq> set (master A) \<and> set (master A) \<subseteq> set (open_fds A)) \<and>
     (accepted w = - 1 \<or> 0 \<le> accepted w \<and> nat (accepted w) \<notin> set (open_fds A))"

fun os_run :: "os_round list \<Rightarrow> app \<Rightarrow> bool" where
  "os_run [] A = True"
| "os_run (w # ws) A =
     (os_ok w A \<and> (case main_round w A of Inr (Looping A') \<Rightarrow> os_run ws A' | _ \<Rightarrow> True))"

section \<open>Passing requests\<close>

lemma push_quits_enc: "push_quits is S = Inr S' \<Longrightarrow> enc S' = enc S"
  by (induction "is" arbitrary: S) (auto simp: fault_simps push_job_def)

lemma message_return_enc: "message_return b sock S = Inr S' \<Longrightarrow> enc S' = enc S"
  by (auto simp: message_return_def Let_def fault_simps split: if_splits)

lemma strtok_r_length: "strtok_r b = Inr (tok, temp, b') \<Longrightarrow> length b' = length b"
proof -
  assume a: "strtok_r b = Inr (tok, temp, b')"
  define sk where "sk = takeWhile (\<lambda>c. c = blank) b"
  define tk where "tk = takeWhile (\<lambda>c. c \<noteq> blank \<and> c \<noteq> 0) (drop (length sk) b)"
  from a obtain c rest where r: "drop (length tk) (drop (length sk) b) = c # rest"
    "b' = b \<or> b' = sk @ tk @ 0 # rest"
    unfolding strtok_r_def Let_def sk_def [symmetric] tk_def [symmetric]
    by (cases "drop (length tk) (drop (length sk) b)") (auto split: if_splits)
  have "b = sk @ drop (length sk) b" unfolding sk_def by (metis dropWhile_eq_drop takeWhile_dropWhile_id)
  also have "drop (length sk) b = tk @ c # rest"
    unfolding r(1) [symmetric] tk_def by (metis dropWhile_eq_drop takeWhile_dropWhile_id)
  finally have "length b = length (sk @ tk @ c # rest)" by simp
  with r(2) show ?thesis by auto
qed

lemma parse_key_length: "parse_key c = Inr (k, temp, c') \<Longrightarrow> length c' = length c"
proof -
  assume a: "parse_key c = Inr (k, temp, c')"
  then have c: "4 \<le> length c" by (auto simp: parse_key_def fault_simps)
  obtain tok temp' b where t: "strtok_r (drop 4 c) = Inr (tok, temp', b)"
    using a c by (cases "strtok_r (drop 4 c)") (auto simp: parse_key_def)
  with a c have "c' = take 4 c @ b" by (cases tok) (simp_all add: parse_key_def)
  with strtok_r_length [OF t] c show ?thesis by simp
qed

lemma pass_frame:
  assumes "enclave_message_pass p S = Inr (p', S')"
  shows "arg (enc S') = arg (enc S)" "length (ebuf p') = length (ebuf p)"
proof -
  have "arg (enc S') = arg (enc S) \<and> length (ebuf p') = length (ebuf p)"
  proof (cases "is_command 4 ''EXIT'' ''exit'' (ebuf p) = Inr True")
    case True
    with assms show ?thesis
      by (auto simp: enclave_message_pass_def Let_def fault_simps enc_print_def
          split: if_splits dest!: push_quits_enc message_return_enc)
  next
    case False
    show ?thesis
    proof (cases "strncmp_eq 8 (ebuf p) (lit ''LOADDONE'' @ [0]) = Inr True")
      case True
      with False assms show ?thesis
        by (auto simp: enclave_message_pass_def Let_def fault_simps enc_print_def
            split: if_splits dest!: message_return_enc)
    next
      case False2: False
      obtain b k temp c' t where "parse_key (ebuf p) = Inr (k, temp, c')" "p' = p\<lparr>ebuf := c'\<rparr>"
        "S' = push_job t \<lparr>client_sock = esock p, buf = b\<rparr> S"
        using assms False False2
        by (auto simp: enclave_message_pass_def Let_def fault_simps split: if_splits)
      then show ?thesis using parse_key_length [of "ebuf p" k temp c'] by (simp add: push_job_def)
    qed
  qed
  then show "arg (enc S') = arg (enc S)" "length (ebuf p') = length (ebuf p)" by simp_all
qed

section \<open>Invariant\<close>

definition app_inv :: "app \<Rightarrow> bool" where
  "app_inv A \<longleftrightarrow> distinct (master A) \<and> distinct (open_fds A) \<and> server_sockfd A \<in> set (master A) \<and>
     set (open_fds A) \<subseteq> set (master A) \<and> num_connection A = int (length (master A)) - 1 \<and>
     num_connection A \<le> num_clients A \<and> (\<forall>fd \<in> set (master A). fd \<le> fdmax A)"

lemmas app_simps = say_def FD_SET_def FD_CLR_def close_fd_def Let_def

lemma accept_srv:
  assumes "accept_client w A = Some A'"
  shows "srv A' = srv A" "accepted w \<noteq> - 1"
proof -
  show n: "accepted w \<noteq> - 1" using assms by (auto simp: accept_client_def)
  have e: "A' = the (accept_client w A)" using assms by simp
  define fd where "fd = nat (accepted w)"
  show "srv A' = srv A" using n by (simp add: e accept_client_def app_simps fd_def [symmetric])
qed

lemma accept_inv:
  assumes "app_inv A" "set (open_fds A) = set (master A)" "accept_client w A = Some A'"
    "accepted w = - 1 \<or> 0 \<le> accepted w \<and> nat (accepted w) \<notin> set (master A)"
  shows "app_inv A'" "set (open_fds A') = set (master A')" "set (master A) \<subseteq> set (master A')"
    "server_sockfd A' = server_sockfd A" "srv A' = srv A" "abuf A' = abuf A"
proof -
  define fd where "fd = nat (accepted w)"
  have new: "fd \<notin> set (master A)" "accepted w \<noteq> - 1"
    using assms(3,4) by (auto simp: accept_client_def fd_def split: if_splits)
  then have new': "fd \<notin> set (open_fds A)" using assms(2) by blast
  have e: "A' = the (accept_client w A)" using assms(3) by simp
  have A': "master A' = fd # master A" "open_fds A' = fd # open_fds A" "server_sockfd A' = server_sockfd A"
    "srv A' = srv A" "num_connection A' = num_connection A + 1" "fdmax A' = max (fdmax A) fd"
    "num_clients A' = max (num_clients A) (num_connection A + 1)" "abuf A' = abuf A"
    using new by (simp_all add: e accept_client_def app_simps fd_def [symmetric] max_def)
  show "server_sockfd A' = server_sockfd A" "srv A' = srv A" "abuf A' = abuf A" by (fact A')+
  show "set (open_fds A') = set (master A')" unfolding A' using assms(2) by simp
  show "set (master A) \<subseteq> set (master A')" by (auto simp: A')
  show "app_inv A'" using assms(1) new new' by (auto simp: app_inv_def A')
qed

text \<open>A client that is removed from the set.\<close>

lemma leave_inv:
  assumes "app_inv A" "set (open_fds A) = set (master A)" "i \<in> set (master A)" "i \<noteq> server_sockfd A"
  shows "app_inv (A\<lparr>open_fds := remove1 i (open_fds A), master := remove1 i (master A),
      num_connection := num_connection A - 1\<rparr>)"
    "set (remove1 i (open_fds A)) = set (remove1 i (master A))"
proof -
  have "int (length (master A) - 1) = int (length (master A)) - 1" using assms(3) by (cases "master A") auto
  with assms show "app_inv (A\<lparr>open_fds := remove1 i (open_fds A), master := remove1 i (master A),
      num_connection := num_connection A - 1\<rparr>)"
    by (auto simp: app_inv_def length_remove1)
  show "set (remove1 i (open_fds A)) = set (remove1 i (master A))"
    using assms by (simp add: app_inv_def)
qed

definition synced :: "app \<Rightarrow> bool" where
  "synced A \<longleftrightarrow> app_inv A \<and> set (open_fds A) = set (master A)"

lemma app_inv_irrelevant [simp]:
  "app_inv (A\<lparr>abuf := b\<rparr>) = app_inv A" "app_inv (A\<lparr>srv := S\<rparr>) = app_inv A"
  "app_inv (A\<lparr>stdout := m\<rparr>) = app_inv A" "app_inv (A\<lparr>run_phase := r\<rparr>) = app_inv A"
  by (simp_all add: app_inv_def)

lemma end_synced:
  assumes "synced A" "i \<in> set (master A)" "i \<noteq> server_sockfd A"
  shows "synced (end_load i A)" "synced (end_client i A)"
proof -
  have "app_inv A" "set (open_fds A) = set (master A)" using assms(1) by (simp_all add: synced_def)
  from leave_inv [OF this assms(2,3)] show "synced (end_load i A)" "synced (end_client i A)"
    unfolding synced_def end_load_def end_client_def app_simps
    by (simp_all add: app_inv_def)
qed

lemma end_frame:
  "master (end_load i A) = remove1 i (master A)" "master (end_client i A) = remove1 i (master A)"
  "server_sockfd (end_load i A) = server_sockfd A" "server_sockfd (end_client i A) = server_sockfd A"
  "srv (end_load i A) = srv A" "srv (end_client i A) = srv A"
  "abuf (end_load i A) = abuf A" "abuf (end_client i A) = abuf A"
  by (simp_all add: end_load_def end_client_def app_simps)

lemma strncmp_eq_Nil: "strncmp_eq (numeral n) [] y = Inl OutOfBounds"
  by (simp add: numeral_eq_Suc)

lemma done_not_exit:
  "strncmp_eq 9 b (lit ''LOADDONE'' @ [0]) = Inr True \<Longrightarrow> strncmp_eq 4 b (lit ''EXIT'' @ [0]) = Inr False"
proof (cases b)
  case (Cons x xs)
  assume a: "strncmp_eq 9 b (lit ''LOADDONE'' @ [0]) = Inr True"
  have "x = 76"
  proof (rule ccontr)
    assume "x \<noteq> 76"
    then have "strncmp_eq 9 b (lit ''LOADDONE'' @ [0]) = Inr False" by (simp add: Cons lit_def)
    with a show False by simp
  qed
  then show ?thesis by (simp add: Cons lit_def)
qed (simp add: strncmp_eq_Nil)

text \<open>What serving one client does: the request is passed on, and the set of clients changes by at most this one.\<close>

lemma serve_client_cases:
  assumes "serve_client w i A = Inr (left, A')"
  obtains (gone) "arrived w i = None" "left" "A' = close_fd i (A\<lparr>abuf := replicate (nat (max_buf_size (arg (enc (srv A))))) 0\<rparr>)"
    | (served) p p' A1 where "enclave_message_pass p (srv A) = Inr (p', srv A')"
        "length (ebuf p) = nat (max_buf_size (arg (enc (srv A))))" "enum_clients p = num_clients A" "esock p = int i"
        "A1 = A\<lparr>abuf := ebuf p', srv := srv A'\<rparr>"
        "A' \<in> {A1, end_load i A1, end_client i A1}" "abuf A' = ebuf p'"
proof (cases "arrived w i")
  case None
  with assms gone show thesis by (simp add: serve_client_def Let_def)
next
  case (Some d)
  define n where "n = nat (max_buf_size (arg (enc (srv A))))"
  define p where "p = \<lparr>ebuf = pad n (take n d), esock = int i, enum_clients = num_clients A\<rparr>"
  obtain p' S where pass: "enclave_message_pass p (srv A) = Inr (p', S)"
    using assms Some unfolding serve_client_def Let_def n_def [symmetric]
    by (cases "enclave_message_pass p (srv A)") (auto simp: p_def)
  define A1 where "A1 = A\<lparr>abuf := ebuf p', srv := S\<rparr>"
  have "A' \<in> {A1, end_load i A1, end_client i A1}"
    using assms Some pass unfolding serve_client_def Let_def n_def [symmetric]
    by (auto simp: p_def [symmetric] A1_def fault_simps end_frame split: if_splits dest: done_not_exit)
  moreover from this have "srv A' = S" "abuf A' = ebuf p'" by (auto simp: end_frame A1_def)
  ultimately show thesis using pass by (intro served [of p p' A1]) (auto simp: p_def pad_def n_def A1_def)
qed

text \<open>Passes: the only steps of the enclave the application causes.\<close>

definition only_passes :: "event list \<Rightarrow> bool" where
  "only_passes evs \<longleftrightarrow> (\<forall>ev \<in> set evs. \<exists>p. ev = Pass p)"

definition passes_to :: "env \<Rightarrow> server \<Rightarrow> server \<Rightarrow> bool" where
  "passes_to E S S' \<longleftrightarrow> (\<exists>evs. only_passes evs \<and> server_run E S evs S')"

lemma server_run_append: "server_run E S' evs' S'' \<Longrightarrow> server_run E S evs S' \<Longrightarrow> server_run E S (evs @ evs') S''"
  by (induction rule: server_run.induct) (auto simp flip: append_assoc intro: server_run.intros)

lemma passes_refl: "passes_to E S S"
  unfolding passes_to_def by (rule exI [of _ "[]"]) (simp add: only_passes_def run_nil)

lemma passes_trans: "passes_to E S S' \<Longrightarrow> passes_to E S' S'' \<Longrightarrow> passes_to E S S''"
  unfolding passes_to_def only_passes_def by (metis Un_iff server_run_append set_append)

lemma passes_one: "enclave_message_pass p S = Inr (p', S') \<Longrightarrow> passes_to E S S'"
  unfolding passes_to_def only_passes_def
  using run_snoc [OF run_nil step_pass, of p S p' S' E] by (intro exI [of _ "[Pass p]"]) simp

lemma serve_client_passes: "serve_client w i A = Inr (left, A') \<Longrightarrow> passes_to E (srv A) (srv A')"
  by (erule serve_client_cases) (auto simp: close_fd_def passes_refl intro: passes_one)

lemma serve_client_inv:
  assumes "serve_client w i A = Inr (left, A')" "synced A" "i \<in> set (master A)" "i \<noteq> server_sockfd A"
  shows "app_inv A'" "\<not> left \<Longrightarrow> synced A'" "server_sockfd A' = server_sockfd A"
    "set (master A) \<subseteq> insert i (set (master A'))" "set (master A') \<subseteq> set (master A)"
proof -
  have "app_inv A' \<and> (\<not> left \<longrightarrow> synced A') \<and> server_sockfd A' = server_sockfd A \<and>
    set (master A) \<subseteq> insert i (set (master A')) \<and> set (master A') \<subseteq> set (master A)"
    using assms(1)
  proof (cases rule: serve_client_cases)
    case gone
    with assms(2) show ?thesis by (auto simp: synced_def app_inv_def close_fd_def)
  next
    case (served p p' A1)
    have A1: "synced A1" "master A1 = master A" "server_sockfd A1 = server_sockfd A"
      using served(5) assms(2) by (simp_all add: synced_def)
    have i: "i \<in> set (master A1)" "i \<noteq> server_sockfd A1" using assms(3,4) A1 by simp_all
    from A1(1) have d: "distinct (master A1)" by (simp add: synced_def app_inv_def)
    from served(6) consider "A' = A1" | "A' = end_load i A1" | "A' = end_client i A1" by auto
    then have "synced A' \<and> server_sockfd A' = server_sockfd A1 \<and>
        set (master A1) \<subseteq> insert i (set (master A')) \<and> set (master A') \<subseteq> set (master A1)"
      by cases (use A1(1) end_synced [OF A1(1) i] d in \<open>auto simp: end_frame\<close>)
    with A1 show ?thesis by (simp add: synced_def)
  qed
  then show "app_inv A'" "\<not> left \<Longrightarrow> synced A'" "server_sockfd A' = server_sockfd A"
    "set (master A) \<subseteq> insert i (set (master A'))" "set (master A') \<subseteq> set (master A)" by simp_all
qed

section \<open>Rounds\<close>

lemma fd_loop_Cons:
  assumes "fd_loop w (i # is) A = Inr (Some A')"
  obtains (stop) "A' = A"
    | (acc) A1 where "i = server_sockfd A" "accept_client w A = Some A1" "fd_loop w is A1 = Inr (Some A')"
    | (srv) left A1 where "i \<noteq> server_sockfd A" "serve_client w i A = Inr (left, A1)"
        "left \<and> A' = A1 \<or> \<not> left \<and> fd_loop w is A1 = Inr (Some A')"
proof (cases "fdmax A < i")
  case True
  with assms stop show thesis by simp
next
  case f: False
  show thesis
  proof (cases "i = server_sockfd A")
    case True
    with f assms acc show thesis by (cases "accept_client w A") simp_all
  next
    case False
    obtain l A1 where "serve_client w i A = Inr (l, A1)"
      using f False assms by (cases "serve_client w i A") auto
    with f False assms srv [of l A1] show thesis by (cases l) simp_all
  qed
qed

lemma fd_loop_passes: "fd_loop w is A = Inr (Some A') \<Longrightarrow> passes_to E (srv A) (srv A')"
proof (induction "is" arbitrary: A)
  case Nil
  then show ?case by (simp add: passes_refl)
next
  case (Cons i "is")
  from Cons.prems show ?case
  proof (cases rule: fd_loop_Cons)
    case (acc A1)
    with Cons.IH [OF acc(3)] accept_srv(1) [OF acc(2)] show ?thesis by simp
  next
    case (srv l A1)
    then show ?thesis using Cons.IH [of A1] serve_client_passes [of w i A l A1 E] passes_trans by blast
  qed (simp_all add: passes_refl Cons.IH)
qed

text \<open>
  The loop over the descriptors keeps the invariant; a descriptor that is still to be looked at
  stays in the set, and the descriptor \<open>accept\<close> returns is new until the listening socket is reached.
\<close>

lemma fd_loop_inv:
  assumes "fd_loop w is A = Inr (Some A')" "synced A" "distinct is" "set is \<subseteq> set (master A)"
    "server_sockfd A \<in> set is \<Longrightarrow> accepted w = - 1 \<or> 0 \<le> accepted w \<and> nat (accepted w) \<notin> set (master A)"
  shows "app_inv A' \<and> server_sockfd A' = server_sockfd A"
  using assms
proof (induction "is" arbitrary: A)
  case Nil
  then show ?case by (simp add: synced_def)
next
  case (Cons i "is")
  have sy: "app_inv A" "set (open_fds A) = set (master A)" using Cons.prems(2) by (simp_all add: synced_def)
  from Cons.prems(1) show ?case
  proof (cases rule: fd_loop_Cons)
    case stop
    with sy show ?thesis by simp
  next
    case (acc A1)
    have "accepted w = - 1 \<or> 0 \<le> accepted w \<and> nat (accepted w) \<notin> set (master A)"
      using Cons.prems(5) acc(1) by simp
    note A1 = accept_inv [OF sy acc(2) this]
    have "app_inv A' \<and> server_sockfd A' = server_sockfd A1"
      using A1 Cons.prems(3,4) acc(1) by (intro Cons.IH [OF acc(3)]) (auto simp: synced_def)
    with A1(4) show ?thesis by simp
  next
    case (srv left A1)
    have "i \<in> set (master A)" using Cons.prems(4) by auto
    note A1 = serve_client_inv [OF srv(2) Cons.prems(2) this srv(1)]
    from srv(3) show ?thesis
    proof
      assume "\<not> left \<and> fd_loop w is A1 = Inr (Some A')"
      then have n: "\<not> left" and f: "fd_loop w is A1 = Inr (Some A')" by simp_all
      have "app_inv A' \<and> server_sockfd A' = server_sockfd A1"
        by (rule Cons.IH [OF f A1(2) [OF n]]) (use Cons.prems(3-5) A1(3-5) in auto)
      with A1(3) show ?thesis by simp
    qed (use A1 in simp)
  qed
qed

fun app_of :: "app_end \<Rightarrow> app option" where
  "app_of (Looping A) = Some A"
| "app_of (Finished A) = Some A"
| "app_of Exit_process = None"

lemma main_round_Some:
  assumes "main_round w A = Inr e" "app_of e = Some A'"
  obtains r A1 where "selected w = Some r" "fd_loop w (sort (remdups r)) A = Inr (Some A1)"
    "e = Looping A1 \<and> A' = A1 \<or>
     e = Finished (say ''Client request is END'' A1) \<and> A' = say ''Client request is END'' A1 \<and> num_connection A1 = 0"
proof (cases "selected w")
  case (Some r)
  with assms that show thesis
    by (auto simp: main_round_def fault_simps split: option.splits if_splits)
qed (use assms in \<open>auto simp: main_round_def\<close>)

lemma app_inv_say [simp]: "app_inv (say m A) = app_inv A"
  by (simp add: say_def)

lemma main_round_inv:
  assumes "app_inv A" "os_ok w A" "main_round w A = Inr e" "app_of e = Some A'"
  shows "app_inv A' \<and> (e = Finished A' \<longrightarrow> num_connection A' = 0)"
  using assms(3,4)
proof (cases rule: main_round_Some)
  case (1 r A1)
  have sy: "synced A" "set r \<subseteq> set (master A)"
    using assms(1,2) 1(1) by (auto simp: os_ok_def synced_def app_inv_def)
  have "accepted w = - 1 \<or> 0 \<le> accepted w \<and> nat (accepted w) \<notin> set (master A)"
    using assms(2) sy(1) by (simp add: os_ok_def synced_def)
  then have "app_inv A1" using fd_loop_inv [OF 1(2) sy(1)] sy(2) by auto
  with 1(3) show ?thesis by (auto simp: say_def)
qed

lemma main_loop_inv:
  assumes "app_inv A" "os_run ws A" "main_loop ws A = Inr e" "app_of e = Some A'"
  shows "app_inv A' \<and> (e = Finished A' \<longrightarrow> num_connection A' = 0)"
  using assms
proof (induction ws arbitrary: A)
  case (Cons w ws)
  then obtain e1 where e1: "main_round w A = Inr e1" by (cases "main_round w A") auto
  show ?case
  proof (cases e1)
    case (Looping A1)
    with Cons.prems e1 main_round_inv [OF Cons.prems(1) _ e1, of A1] show ?thesis
      by (intro Cons.IH [of A1]) simp_all
  next
    case (Finished A1)
    with Cons.prems e1 main_round_inv [OF Cons.prems(1) _ e1] show ?thesis by simp
  qed (use Cons.prems e1 in auto)
qed auto

lemma setup_inv: "main_setup opts create good mem junk sock bound listening = Inr (Inr A) \<Longrightarrow> app_inv A"
  by (auto simp: main_setup_def fault_simps app_inv_def split: option.splits prod.splits if_splits)

section \<open>What the loop guarantees\<close>

text \<open>
  C16. The application keeps count of its clients. From the start of the server, after any rounds of
  the outside world, \<open>num_connection\<close> is the number of client sockets in the set that is watched, it
  never exceeds \<open>num_clients\<close>, and the loop only ends when no client is left.
\<close>

theorem connections_counted:
  assumes "main_setup opts create good mem junk sock bound listening = Inr (Inr A)" "os_run ws A"
    "main_loop ws A = Inr e" "app_of e = Some A'"
  shows "distinct (master A') \<and> server_sockfd A' \<in> set (master A') \<and>
    num_connection A' = int (card (set (master A') - {server_sockfd A'})) \<and>
    num_connection A' \<le> num_clients A' \<and> (e = Finished A' \<longrightarrow> set (master A') = {server_sockfd A'})"
proof -
  have i: "app_inv A'" "e = Finished A' \<longrightarrow> num_connection A' = 0"
    using main_loop_inv [OF setup_inv [OF assms(1)] assms(2-4)] by simp_all
  then have d: "distinct (master A')" "server_sockfd A' \<in> set (master A')"
    "num_connection A' = int (length (master A')) - 1" "num_connection A' \<le> num_clients A'"
    by (simp_all add: app_inv_def)
  have "card (set (master A')) = length (master A')" using d(1) by (rule distinct_card)
  with d(2,3) have c: "num_connection A' = int (card (set (master A') - {server_sockfd A'}))"
    by (simp add: card_Diff_singleton) (metis One_nat_def Suc_pred card_gt_0_iff empty_iff finite_set of_nat_Suc add_diff_cancel_left')
  have "set (master A') = {server_sockfd A'}" if "e = Finished A'"
  proof -
    have "card (set (master A') - {server_sockfd A'}) = 0" using c i(2) that by simp
    then have "set (master A') - {server_sockfd A'} = {}" by (simp only: card_0_eq finite_Diff finite_set)
    with d(2) show ?thesis by blast
  qed
  with c d show ?thesis by blast
qed

definition sample_opts :: "(char \<times> string) list" where
  "sample_opts = [(CHR ''b'', ''16''), (CHR ''t'', ''2''), (CHR ''s'', ''4''), (CHR ''r'', ''2'')]"

definition sample_app :: app where
  "sample_app =
     (case main_setup sample_opts (SGX_SUCCESS, 0, 2) True (\<lambda>n. True) sample_junk 3 0 0 of
        Inr (Inr A) \<Rightarrow> A | _ \<Rightarrow> undefined)"

definition no_round :: os_round where
  "no_round = \<lparr>selected = Some [], accepted = - 1, arrived = (\<lambda>i. None)\<rparr>"

definition connects :: "nat \<Rightarrow> os_round" where
  "connects fd = no_round\<lparr>selected := Some [3], accepted := int fd\<rparr>"

definition sends :: "nat \<Rightarrow> bytes \<Rightarrow> os_round" where
  "sends fd b = no_round\<lparr>selected := Some [fd], arrived := (\<lambda>i. if i = fd then Some b else None)\<rparr>"

definition hangs_up :: "nat \<Rightarrow> os_round" where
  "hangs_up fd = no_round\<lparr>selected := Some [fd]\<rparr>"

definition end_of :: "os_round list \<Rightarrow> app_end" where
  "end_of ws = (case main_loop ws sample_app of Inl f \<Rightarrow> Exit_process | Inr e \<Rightarrow> e)"

definition sample_session :: "os_round list" where
  "sample_session = [connects 4, connects 5, sends 5 (sample_set (lit ''xy'')), sends 4 (lit ''EXIT'')]"

definition session_app :: "os_round list \<Rightarrow> app" where
  "session_app ws = (case app_of (end_of ws) of None \<Rightarrow> sample_app | Some A \<Rightarrow> A)"

lemma sample_setup: "main_setup sample_opts (SGX_SUCCESS, 0, 2) True (\<lambda>n. True) sample_junk 3 0 0 = Inr (Inr sample_app)"
proof -
  let ?r = "main_setup sample_opts (SGX_SUCCESS, 0, 2) True (\<lambda>n. True) sample_junk 3 0 0"
  have "\<not> isl ?r" "\<not> isl (projr ?r)" by code_simp+
  then show ?thesis unfolding sample_app_def by (cases ?r) (auto split: sum.splits)
qed

lemma session_end:
  assumes "\<not> isl (main_loop ws sample_app)" "app_of (end_of ws) \<noteq> None"
  shows "main_loop ws sample_app = Inr (end_of ws)" "app_of (end_of ws) = Some (session_app ws)"
  using assms by (auto simp: end_of_def session_app_def split: sum.splits)

theorem connections_counted_witness:
  "num_connection (session_app sample_session) = 1 \<and> num_clients (session_app sample_session) = 2 \<and>
   card (set (master (session_app sample_session)) - {server_sockfd (session_app sample_session)}) = 1"
proof -
  have s: "\<not> isl (main_loop sample_session sample_app)" "app_of (end_of sample_session) \<noteq> None"
    "os_run sample_session sample_app" "num_connection (session_app sample_session) = 1"
    "num_clients (session_app sample_session) = 2" by code_simp+
  from connections_counted [OF sample_setup s(3) session_end [OF s(1,2)]] s(4,5) show ?thesis by simp
qed



section \<open>Leaving without EXIT\<close>

text \<open>
  C32. A client that hangs up stops the server. When \<open>read\<close> reports that a client has left, the socket
  is closed but stays in the set that is watched; the next \<open>select\<close> fails on the closed descriptor
  and the process exits, whatever the other clients are doing.
\<close>

theorem hangup_exits:
  assumes "app_inv A" "os_run (w # w' # ws) A" "selected w = Some [i]" "i \<noteq> server_sockfd A" "arrived w i = None"
    "4 \<le> max_buf_size (arg (enc (srv A)))"
  shows "main_loop (w # w' # ws) A = Inr Exit_process"
proof -
  let ?n = "nat (max_buf_size (arg (enc (srv A))))"
  define A1 where "A1 = close_fd i (A\<lparr>abuf := replicate ?n 0\<rparr>)"
  have i: "i \<in> set (master A)" "i \<le> fdmax A" "distinct (open_fds A)"
    using assms(1-3) by (auto simp: os_ok_def app_inv_def)
  obtain m where m: "?n = Suc m" using assms(6) by (cases ?n) auto
  have "strncmp_eq 4 (abuf A1) (lit ''EXIT'' @ [0]) = Inr False"
    by (simp add: A1_def close_fd_def m lit_def)
  then have r: "main_round w A = Inr (Looping A1)"
    using assms(3-5) i(2) by (simp add: main_round_def serve_client_def A1_def Let_def)
  have "i \<in> set (master A1)" "i \<notin> set (open_fds A1)" using i by (simp_all add: A1_def close_fd_def)
  moreover have "os_ok w' A1" using assms(2) r by simp
  ultimately have "selected w' = None" by (auto simp: os_ok_def split: option.splits)
  then show ?thesis using r by (simp add: main_round_def)
qed

theorem hangup_exits_witness:
  "main_loop [hangs_up 5, no_round\<lparr>selected := None\<rparr>, sends 4 (lit ''EXIT'')] (session_app [connects 4, connects 5]) =
     Inr Exit_process"
proof (rule hangup_exits)
  let ?ws = "[connects 4, connects 5]"
  have s: "\<not> isl (main_loop ?ws sample_app)" "app_of (end_of ?ws) \<noteq> None" "os_run ?ws sample_app" by code_simp+
  show "app_inv (session_app ?ws)"
    using main_loop_inv [OF setup_inv [OF sample_setup] s(3) session_end [OF s(1,2)]] by simp
  show "os_run [hangs_up 5, no_round\<lparr>selected := None\<rparr>, sends 4 (lit ''EXIT'')] (session_app ?ws)"
    "5 \<noteq> server_sockfd (session_app ?ws)" "4 \<le> max_buf_size (arg (enc (srv (session_app ?ws))))" by code_simp+
qed (simp_all add: hangs_up_def no_round_def)

text \<open>
  C33. Lower-case \<open>exit\<close>. The enclave takes \<open>exit\<close> for \<open>EXIT\<close> and counts the client as gone, the
  application does not: the client stays connected and is still counted. So a server whose clients
  leave with \<open>exit\<close> tells its workers to quit but never leaves its loop.
\<close>

theorem lower_exit:
  assumes "serve_client w i A = Inr (left, A')" "arrived w i = Some (lit ''exit'')" "4 \<le> max_buf_size (arg (enc (srv A)))"
  shows "\<not> left \<and> exit_count (srv A') = exit_count (srv A) + 1 \<and> master A' = master A \<and>
    num_connection A' = num_connection A \<and> strncmp_eq 4 (abuf A') (lit ''EXIT'' @ [0]) = Inr False"
proof -
  define n where "n = nat (max_buf_size (arg (enc (srv A))))"
  have n: "4 \<le> n" using assms(3) by (simp add: n_def)
  let ?b = "pad n (take n (lit ''exit''))"
  have b: "?b = 101 # 120 # 105 # 116 # replicate (n - 4) 0"
    using n by (simp add: pad_def lit_def take_Cons' numeral_eq_Suc)
  let ?p = "\<lparr>ebuf = ?b, esock = int i, enum_clients = num_clients A\<rparr>"
  obtain p' S where pass: "enclave_message_pass ?p (srv A) = Inr (p', S)"
    using assms(1,2) unfolding serve_client_def Let_def n_def [symmetric]
    by (cases "enclave_message_pass ?p (srv A)") auto
  have ex: "is_command 4 ''EXIT'' ''exit'' ?b = Inr True" unfolding b by (simp add: is_command_def lit_def)
  have quits: "exit_count S' = exit_count S0" if "push_quits is S0 = Inr S'" for "is" S0 S'
    using that by (induction "is" arbitrary: S0) (auto simp: fault_simps push_job_def)
  have ret: "exit_count S' = exit_count S0" if "message_return c sock S0 = Inr S'" for c sock S0 S'
    using that by (auto simp: message_return_def Let_def fault_simps split: if_splits)
  have S: "exit_count S = exit_count (srv A) + 1" "p' = ?p"
    using pass ex by (auto simp: enclave_message_pass_def Let_def fault_simps enc_print_def
        split: if_splits dest!: quits ret)
  have "strncmp_eq 9 ?b (lit ''LOADDONE'' @ [0]) = Inr False" "strncmp_eq 4 ?b (lit ''EXIT'' @ [0]) = Inr False"
    unfolding b by (simp_all add: lit_def)
  then show ?thesis
    using assms(1,2) pass S unfolding serve_client_def Let_def n_def [symmetric] by auto
qed

theorem lower_exit_witness:
  "exit_count (srv (session_app [connects 4, sends 4 (lit ''exit'')])) = 1 \<and>
   num_connection (session_app [connects 4, sends 4 (lit ''exit'')]) = 1"
proof -
  let ?A = "session_app [connects 4]" and ?A' = "session_app [connects 4, sends 4 (lit ''exit'')]"
  have s: "\<not> isl (serve_client (sends 4 (lit ''exit'')) 4 ?A)"
    "srv (snd (projr (serve_client (sends 4 (lit ''exit'')) 4 ?A))) = srv ?A'"
    "num_connection (snd (projr (serve_client (sends 4 (lit ''exit'')) 4 ?A))) = num_connection ?A'"
    "exit_count (srv ?A) = 0" "num_connection ?A = 1" "4 \<le> max_buf_size (arg (enc (srv ?A)))" by code_simp+
  obtain l B where "serve_client (sends 4 (lit ''exit'')) 4 ?A = Inr (l, B)"
    using s(1) by (cases "serve_client (sends 4 (lit ''exit'')) 4 ?A") auto
  with lower_exit [OF this _ s(6)] s(2-5) show ?thesis by (simp add: sends_def)
qed

end
