(* ===== verification/Hot_Calls.thy ===== *)
theory Hot_Calls
  imports Prelude
begin

text \<open>
  HotCalls (\<open>Common/hot_calls.h\<close>, \<open>App/spinlock.c\<close>): threads outside the enclave ask a thread
  inside it to run a function, through a shared record that a spin lock protects. The critical
  sections are functions on the record; the threads are a step relation that interleaves the
  sections with taking and leaving the lock.
\<close>

section \<open>The shared record\<close>

record 'd HotCall =
  spinlock :: int
  hdata :: "'d option"
  callID :: u16
  keepPolling :: bool
  runFunction :: bool
  isDone :: bool
  busy :: bool

definition HotCall_init :: "'d HotCall" where
  "HotCall_init =
     \<lparr>spinlock = 0, hdata = None, callID = 0, keepPolling = True, runFunction = False, isDone = False,
      busy = False\<rparr>"

text \<open>\<open>_InterlockedExchange\<close> gives the old value; the lock is taken when that was zero.\<close>

definition InterlockedExchange :: "int \<Rightarrow> int \<Rightarrow> int \<times> int" where
  "InterlockedExchange dst val = (dst, val)"

definition spin_try :: "'d HotCall \<Rightarrow> bool \<times> 'd HotCall" where
  "spin_try h =
     (case InterlockedExchange (spinlock h) 1 of (res, v) \<Rightarrow> (res = 0, h\<lparr>spinlock := v\<rparr>))"

definition spin_unlock :: "'d HotCall \<Rightarrow> 'd HotCall" where
  "spin_unlock h = h\<lparr>spinlock := 0\<rparr>"

section \<open>The critical sections\<close>

text \<open>Of \<open>HotCall_requestCall\<close>: to place a call, and to see whether it is done.\<close>

definition place_call :: "u16 \<Rightarrow> 'd \<Rightarrow> 'd HotCall \<Rightarrow> bool \<times> 'd HotCall" where
  "place_call cid d h =
     (if busy h then (False, h)
      else (True, h\<lparr>busy := True, isDone := False, runFunction := True, callID := cid, hdata := Some d\<rparr>))"

definition take_answer :: "'d HotCall \<Rightarrow> bool \<times> 'd HotCall" where
  "take_answer h = (if isDone h then (True, h\<lparr>busy := False\<rparr>) else (False, h))"

definition MAX_RETRIES :: nat where
  "MAX_RETRIES = 10"

text \<open>Of \<open>HotCall_waitForCall\<close>: what the responder finds, and the end of a call.\<close>

datatype 'd polled = Stop | Call u16 "'d option" | Nothing

definition poll :: "'d HotCall \<Rightarrow> 'd polled" where
  "poll h = (if \<not> keepPolling h then Stop else if runFunction h then Call (callID h) (hdata h) else Nothing)"

definition finish_call :: "'d HotCall \<Rightarrow> 'd HotCall" where
  "finish_call h = h\<lparr>isDone := True, runFunction := False\<rparr>"

definition stop_polling :: "'d HotCall \<Rightarrow> 'd HotCall" where
  "stop_polling h = h\<lparr>keepPolling := False\<rparr>"

section \<open>Threads\<close>

text \<open>
  Where a requester is: outside, before the lock or inside the section that places a call (with
  the call and the number of retries so far), before the lock or inside the section that waits
  for the answer, and the same for \<open>StopResponder\<close>. Where the responder is: before the lock or
  inside the polling section, running a callback, before the lock or inside the section that
  ends the call, or returned.
\<close>

datatype 'd requester = Outside | Placing u16 'd nat | Placing_locked u16 'd nat
  | Waiting nat | Waiting_locked nat | Stopping | Stopping_locked

datatype 'd responder = Polling | Polling_locked | Running u16 "'d option" | Ending | Ending_locked | Returned

text \<open>
  The system, with what happened: the calls that were placed, the callbacks that were run, and
  what \<open>HotCall_requestCall\<close> returned to whom.
\<close>

record 'd hot_system =
  hot :: "'d HotCall"
  req_at :: "nat \<Rightarrow> 'd requester"
  resp_at :: "'d responder"
  placed :: "(u16 \<times> 'd option) list"
  ran :: "(u16 \<times> 'd option) list"
  returned :: "(nat \<times> int) list"

definition hot_start :: "'d hot_system" where
  "hot_start = \<lparr>hot = HotCall_init, req_at = (\<lambda>_. Outside), resp_at = Polling, placed = [], ran = [], returned = []\<rparr>"

definition req_holds :: "'d requester \<Rightarrow> bool" where
  "req_holds r \<longleftrightarrow> (case r of Placing_locked c d n \<Rightarrow> True | Waiting_locked n \<Rightarrow> True | Stopping_locked \<Rightarrow> True | _ \<Rightarrow> False)"

definition resp_holds :: "'d responder \<Rightarrow> bool" where
  "resp_holds p \<longleftrightarrow> p = Polling_locked \<or> p = Ending_locked"

text \<open>
  A step of a requester at its position, given whether the exchange on the lock succeeded: the
  new position, the new record, and the value it returns if it does.
\<close>

definition place_step :: "u16 \<Rightarrow> 'd \<Rightarrow> nat \<Rightarrow> 'd HotCall \<Rightarrow> 'd requester \<times> 'd HotCall \<times> bool \<times> int option" where
  "place_step c d n h =
     (case place_call c d h of
        (True, h') \<Rightarrow> (Waiting n, spin_unlock h', True, None)
      | (False, h') \<Rightarrow>
          if n + 1 > MAX_RETRIES then (Outside, spin_unlock h', False, Some (- 1))
          else (Placing c d (n + 1), spin_unlock h', False, None))"

definition answer_step :: "nat \<Rightarrow> 'd HotCall \<Rightarrow> 'd requester \<times> 'd HotCall \<times> int option" where
  "answer_step n h =
     (case take_answer h of
        (True, h') \<Rightarrow> (Outside, spin_unlock h', Some (int n))
      | (False, h') \<Rightarrow> (Waiting n, spin_unlock h', None))"

definition poll_step :: "'d HotCall \<Rightarrow> 'd responder \<times> 'd HotCall" where
  "poll_step h =
     (case poll h of
        Stop \<Rightarrow> (Returned, spin_unlock h)
      | Call c d \<Rightarrow> (Running c d, spin_unlock h)
      | Nothing \<Rightarrow> (Polling, spin_unlock h))"

text \<open>\<open>numEntries\<close> is the size of the table of callbacks; a call beyond it is dropped.\<close>

inductive hot_step :: "u16 \<Rightarrow> 'd hot_system \<Rightarrow> 'd hot_system \<Rightarrow> bool" for entries :: u16 where
  enter: "req_at s i = Outside \<Longrightarrow>
    hot_step entries s (s\<lparr>req_at := (req_at s)(i := Placing c d 0)\<rparr>)"
| stop: "req_at s i = Outside \<Longrightarrow>
    hot_step entries s (s\<lparr>req_at := (req_at s)(i := Stopping)\<rparr>)"
| lock_place: "req_at s i = Placing c d n \<Longrightarrow> spin_try (hot s) = (True, h) \<Longrightarrow>
    hot_step entries s (s\<lparr>hot := h, req_at := (req_at s)(i := Placing_locked c d n)\<rparr>)"
| lock_wait: "req_at s i = Waiting n \<Longrightarrow> spin_try (hot s) = (True, h) \<Longrightarrow>
    hot_step entries s (s\<lparr>hot := h, req_at := (req_at s)(i := Waiting_locked n)\<rparr>)"
| lock_stop: "req_at s i = Stopping \<Longrightarrow> spin_try (hot s) = (True, h) \<Longrightarrow>
    hot_step entries s (s\<lparr>hot := h, req_at := (req_at s)(i := Stopping_locked)\<rparr>)"
| lock_poll: "resp_at s = Polling \<Longrightarrow> spin_try (hot s) = (True, h) \<Longrightarrow>
    hot_step entries s (s\<lparr>hot := h, resp_at := Polling_locked\<rparr>)"
| lock_end: "resp_at s = Ending \<Longrightarrow> spin_try (hot s) = (True, h) \<Longrightarrow>
    hot_step entries s (s\<lparr>hot := h, resp_at := Ending_locked\<rparr>)"
| spin: "spin_try (hot s) = (False, h) \<Longrightarrow> hot_step entries s (s\<lparr>hot := h\<rparr>)"
| place: "req_at s i = Placing_locked c d n \<Longrightarrow> place_step c d n (hot s) = (r, h, accepted, ret) \<Longrightarrow>
    hot_step entries s (s\<lparr>hot := h, req_at := (req_at s)(i := r),
      placed := placed s @ (if accepted then [(c, Some d)] else []),
      returned := returned s @ (case ret of None \<Rightarrow> [] | Some v \<Rightarrow> [(i, v)])\<rparr>)"
| wait_answer: "req_at s i = Waiting_locked n \<Longrightarrow> answer_step n (hot s) = (r, h, ret) \<Longrightarrow>
    hot_step entries s (s\<lparr>hot := h, req_at := (req_at s)(i := r),
      returned := returned s @ (case ret of None \<Rightarrow> [] | Some v \<Rightarrow> [(i, v)])\<rparr>)"
| stop_responder: "req_at s i = Stopping_locked \<Longrightarrow>
    hot_step entries s (s\<lparr>hot := spin_unlock (stop_polling (hot s)), req_at := (req_at s)(i := Outside)\<rparr>)"
| poll: "resp_at s = Polling_locked \<Longrightarrow> poll_step (hot s) = (p, h) \<Longrightarrow>
    hot_step entries s (s\<lparr>hot := h, resp_at := p\<rparr>)"
| run: "resp_at s = Running c d \<Longrightarrow>
    hot_step entries s (s\<lparr>resp_at := Ending,
      ran := ran s @ (if c < entries then [(c, d)] else [])\<rparr>)"
| end_call: "resp_at s = Ending_locked \<Longrightarrow>
    hot_step entries s (s\<lparr>hot := spin_unlock (finish_call (hot s)), resp_at := Polling\<rparr>)"

inductive_cases hot_stepE: "hot_step entries s s'"

inductive hot_reach :: "u16 \<Rightarrow> 'd hot_system \<Rightarrow> bool" for entries :: u16 where
  reach_start: "hot_reach entries hot_start"
| reach_step: "hot_reach entries s \<Longrightarrow> hot_step entries s s' \<Longrightarrow> hot_reach entries s'"

section \<open>Schedules\<close>

text \<open>
  The same steps as a function: a schedule names the thread that moves, and a requester that is
  outside also says what it calls. A thread before the lock tries it once.
\<close>

datatype 'd move = Enter nat u16 'd | Stop_at nat | Req nat | Resp

definition take_lock :: "'d hot_system \<Rightarrow> ('d hot_system \<Rightarrow> 'd hot_system) \<Rightarrow> 'd hot_system" where
  "take_lock s f =
     (case spin_try (hot s) of (True, h) \<Rightarrow> f (s\<lparr>hot := h\<rparr>) | (False, h) \<Rightarrow> s\<lparr>hot := h\<rparr>)"

definition req_move :: "nat \<Rightarrow> 'd hot_system \<Rightarrow> 'd hot_system option" where
  "req_move i s =
     (case req_at s i of
        Outside \<Rightarrow> None
      | Placing c d n \<Rightarrow> Some (take_lock s (\<lambda>s. s\<lparr>req_at := (req_at s)(i := Placing_locked c d n)\<rparr>))
      | Waiting n \<Rightarrow> Some (take_lock s (\<lambda>s. s\<lparr>req_at := (req_at s)(i := Waiting_locked n)\<rparr>))
      | Stopping \<Rightarrow> Some (take_lock s (\<lambda>s. s\<lparr>req_at := (req_at s)(i := Stopping_locked)\<rparr>))
      | Placing_locked c d n \<Rightarrow>
          (case place_step c d n (hot s) of
             (r, h, accepted, ret) \<Rightarrow>
               Some (s\<lparr>hot := h, req_at := (req_at s)(i := r),
                 placed := placed s @ (if accepted then [(c, Some d)] else []),
                 returned := returned s @ (case ret of None \<Rightarrow> [] | Some v \<Rightarrow> [(i, v)])\<rparr>))
      | Waiting_locked n \<Rightarrow>
          (case answer_step n (hot s) of
             (r, h, ret) \<Rightarrow>
               Some (s\<lparr>hot := h, req_at := (req_at s)(i := r),
                 returned := returned s @ (case ret of None \<Rightarrow> [] | Some v \<Rightarrow> [(i, v)])\<rparr>))
      | Stopping_locked \<Rightarrow>
          Some (s\<lparr>hot := spin_unlock (stop_polling (hot s)), req_at := (req_at s)(i := Outside)\<rparr>))"

definition resp_move :: "u16 \<Rightarrow> 'd hot_system \<Rightarrow> 'd hot_system option" where
  "resp_move entries s =
     (case resp_at s of
        Polling \<Rightarrow> Some (take_lock s (\<lambda>s. s\<lparr>resp_at := Polling_locked\<rparr>))
      | Polling_locked \<Rightarrow> (case poll_step (hot s) of (p, h) \<Rightarrow> Some (s\<lparr>hot := h, resp_at := p\<rparr>))
      | Running c d \<Rightarrow>
          Some (s\<lparr>resp_at := Ending,
            ran := ran s @ (if c < entries then [(c, d)] else [])\<rparr>)
      | Ending \<Rightarrow> Some (take_lock s (\<lambda>s. s\<lparr>resp_at := Ending_locked\<rparr>))
      | Ending_locked \<Rightarrow> Some (s\<lparr>hot := spin_unlock (finish_call (hot s)), resp_at := Polling\<rparr>)
      | Returned \<Rightarrow> None)"

definition outside :: "'d requester \<Rightarrow> bool" where
  "outside r = (case r of Outside \<Rightarrow> True | _ \<Rightarrow> False)"

fun hot_move :: "u16 \<Rightarrow> 'd move \<Rightarrow> 'd hot_system \<Rightarrow> 'd hot_system option" where
  "hot_move entries (Enter i c d) s =
     (if outside (req_at s i) then Some (s\<lparr>req_at := (req_at s)(i := Placing c d 0)\<rparr>) else None)"
| "hot_move entries (Stop_at i) s =
     (if outside (req_at s i) then Some (s\<lparr>req_at := (req_at s)(i := Stopping)\<rparr>) else None)"
| "hot_move entries (Req i) s = req_move i s"
| "hot_move entries Resp s = resp_move entries s"

fun hot_run :: "u16 \<Rightarrow> 'd move list \<Rightarrow> 'd hot_system \<Rightarrow> 'd hot_system option" where
  "hot_run entries [] s = Some s"
| "hot_run entries (m # ms) s = (case hot_move entries m s of None \<Rightarrow> None | Some s' \<Rightarrow> hot_run entries ms s')"

lemma take_lock_step:
  assumes "\<And>h. spin_try (hot s) = (True, h) \<Longrightarrow> hot_step entries s (f (s\<lparr>hot := h\<rparr>))"
  shows "hot_step entries s (take_lock s f)"
  using assms hot_step.spin [of s _ entries] by (auto simp: take_lock_def split: prod.splits bool.splits)

lemma req_move_step: "req_move i s = Some s' \<Longrightarrow> hot_step entries s s'"
  unfolding req_move_def
  by (cases "req_at s i")
    (auto split: prod.splits simp del: fun_upd_apply intro: hot_step.intros
      intro!: take_lock_step hot_step.lock_place [simplified] hot_step.lock_wait [simplified] hot_step.lock_stop [simplified])

lemma resp_move_step: "resp_move entries s = Some s' \<Longrightarrow> hot_step entries s s'"
  unfolding resp_move_def
  by (cases "resp_at s") (auto split: prod.splits intro: hot_step.intros intro!: take_lock_step hot_step.lock_poll [simplified] hot_step.lock_end [simplified])

lemma hot_move_step: "hot_move entries m s = Some s' \<Longrightarrow> hot_step entries s s'"
  by (cases m) (auto simp: outside_def split: if_splits requester.splits
      intro: hot_step.enter hot_step.stop req_move_step resp_move_step)

lemma hot_run_reach: "hot_reach entries s \<Longrightarrow> hot_run entries ms s = Some s' \<Longrightarrow> hot_reach entries s'"
proof (induction ms arbitrary: s)
  case (Cons m ms)
  then obtain t where t: "hot_move entries m s = Some t" "hot_run entries ms t = Some s'"
    by (auto split: option.splits)
  show ?case by (rule Cons.IH [OF reach_step [OF Cons.prems(1) hot_move_step [OF t(1)]] t(2)])
qed simp

end
