(* ===== verification/Hot_Calls_Correct.thy ===== *)
theory Hot_Calls_Correct
  imports Hot_Calls
begin

text \<open>
  What the HotCalls protocol guarantees, for any number of requesters and any interleaving: one
  thread holds the lock, one call is in flight, each call that is placed is run once and before
  its requester returns, in the order in which the calls were placed; and a single requester
  never gives up.
\<close>

lemmas section_simps = place_step_def place_call_def answer_step_def take_answer_def poll_step_def poll_def
  finish_call_def stop_polling_def spin_unlock_def

lemma spin_try_True [simp]: "spin_try h = (True, h') \<longleftrightarrow> spinlock h = 0 \<and> h' = h\<lparr>spinlock := 1\<rparr>"
  by (auto simp: spin_try_def InterlockedExchange_def)

lemma spin_try_False [simp]: "spin_try h = (False, h') \<longleftrightarrow> spinlock h \<noteq> 0 \<and> h' = h\<lparr>spinlock := 1\<rparr>"
  by (auto simp: spin_try_def InterlockedExchange_def)

lemma req_holds_simps [simp]:
  "\<not> req_holds Outside" "\<not> req_holds (Placing c d n)" "req_holds (Placing_locked c d n)"
  "\<not> req_holds (Waiting n)" "req_holds (Waiting_locked n)" "\<not> req_holds Stopping" "req_holds Stopping_locked"
  by (simp_all add: req_holds_def)

lemma resp_holds_simps [simp]:
  "\<not> resp_holds Polling" "resp_holds Polling_locked" "\<not> resp_holds (Running c x)" "\<not> resp_holds Ending"
  "resp_holds Ending_locked" "\<not> resp_holds Returned"
  by (simp_all add: resp_holds_def)

section \<open>The lock\<close>

text \<open>Who is inside a section: a requester, or the responder (\<open>None\<close>).\<close>

definition holds_lock :: "'d hot_system \<Rightarrow> nat option \<Rightarrow> bool" where
  "holds_lock s t = (case t of None \<Rightarrow> resp_holds (resp_at s) | Some i \<Rightarrow> req_holds (req_at s i))"

definition lock_inv :: "'d hot_system \<Rightarrow> bool" where
  "lock_inv s \<longleftrightarrow>
     spinlock (hot s) = 0 \<and> holds_lock s = (\<lambda>_. False) \<or>
     spinlock (hot s) = 1 \<and> (\<exists>t. holds_lock s = (\<lambda>_. False)(t := True))"

lemma holds_req: "req_at s' = (req_at s)(i := r) \<Longrightarrow> resp_at s' = resp_at s \<Longrightarrow>
    holds_lock s' = (holds_lock s)(Some i := req_holds r)"
  by (rule ext) (auto simp: holds_lock_def split: option.splits)

lemma holds_resp: "req_at s' = req_at s \<Longrightarrow> holds_lock s' = (holds_lock s)(None := resp_holds (resp_at s'))"
  by (rule ext) (auto simp: holds_lock_def split: option.splits)

lemma holds_upd_same: "holds_lock s t = b \<Longrightarrow> (holds_lock s)(t := b) = holds_lock s"
  by (rule ext) simp

lemma lock_inv_take:
  assumes "lock_inv s" "spinlock (hot s) = 0" "spinlock (hot s') = 1" "holds_lock s' = (holds_lock s)(t := True)"
  shows "lock_inv s'"
proof -
  have "holds_lock s = (\<lambda>_. False)" using assms(1,2) by (simp add: lock_inv_def)
  then have "holds_lock s' = (\<lambda>_. False)(t := True)" using assms(4) by simp
  with assms(3) show ?thesis unfolding lock_inv_def by blast
qed

lemma lock_inv_leave:
  assumes "lock_inv s" "holds_lock s t" "spinlock (hot s') = 0" "holds_lock s' = (holds_lock s)(t := False)"
  shows "lock_inv s'"
proof -
  from assms(1,2) obtain u where u: "holds_lock s = (\<lambda>_. False)(u := True)" by (auto simp: lock_inv_def)
  with assms(2) have "u = t" by (auto split: if_splits)
  with u assms(4) have "holds_lock s' = (\<lambda>_. False)" by (simp add: fun_upd_idem)
  with assms(3) show ?thesis by (simp add: lock_inv_def)
qed

lemma lock_inv_same:
  "lock_inv s \<Longrightarrow> spinlock (hot s') = spinlock (hot s) \<Longrightarrow> holds_lock s' = holds_lock s \<Longrightarrow> lock_inv s'"
  by (simp add: lock_inv_def)

lemma holds_at:
  "holds_lock s (Some i) = req_holds (req_at s i)" "holds_lock s None = resp_holds (resp_at s)"
  by (simp_all add: holds_lock_def)

text \<open>A requester at \<open>i\<close> moves to \<open>r\<close>, the responder moves.\<close>

lemma lock_inv_req:
  assumes "lock_inv s" "req_at s' = (req_at s)(i := r)" "resp_at s' = resp_at s"
    "(req_holds (req_at s i), req_holds r) \<in> {(True, False), (False, True), (False, False)}"
    "req_holds (req_at s i) \<Longrightarrow> spinlock (hot s') = 0"
    "\<not> req_holds (req_at s i) \<Longrightarrow> req_holds r \<Longrightarrow> spinlock (hot s) = 0 \<and> spinlock (hot s') = 1"
    "\<not> req_holds (req_at s i) \<Longrightarrow> \<not> req_holds r \<Longrightarrow> spinlock (hot s') = spinlock (hot s)"
  shows "lock_inv s'"
proof -
  note h = holds_req [OF assms(2,3)]
  consider "req_holds (req_at s i)" "\<not> req_holds r" | "\<not> req_holds (req_at s i)" "req_holds r"
    | "\<not> req_holds (req_at s i)" "\<not> req_holds r" using assms(4) by auto
  then show ?thesis
  proof cases
    case 1
    then show ?thesis using lock_inv_leave [of s "Some i" s'] assms(1,5) h by (simp add: holds_at)
  next
    case 2
    then show ?thesis using lock_inv_take [of s s' "Some i"] assms(1,6) h by simp
  next
    case 3
    then show ?thesis using lock_inv_same [of s s'] assms(1,7) h holds_upd_same [of s "Some i" False]
      by (simp add: holds_at)
  qed
qed

lemma lock_inv_resp:
  assumes "lock_inv s" "req_at s' = req_at s"
    "(resp_holds (resp_at s), resp_holds (resp_at s')) \<in> {(True, False), (False, True), (False, False)}"
    "resp_holds (resp_at s) \<Longrightarrow> spinlock (hot s') = 0"
    "\<not> resp_holds (resp_at s) \<Longrightarrow> resp_holds (resp_at s') \<Longrightarrow> spinlock (hot s) = 0 \<and> spinlock (hot s') = 1"
    "\<not> resp_holds (resp_at s) \<Longrightarrow> \<not> resp_holds (resp_at s') \<Longrightarrow> spinlock (hot s') = spinlock (hot s)"
  shows "lock_inv s'"
proof -
  note h = holds_resp [OF assms(2)]
  consider "resp_holds (resp_at s)" "\<not> resp_holds (resp_at s')"
    | "\<not> resp_holds (resp_at s)" "resp_holds (resp_at s')"
    | "\<not> resp_holds (resp_at s)" "\<not> resp_holds (resp_at s')" using assms(3) by auto
  then show ?thesis
  proof cases
    case 1
    then show ?thesis using lock_inv_leave [of s None s'] assms(1,4) h by (simp add: holds_at)
  next
    case 2
    then show ?thesis using lock_inv_take [of s s' None] assms(1,5) h by simp
  next
    case 3
    then show ?thesis using lock_inv_same [of s s'] assms(1,6) h holds_upd_same [of s None False]
      by (simp add: holds_at)
  qed
qed

lemma lock_inv_step: "hot_step entries s s' \<Longrightarrow> lock_inv s \<Longrightarrow> lock_inv s'"
proof (induction rule: hot_step.induct)
  case (enter s i c d)
  then show ?case by - (rule lock_inv_req [of s _ i "Placing c d 0"], simp_all)
next
  case (stop s i)
  then show ?case by - (rule lock_inv_req [of s _ i Stopping], simp_all)
next
  case (lock_place s i c d n h)
  then show ?case by - (rule lock_inv_req [of s _ i "Placing_locked c d n"], simp_all)
next
  case (lock_wait s i n h)
  then show ?case by - (rule lock_inv_req [of s _ i "Waiting_locked n"], simp_all)
next
  case (lock_stop s i h)
  then show ?case by - (rule lock_inv_req [of s _ i Stopping_locked], simp_all)
next
  case (lock_poll s h)
  then show ?case by - (rule lock_inv_resp [of s], simp_all)
next
  case (lock_end s h)
  then show ?case by - (rule lock_inv_resp [of s], simp_all)
next
  case (spin s h)
  then have "spinlock (hot s) = 1" by (auto simp: lock_inv_def)
  moreover have "holds_lock (s\<lparr>hot := h\<rparr>) = holds_lock s" by (rule ext) (simp add: holds_lock_def split: option.split)
  ultimately show ?case using spin lock_inv_same [of s "s\<lparr>hot := h\<rparr>"] by simp
next
  case (place s i c d n r h accepted ret)
  then show ?case
    by - (rule lock_inv_req [of s _ i r], (auto simp: section_simps split: if_splits))
next
  case (wait_answer s i n r h ret)
  then show ?case
    by - (rule lock_inv_req [of s _ i r], (auto simp: section_simps split: if_splits))
next
  case (stop_responder s i)
  then show ?case by - (rule lock_inv_req [of s _ i Outside], (simp_all add: section_simps))
next
  case (poll s p h)
  then have "\<not> resp_holds p" "spinlock h = 0" by (auto simp: section_simps split: if_splits)
  with poll show ?case by - (rule lock_inv_resp [of s], simp_all)
next
  case (run s c d)
  then show ?case by - (rule lock_inv_resp [of s], simp_all)
next
  case (end_call s)
  then show ?case by - (rule lock_inv_resp [of s], (simp_all add: section_simps))
qed

lemma lock_inv_start: "lock_inv hot_start"
  by (auto simp: lock_inv_def hot_start_def HotCall_init_def holds_lock_def fun_eq_iff split: option.splits)

lemma lock_inv_reach: "hot_reach entries s \<Longrightarrow> lock_inv s"
  by (induction rule: hot_reach.induct) (auto intro: lock_inv_start lock_inv_step)

section \<open>Calls\<close>

text \<open>The requesters that wait for an answer; the calls that the table of callbacks has.\<close>

definition waits :: "'d requester \<Rightarrow> bool" where
  "waits r = (case r of Waiting n \<Rightarrow> True | Waiting_locked n \<Rightarrow> True | _ \<Rightarrow> False)"

definition valid_calls :: "u16 \<Rightarrow> (u16 \<times> 'd) list \<Rightarrow> (u16 \<times> 'd) list" where
  "valid_calls entries cs = filter (\<lambda>(c, d). c < entries) cs"

definition ending :: "'d responder \<Rightarrow> bool" where
  "ending p \<longleftrightarrow> p = Ending \<or> p = Ending_locked"

definition pending :: "'d hot_system \<Rightarrow> (u16 \<times> 'd option) list" where
  "pending s =
     (if runFunction (hot s) \<and> \<not> ending (resp_at s)
      then [(callID (hot s), hdata (hot s))] else [])"

definition slot_inv :: "'d HotCall \<Rightarrow> bool" where
  "slot_inv h \<longleftrightarrow>
     (runFunction h \<longrightarrow> busy h \<and> \<not> isDone h \<and> hdata h \<noteq> None) \<and> (busy h \<longrightarrow> runFunction h \<or> isDone h)"

definition resp_inv :: "'d HotCall \<Rightarrow> 'd responder \<Rightarrow> bool" where
  "resp_inv h p \<longleftrightarrow>
     (ending p \<longrightarrow> runFunction h) \<and>
     (\<forall>c d. p = Running c d \<longrightarrow> runFunction h \<and> c = callID h \<and> d = hdata h)"

definition wait_inv :: "bool \<Rightarrow> (nat \<Rightarrow> 'd requester) \<Rightarrow> bool" where
  "wait_inv b ra \<longleftrightarrow>
     (\<forall>i. waits (ra i) \<longrightarrow> b) \<and> (b \<longrightarrow> (\<exists>i. waits (ra i))) \<and>
     (\<forall>i j. waits (ra i) \<longrightarrow> waits (ra j) \<longrightarrow> i = j)"

definition call_inv :: "u16 \<Rightarrow> 'd hot_system \<Rightarrow> bool" where
  "call_inv entries s \<longleftrightarrow>
     slot_inv (hot s) \<and> resp_inv (hot s) (resp_at s) \<and> wait_inv (busy (hot s)) (req_at s) \<and>
     valid_calls entries (placed s) = ran s @ valid_calls entries (pending s)"

lemma waits_simps [simp]:
  "\<not> waits Outside" "\<not> waits (Placing c d n)" "\<not> waits (Placing_locked c d n)"
  "waits (Waiting n)" "waits (Waiting_locked n)" "\<not> waits Stopping" "\<not> waits Stopping_locked"
  by (simp_all add: waits_def)

lemma ending_simps [simp]:
  "\<not> ending Polling" "\<not> ending Polling_locked" "\<not> ending (Running c x)" "ending Ending"
  "ending Ending_locked" "\<not> ending Returned"
  by (simp_all add: ending_def)

lemma valid_calls_simps [simp]:
  "valid_calls entries [] = []"
  "valid_calls entries (xs @ ys) = valid_calls entries xs @ valid_calls entries ys"
  "valid_calls entries [(c, d)] = (if c < entries then [(c, d)] else [])"
  by (simp_all add: valid_calls_def)

lemma wait_inv_same: "wait_inv b ra \<Longrightarrow> waits r = waits (ra i) \<Longrightarrow> wait_inv b (ra(i := r))"
  unfolding wait_inv_def by (metis fun_upd_apply)

lemma wait_inv_take: "wait_inv False ra \<Longrightarrow> waits r \<Longrightarrow> wait_inv True (ra(i := r))"
  unfolding wait_inv_def by (metis fun_upd_apply)

lemma wait_inv_leave: "wait_inv b ra \<Longrightarrow> waits (ra i) \<Longrightarrow> \<not> waits r \<Longrightarrow> wait_inv False (ra(i := r))"
  unfolding wait_inv_def by (metis fun_upd_apply)

text \<open>A step that leaves the flags, the responder's kind and the logs alone.\<close>

lemma call_inv_req:
  assumes "call_inv entries s" "waits r = waits (req_at s i)"
  shows "call_inv entries (s\<lparr>req_at := (req_at s)(i := r)\<rparr>)"
    "call_inv entries (s\<lparr>hot := (hot s)\<lparr>spinlock := v\<rparr>, req_at := (req_at s)(i := r)\<rparr>)"
    "call_inv entries (s\<lparr>hot := (hot s)\<lparr>spinlock := v\<rparr>, req_at := (req_at s)(i := r),
       placed := placed s, returned := ret\<rparr>)"
    "call_inv entries (s\<lparr>hot := (hot s)\<lparr>spinlock := v\<rparr>, req_at := (req_at s)(i := r), returned := ret\<rparr>)"
    "call_inv entries (s\<lparr>hot := (hot s)\<lparr>keepPolling := k, spinlock := v\<rparr>, req_at := (req_at s)(i := r)\<rparr>)"
proof -
  have "wait_inv (busy (hot s)) ((req_at s)(i := r))"
    using assms wait_inv_same [of "busy (hot s)" "req_at s" r i] by (simp add: call_inv_def)
  with assms(1)
  show "call_inv entries (s\<lparr>req_at := (req_at s)(i := r)\<rparr>)"
    "call_inv entries (s\<lparr>hot := (hot s)\<lparr>spinlock := v\<rparr>, req_at := (req_at s)(i := r)\<rparr>)"
    "call_inv entries (s\<lparr>hot := (hot s)\<lparr>spinlock := v\<rparr>, req_at := (req_at s)(i := r),
       placed := placed s, returned := ret\<rparr>)"
    "call_inv entries (s\<lparr>hot := (hot s)\<lparr>spinlock := v\<rparr>, req_at := (req_at s)(i := r), returned := ret\<rparr>)"
    "call_inv entries (s\<lparr>hot := (hot s)\<lparr>keepPolling := k, spinlock := v\<rparr>, req_at := (req_at s)(i := r)\<rparr>)"
    by (auto simp: call_inv_def pending_def slot_inv_def resp_inv_def)
qed

lemma call_inv_place:
  assumes "call_inv entries s" "\<not> busy (hot s)"
  shows "call_inv entries (s\<lparr>hot := (hot s)\<lparr>busy := True, isDone := False, runFunction := True, callID := c,
      hdata := Some d, spinlock := 0\<rparr>, req_at := (req_at s)(i := Waiting n), placed := placed s @ [(c, Some d)], returned := ret\<rparr>)"
proof -
  have idle: "\<not> runFunction (hot s)" using assms by (auto simp: call_inv_def slot_inv_def)
  then have "\<not> ending (resp_at s)" "\<And>c d. resp_at s \<noteq> Running c d" "pending s = []"
    using assms(1) by (auto simp: call_inv_def resp_inv_def pending_def)
  then show ?thesis using assms wait_inv_take [of "req_at s" "Waiting n" i]
    by (simp add: call_inv_def slot_inv_def resp_inv_def pending_def)
qed

lemma call_inv_answer:
  assumes "call_inv entries s" "isDone (hot s)" "waits (req_at s i)"
  shows "call_inv entries (s\<lparr>hot := (hot s)\<lparr>busy := False, spinlock := 0\<rparr>, req_at := (req_at s)(i := Outside), returned := ret\<rparr>)"
proof -
  have "\<not> runFunction (hot s)" using assms by (auto simp: call_inv_def slot_inv_def)
  then show ?thesis using assms wait_inv_leave [of "busy (hot s)" "req_at s" i Outside]
    by (simp add: call_inv_def slot_inv_def resp_inv_def pending_def)
qed

lemma call_inv_step: "hot_step entries s s' \<Longrightarrow> call_inv entries s \<Longrightarrow> call_inv entries s'"
proof (induction rule: hot_step.induct)
  case (place s i c d n r h accepted ret)
  show ?case
  proof (cases "busy (hot s)")
    case True
    with place show ?thesis
      using call_inv_req(2,3) [where entries = entries and s = s and r = r and i = i and v = 0] by (auto simp: section_simps split: if_splits)
  next
    case False
    with place show ?thesis
      using call_inv_place [where entries = entries and s = s and ret = "returned s" and i = i and n = n] by (auto simp: section_simps)
  qed
next
  case (wait_answer s i n r h ret)
  show ?case
  proof (cases "isDone (hot s)")
    case True
    with wait_answer show ?thesis
      using call_inv_answer [where entries = entries and s = s and i = i] by (auto simp: section_simps)
  next
    case False
    with wait_answer show ?thesis
      using call_inv_req(2,4) [where entries = entries and s = s and r = r and i = i and v = 0] by (auto simp: section_simps)
  qed
next
  case (stop_responder s i)
  then show ?case using call_inv_req(5) [where entries = entries and s = s and r = Outside and i = i and v = 0] by (simp add: section_simps)
next
  case (poll s p h)
  then show ?case
    by (auto simp: section_simps call_inv_def slot_inv_def resp_inv_def pending_def split: if_splits)
next
  case (run s c d)
  then show ?case
    by (auto simp: call_inv_def slot_inv_def resp_inv_def pending_def split: option.splits)
next
  case (end_call s)
  then show ?case
    by (auto simp: section_simps call_inv_def slot_inv_def resp_inv_def pending_def)
qed (auto simp: call_inv_req call_inv_def slot_inv_def resp_inv_def pending_def intro!: wait_inv_same)

lemma call_inv_start: "call_inv entries hot_start"
  by (simp add: call_inv_def hot_start_def HotCall_init_def slot_inv_def resp_inv_def wait_inv_def pending_def)

lemma call_inv_reach: "hot_reach entries s \<Longrightarrow> call_inv entries s"
  by (induction rule: hot_reach.induct) (auto intro: call_inv_start call_inv_step)

section \<open>Answers\<close>

lemma returned_grows: "hot_step entries s s' \<Longrightarrow> \<exists>rs. returned s' = returned s @ rs"
  by (induction rule: hot_step.induct) auto

text \<open>The responder returns only when it was told to, and nothing takes that back.\<close>

lemma stop_reach: "hot_reach entries s \<Longrightarrow> resp_at s = Returned \<Longrightarrow> \<not> keepPolling (hot s)"
proof (induction rule: hot_reach.induct)
  case reach_start
  then show ?case by (simp add: hot_start_def)
next
  case (reach_step s s')
  from reach_step(2,1,3,4) show ?case
    by (induction rule: hot_step.induct) (auto simp: section_simps split: if_splits)
qed

definition can_return :: "u16 \<Rightarrow> nat \<Rightarrow> 'd hot_system \<Rightarrow> bool" where
  "can_return entries i s \<longleftrightarrow>
     (\<exists>s' rs v. (hot_step entries)\<^sup>*\<^sup>* s s' \<and> returned s' = returned s @ rs @ [(i, v)] \<and> 0 \<le> v)"

lemma can_return_step: "hot_step entries s s' \<Longrightarrow> can_return entries i s' \<Longrightarrow> can_return entries i s"
  using returned_grows [of entries s s'] unfolding can_return_def
  by (metis append.assoc converse_rtranclp_into_rtranclp)

lemma can_return_now:
  assumes "hot_step entries s s'" "returned s' = returned s @ [(i, v)]" "0 \<le> v"
  shows "can_return entries i s"
proof -
  have "(hot_step entries)\<^sup>*\<^sup>* s s'" using assms(1) by (rule r_into_rtranclp)
  moreover have "returned s' = returned s @ [] @ [(i, v)]" using assms(2) by simp
  ultimately show ?thesis using assms(3) unfolding can_return_def by blast
qed

text \<open>The way of a call, backwards, from states in which the lock is free.\<close>

lemma return_done:
  assumes "spinlock (hot s) = 0" "req_at s i = Waiting n" "isDone (hot s)"
  shows "can_return entries i s"
proof (rule can_return_step)
  let ?s = "s\<lparr>hot := (hot s)\<lparr>spinlock := 1\<rparr>, req_at := (req_at s)(i := Waiting_locked n)\<rparr>"
  show "hot_step entries s ?s" using assms by (intro hot_step.lock_wait) simp_all
  have "hot_step entries ?s (?s\<lparr>hot := (hot ?s)\<lparr>busy := False, spinlock := 0\<rparr>, req_at := (req_at ?s)(i := Outside),
      returned := returned ?s @ (case Some (int n) of None \<Rightarrow> [] | Some v \<Rightarrow> [(i, v)])\<rparr>)"
    using assms(3) by (intro hot_step.wait_answer) (simp_all add: section_simps)
  then show "can_return entries i ?s" by (rule can_return_now [where v = "int n"]) simp_all
qed

lemma return_ending:
  assumes "spinlock (hot s) = 0" "req_at s i = Waiting n" "resp_at s = Ending"
  shows "can_return entries i s"
proof (rule can_return_step)
  let ?s = "s\<lparr>hot := (hot s)\<lparr>spinlock := 1\<rparr>, resp_at := Ending_locked\<rparr>"
  show "hot_step entries s ?s" using assms by (intro hot_step.lock_end) simp_all
  have "hot_step entries ?s (?s\<lparr>hot := spin_unlock (finish_call (hot ?s)), resp_at := Polling\<rparr>)"
    by (rule hot_step.end_call) simp
  moreover have "can_return entries i (?s\<lparr>hot := spin_unlock (finish_call (hot ?s)), resp_at := Polling\<rparr>)"
    using assms by (intro return_done [where n = n]) (simp_all add: section_simps)
  ultimately show "can_return entries i ?s" by (rule can_return_step)
qed

lemma return_running:
  assumes "spinlock (hot s) = 0" "req_at s i = Waiting n" "resp_at s = Running c d"
  shows "can_return entries i s"
  using hot_step.run [OF assms(3)]
  by (rule can_return_step) (rule return_ending [where n = n], use assms in simp_all)

lemma return_polling:
  assumes "spinlock (hot s) = 0" "req_at s i = Waiting n" "resp_at s = Polling" "keepPolling (hot s)" "runFunction (hot s)"
  shows "can_return entries i s"
proof (rule can_return_step)
  let ?s = "s\<lparr>hot := (hot s)\<lparr>spinlock := 1\<rparr>, resp_at := Polling_locked\<rparr>"
  let ?t = "?s\<lparr>hot := spin_unlock (hot ?s), resp_at := Running (callID (hot s)) (hdata (hot s))\<rparr>"
  show "hot_step entries s ?s" using assms by (intro hot_step.lock_poll) simp_all
  have "hot_step entries ?s ?t" using assms by (intro hot_step.poll) (simp_all add: section_simps)
  moreover have "can_return entries i ?t"
    using assms by (intro return_running [where n = n]) (simp_all add: section_simps)
  ultimately show "can_return entries i ?s" by (rule can_return_step)
qed

lemma return_free:
  assumes R: "hot_reach entries s" and "spinlock (hot s) = 0" "keepPolling (hot s)" "waits (req_at s i)"
  shows "can_return entries i s"
proof -
  have "holds_lock s = (\<lambda>_. False)" using lock_inv_reach [OF R] assms(2) by (simp add: lock_inv_def)
  then have free: "\<not> req_holds (req_at s i)" "\<not> resp_holds (resp_at s)" by (metis holds_at)+
  obtain n where n: "req_at s i = Waiting n" using assms(4) free(1) by (cases "req_at s i") simp_all
  have C: "slot_inv (hot s)" "busy (hot s)"
    using call_inv_reach [OF R] assms(4) by (auto simp: call_inv_def wait_inv_def)
  show ?thesis
  proof (cases "isDone (hot s)")
    case True
    with n assms(2) show ?thesis by (intro return_done)
  next
    case False
    then have run: "runFunction (hot s)" using C by (simp add: slot_inv_def)
    show ?thesis
      using free(2) stop_reach [OF R] assms(2,3) n run
      by (cases "resp_at s") (auto intro: return_polling return_running return_ending)
  qed
qed

text \<open>A section that is entered is left by the next step of its thread.\<close>

lemma return_locked:
  assumes R: "hot_reach entries s" and "holds_lock s t" "keepPolling (hot s)" "waits (req_at s i)"
    and stop: "t \<noteq> None \<Longrightarrow> req_at s (the t) \<noteq> Stopping_locked"
  shows "can_return entries i s"
proof -
  have leave: "can_return entries i s" if S: "hot_step entries s s'"
    and "spinlock (hot s') = 0" "keepPolling (hot s')" "waits (req_at s' i)" for s'
    by (rule can_return_step [OF S return_free [OF reach_step [OF R S]]]) fact+
  show ?thesis
  proof (cases t)
    case None
    then consider "resp_at s = Polling_locked" | "resp_at s = Ending_locked"
      using assms(2) by (auto simp: holds_at resp_holds_def)
    then show ?thesis
    proof cases
      case 1
      obtain p h where p: "poll_step (hot s) = (p, h)" by (cases "poll_step (hot s)")
      show ?thesis by (rule leave [OF hot_step.poll [OF 1 p]])
        (use p assms(3,4) in \<open>auto simp: section_simps split: if_splits\<close>)
    next
      case 2
      show ?thesis by (rule leave [OF hot_step.end_call [OF 2]])
        (use assms(3,4) in \<open>simp_all add: section_simps\<close>)
    qed
  next
    case (Some j)
    then consider c d n where "req_at s j = Placing_locked c d n" | n where "req_at s j = Waiting_locked n"
      using assms(2) stop by (cases "req_at s j") (auto simp: holds_at)
    then show ?thesis
    proof cases
      case (1 c d n)
      obtain r h a ret where p: "place_step c d n (hot s) = (r, h, a, ret)" by (metis prod_cases4)
      show ?thesis by (rule leave [OF hot_step.place [OF 1 p]])
        (use p 1 assms(3,4) in \<open>auto simp: section_simps split: if_splits\<close>)
    next
      case (2 n)
      have "j = i" using call_inv_reach [OF R] assms(4) 2 by (auto simp: call_inv_def wait_inv_def)
      obtain r h ret where p: "answer_step n (hot s) = (r, h, ret)" by (metis prod_cases3)
      note S = hot_step.wait_answer [OF 2 p]
      show ?thesis
      proof (cases ret)
        case None
        show ?thesis by (rule leave [OF S])
          (use p 2 None assms(3,4) in \<open>auto simp: section_simps split: if_splits\<close>)
      next
        case (Some v)
        show ?thesis by (rule can_return_now [OF S, where v = v])
          (use p Some \<open>j = i\<close> in \<open>auto simp: section_simps split: if_splits\<close>)
      qed
    qed
  qed
qed

text \<open>No requester retries more often than it may.\<close>

definition retries :: "'d requester \<Rightarrow> nat" where
  "retries r = (case r of Placing c d n \<Rightarrow> n | Placing_locked c d n \<Rightarrow> n | Waiting n \<Rightarrow> n | Waiting_locked n \<Rightarrow> n | _ \<Rightarrow> 0)"

lemma retries_reach: "hot_reach entries s \<Longrightarrow> retries (req_at s i) \<le> MAX_RETRIES"
proof (induction arbitrary: i rule: hot_reach.induct)
  case reach_start
  show ?case by (simp add: hot_start_def retries_def)
next
  case (reach_step s s')
  from reach_step(2,3) show ?case
  proof (induction rule: hot_step.induct)
    case (place s j c d n r h accepted ret)
    then show ?case using place.prems [of i] place.prems [of j]
      by (auto simp: section_simps retries_def split: if_splits)
  next
    case (wait_answer s j n r h ret)
    then show ?case using wait_answer.prems [of i] wait_answer.prems [of j]
      by (auto simp: section_simps retries_def split: if_splits)
  next
    case (lock_place s j c d n h)
    then show ?case using lock_place.prems [of i] lock_place.prems [of j] by (auto simp: retries_def)
  next
    case (lock_wait s j n h)
    then show ?case using lock_wait.prems [of i] lock_wait.prems [of j] by (auto simp: retries_def)
  qed (simp_all add: retries_def)
qed

text \<open>A step by which a requester returns.\<close>

lemma return_step:
  assumes "hot_step entries s s'" "returned s' = returned s @ [(i, v)]"
  shows "(\<exists>c d n. req_at s i = Placing_locked c d n \<and> busy (hot s) \<and> v = - 1) \<or>
    (\<exists>n. req_at s i = Waiting_locked n \<and> isDone (hot s) \<and> v = int n)"
  using assms by (induction rule: hot_step.induct) (auto simp: section_simps split: if_splits option.splits)

section \<open>What the protocol guarantees\<close>

text \<open>
  C19. Mutual exclusion: however many requesters there are and however their steps and the
  responder's interleave, at most one thread is between \<open>sgx_spin_lock\<close> and \<open>sgx_spin_unlock\<close>.
\<close>

theorem hot_mutual_exclusion:
  assumes "hot_reach entries s" "holds_lock s t" "holds_lock s u"
  shows "t = u"
proof -
  from lock_inv_reach [OF assms(1)] assms(2) obtain v where "holds_lock s = (\<lambda>_. False)(v := True)"
    by (auto simp: lock_inv_def)
  with assms(2,3) show ?thesis by (auto split: if_splits)
qed

definition sample_schedule :: "nat \<Rightarrow> string move list" where
  "sample_schedule n = take n
     [Enter 0 0 ''set'', Req 0, Resp, Enter 1 0 ''get'', Req 0, Req 1, Resp, Req 1, Resp, Resp, Resp, Resp, Resp, Req 0, Req 0]"

definition sample_system :: "nat \<Rightarrow> string hot_system" where
  "sample_system n = (case hot_run 1 (sample_schedule n) hot_start of Some s \<Rightarrow> s | None \<Rightarrow> hot_start)"

lemmas run_simps = sample_system_def sample_schedule_def hot_start_def HotCall_init_def outside_def
  req_move_def resp_move_def take_lock_def spin_try_def InterlockedExchange_def section_simps

lemma sample_reach: "hot_reach 1 (sample_system n)"
  unfolding sample_system_def
  by (auto split: option.splits intro: reach_start hot_run_reach)

theorem hot_mutual_exclusion_witness:
  "{u. holds_lock (sample_system 2) u} = {Some 0}"
proof -
  have "holds_lock (sample_system 2) (Some 0)" by code_simp
  then show ?thesis using hot_mutual_exclusion [OF sample_reach [of 2]] by blast
qed

text \<open>
  C20. Each call that a requester manages to place is run exactly once, in the order in which the
  calls were placed (calls beyond the callback table are dropped by design): the callbacks that
  were run are those of the placed calls, up to at most one that is still pending, and then
  exactly one requester waits for it.
\<close>

theorem hot_calls_once:
  assumes "hot_reach entries s"
  shows "valid_calls entries (placed s) = ran s @ valid_calls entries (pending s) \<and>
    length (pending s) \<le> 1 \<and> (pending s \<noteq> [] \<longrightarrow> (\<exists>!i. waits (req_at s i)))"
proof (intro conjI impI)
  note C = call_inv_reach [OF assms]
  from C show "valid_calls entries (placed s) = ran s @ valid_calls entries (pending s)" by (simp add: call_inv_def)
  show "length (pending s) \<le> 1" by (simp add: pending_def)
  assume "pending s \<noteq> []"
  then have "busy (hot s)" using C by (auto simp: call_inv_def slot_inv_def pending_def split: if_splits)
  then show "\<exists>!i. waits (req_at s i)" using C unfolding call_inv_def wait_inv_def by blast
qed

theorem hot_calls_once_witness:
  "pending (sample_system 5) = [(0, Some ''set'')] \<and> ran (sample_system 5) = [] \<and>
   ran (sample_system 11) = [(0, Some ''set'')] \<and>
   valid_calls 1 (placed (sample_system 11)) = ran (sample_system 11) @ valid_calls 1 (pending (sample_system 11)) \<and>
   (\<exists>!i. waits (req_at (sample_system 5) i))"
proof -
  have "pending (sample_system 5) = [(0, Some ''set'')]" "ran (sample_system 5) = []"
    "ran (sample_system 11) = [(0, Some ''set'')]" by code_simp+
  then show ?thesis using hot_calls_once [OF sample_reach [of 11]] hot_calls_once [OF sample_reach [of 5]] by simp
qed

text \<open>
  C21. When \<open>HotCall_requestCall\<close> returns a count of retries, all calls placed so far, its own
  included, have been run, the count is at most \<open>MAX_RETRIES\<close>, and it is the only requester that
  was waiting; when it returns -1, another requester's call is in flight.
\<close>

theorem hot_call_result:
  assumes "hot_reach entries s" "hot_step entries s s'" "returned s' = returned s @ [(i, v)]"
  shows "0 \<le> v \<and> v \<le> int MAX_RETRIES \<and> ran s = valid_calls entries (placed s) \<and> (\<forall>j. waits (req_at s j) \<longleftrightarrow> j = i) \<or>
    v = - 1 \<and> (\<exists>j. j \<noteq> i \<and> waits (req_at s j))"
proof -
  note C = call_inv_reach [OF assms(1)]
  consider c d n where "req_at s i = Placing_locked c d n" "busy (hot s)" "v = - 1"
    | n where "req_at s i = Waiting_locked n" "isDone (hot s)" "v = int n"
    using return_step [OF assms(2,3)] by blast
  then show ?thesis
  proof cases
    case 1
    then obtain j where "waits (req_at s j)" using C by (auto simp: call_inv_def wait_inv_def)
    with 1 show ?thesis by (intro disjI2) (metis waits_simps(3))
  next
    case 2
    then have "pending s = []" using C by (auto simp: call_inv_def slot_inv_def pending_def)
    then have "ran s = valid_calls entries (placed s)" using C by (simp add: call_inv_def)
    moreover have "n \<le> MAX_RETRIES" using retries_reach [OF assms(1), of i] 2 by (simp add: retries_def)
    moreover have "\<forall>j. waits (req_at s j) \<longleftrightarrow> j = i"
      using C 2(1) unfolding call_inv_def wait_inv_def by (metis waits_simps(5))
    ultimately show ?thesis using 2(3) by simp
  qed
qed

theorem hot_call_result_witness:
  "returned (sample_system 15) = [(0, 0)] \<and> ran (sample_system 14) = valid_calls 1 (placed (sample_system 14))"
proof -
  have S: "hot_move 1 (Req 0) (sample_system 14) = Some (sample_system 15)"
    "returned (sample_system 15) = returned (sample_system 14) @ [(0, 0)]"
    "returned (sample_system 15) = [(0, 0)]"
  proof -
    show "returned (sample_system 15) = returned (sample_system 14) @ [(0, 0)]"
      "returned (sample_system 15) = [(0, 0)]" by code_simp+
    show "hot_move 1 (Req 0) (sample_system 14) = Some (sample_system 15)"
      by (simp add: run_simps MAX_RETRIES_def)
  qed
  show ?thesis using hot_call_result [OF sample_reach hot_move_step [OF S(1)] S(2)] S(3) by simp
qed

text \<open>
  C22. A requester that waits gets its answer: as long as the responder has not been told to stop
  (and no thread is just about to tell it), the threads' own steps lead to a state in which the
  requester has returned, whatever state they are in.
\<close>

theorem hot_call_returns:
  assumes "hot_reach entries s" "keepPolling (hot s)" "\<forall>j. req_at s j \<noteq> Stopping_locked" "waits (req_at s i)"
  shows "\<exists>s' rs v. (hot_step entries)\<^sup>*\<^sup>* s s' \<and> returned s' = returned s @ rs @ [(i, v)] \<and> 0 \<le> v"
proof -
  have "can_return entries i s"
  proof (cases "spinlock (hot s) = 0")
    case True
    with assms show ?thesis by (intro return_free)
  next
    case False
    then obtain t where "holds_lock s t" using lock_inv_reach [OF assms(1)] by (auto simp: lock_inv_def)
    with assms show ?thesis by (intro return_locked) auto
  qed
  then show ?thesis by (simp add: can_return_def)
qed

theorem hot_call_returns_witness:
  "\<exists>s' rs v. (hot_step 1)\<^sup>*\<^sup>* (sample_system 5) s' \<and> returned s' = returned (sample_system 5) @ rs @ [(0, v)] \<and> 0 \<le> v"
proof (rule hot_call_returns [OF sample_reach])
  show "keepPolling (hot (sample_system 5))" "waits (req_at (sample_system 5) 0)" by code_simp+
  show "\<forall>j. req_at (sample_system 5) j \<noteq> Stopping_locked"
    by (simp add: run_simps)
qed

end
