(* ===== verification/Client_App.thy ===== *)
theory Client_App
  imports C_Library
begin

text \<open>
  The two clients (\<open>client/client_load.c\<close>, \<open>client/client_run.c\<close>): reading a trace file into the
  threads' lists of requests, the threads that send them one by one and wait for each answer, and
  the options. The programs share their code but for the field that holds the number of
  operations, the name of the trace and the last message; what they share is written once.
\<close>

section \<open>Configuration\<close>

record client_arg =
  c_ipaddr :: bytes
  c_port_num :: int
  c_num_threads :: int
  c_max_key_size :: int
  c_max_val_size :: int
  c_max_buf_size :: int
  c_inst_size :: int
  c_workload :: char

definition MAX_IP_ADDR :: nat where
  "MAX_IP_ADDR = 12"

definition client_configuration_init :: client_arg where
  "client_configuration_init =
     \<lparr>c_ipaddr = lit ''127.0.0.1'' @ [0, 0, 0], c_port_num = 1234, c_num_threads = 4, c_max_key_size = 16,
      c_max_val_size = 16, c_max_buf_size = 64, c_inst_size = 500, c_workload = CHR ''a''\<rparr>"

definition client_help :: "string list" where
  "client_help =
     [''-h : help'', ''-i <server ip address>'', ''-p <server port number>'', ''-k <maximum key size>'',
      ''-v <maximum value size>'', ''-b <maximum buffer size>'', ''-t <number of threads>'',
      ''-w <workload name>'', ''-n <number of operations>'']"

text \<open>
  An option, as \<open>getopt\<close> delivers it. Help and an illegal option print the help and go on.
  \<open>memcpy(arg.ipaddr, optarg, strlen(optarg))\<close> copies no NUL.
\<close>

definition client_option :: "bool \<Rightarrow> char \<times> string \<Rightarrow> client_arg \<times> string list \<Rightarrow> (client_arg \<times> string list) res" where
  "client_option debug opt st =
     (case (opt, st) of ((c, optarg), (a, msgs)) \<Rightarrow>
        if c = CHR ''h'' then Inr (a, msgs @ client_help)
        else if c = CHR ''i'' then
          bindE (memcpy_at (c_ipaddr a) 0 (length optarg) (lit optarg)) (\<lambda>ip. Inr (a\<lparr>c_ipaddr := ip\<rparr>, msgs))
        else if c = CHR ''p'' then Inr (a\<lparr>c_port_num := atoi optarg\<rparr>, msgs)
        else if c = CHR ''k'' then Inr (a\<lparr>c_max_key_size := atoi optarg\<rparr>, msgs)
        else if c = CHR ''v'' then
          let v = atoi optarg; a1 = a\<lparr>c_max_val_size := v\<rparr> in
          Inr (a1\<lparr>c_max_buf_size :=
                 if v = 16 then 64 else if v = 128 then 192 else if v = 512 then 576
                 else c_max_key_size a1 + v + 10\<rparr>, msgs)
        else if c = CHR ''b'' then
          let b = atoi optarg in
          bindE (requireE (debug \<longrightarrow> c_max_key_size a + c_max_val_size a + 10 \<le> b) AssertFail) (\<lambda>_.
            Inr (a\<lparr>c_max_buf_size := b\<rparr>, msgs))
        else if c = CHR ''t'' then Inr (a\<lparr>c_num_threads := atoi optarg\<rparr>, msgs)
        else if c = CHR ''w'' then
          Inr (a\<lparr>c_workload := (case optarg of [] \<Rightarrow> char_of (0 :: nat) | w # _ \<Rightarrow> w)\<rparr>, msgs)
        else if c = CHR ''n'' then Inr (a\<lparr>c_inst_size := atoi optarg\<rparr>, msgs)
        else Inr (a, msgs @ client_help))"

fun client_options :: "bool \<Rightarrow> (char \<times> string) list \<Rightarrow> client_arg \<times> string list \<Rightarrow> (client_arg \<times> string list) res" where
  "client_options debug [] st = Inr st"
| "client_options debug (opt # opts) st = bindE (client_option debug opt st) (client_options debug opts)"

section \<open>The trace\<close>

text \<open>
  A round of the loop of \<open>file_to_memory\<close>: a line is read into the zeroed buffer and its last
  character is overwritten by NUL. At the end of the file the process exits.
\<close>

definition trace_line :: "nat \<Rightarrow> bytes \<Rightarrow> (bytes \<times> bytes) res" where
  "trace_line n f =
     bindE (requireE (f \<noteq> []) Exited) (\<lambda>_.
     case fgets n (replicate n 0) f of (b, f') \<Rightarrow>
     bindE (c_str b) (\<lambda>s.
     bindE (requireE (s \<noteq> []) OutOfBounds) (\<lambda>_. Inr (b[length s - 1 := 0], f'))))"

text \<open>
  The loop, with \<open>k\<close> rounds to go: \<open>thread_id\<close> moves on when \<open>set_count\<close> is a multiple of the
  number of lines per thread, and the line is stored in the next of the thread's \<open>per\<close> buffers.
\<close>

fun trace_loop :: "nat \<Rightarrow> int \<Rightarrow> nat \<Rightarrow> int \<Rightarrow> nat \<Rightarrow> bytes \<Rightarrow> bytes list list \<Rightarrow> bytes list list res" where
  "trace_loop n per 0 set_count thread_id f inst = Inr inst"
| "trace_loop n per (Suc k) set_count thread_id f inst =
     bindE (requireE (per \<noteq> 0) DivByZero) (\<lambda>_.
     let tid = (if set_count mod per = 0 \<and> set_count \<noteq> 0 then thread_id + 1 else thread_id) in
     bindE (trace_line n f) (\<lambda>(b, f').
     bindE (requireE (tid < length inst \<and> length (inst ! tid) < nat per) OutOfBounds) (\<lambda>_.
       trace_loop n per k (set_count + 1) tid f' (inst[tid := inst ! tid @ [b]]))))"

definition client_file_to_memory :: "(string \<Rightarrow> bytes option) \<Rightarrow> string \<Rightarrow> client_arg \<Rightarrow> bytes list list res" where
  "client_file_to_memory files name a =
     (case files name of
        None \<Rightarrow> Inl NullDeref
      | Some f \<Rightarrow>
          bindE (requireE (c_num_threads a \<noteq> 0 \<or> c_inst_size a \<le> 0) DivByZero) (\<lambda>_.
          bindE (requireE (0 < c_max_buf_size a \<or> c_inst_size a \<le> 0) Unspecified) (\<lambda>_.
            trace_loop (nat (c_max_buf_size a)) (c_div (c_inst_size a) (c_num_threads a)) (nat (c_inst_size a)) 0 0 f
              (replicate (nat (c_num_threads a)) []))))"

definition run_file_to_memory :: "(string \<Rightarrow> bytes option) \<Rightarrow> client_arg \<Rightarrow> bytes list list res" where
  "run_file_to_memory files a = client_file_to_memory files ''traces/trace_run.txt'' a"

definition load_file_to_memory :: "(string \<Rightarrow> bytes option) \<Rightarrow> client_arg \<Rightarrow> bytes list list res" where
  "load_file_to_memory files a = client_file_to_memory files ''traces/trace_load.txt'' a"

section \<open>A client thread\<close>

text \<open>\<open>strncpy(buf_in, src, n)\<close> into a buffer of \<open>n\<close> bytes.\<close>

definition strncpy :: "nat \<Rightarrow> bytes \<Rightarrow> bytes" where
  "strncpy n src = (let s = takeWhile (\<lambda>c. c \<noteq> 0) (take n src) in s @ replicate (n - length s) 0)"

text \<open>
  The connection: for what is written, the new state of the other side and what is read back
  (\<open>None\<close> when \<open>read\<close> or \<open>write\<close> fails, which is printed and otherwise ignored).
\<close>

type_synonym 's connection = "'s \<Rightarrow> bytes \<Rightarrow> 's \<times> bytes option"

record 's client =
  peer :: 's
  answers :: "bytes list"
  c_out :: "string list"

text \<open>One exchange: the buffer of the answer is zeroed before; a shorter answer leaves zeroes.\<close>

definition exchange :: "nat \<Rightarrow> 's connection \<Rightarrow> bytes \<Rightarrow> 's client \<Rightarrow> 's client" where
  "exchange n net msg c =
     (case net (peer c) msg of
        (s, None) \<Rightarrow> c\<lparr>peer := s, answers := answers c @ [replicate n 0], c_out := c_out c @ [''Error errno: -1'']\<rparr>
      | (s, Some d) \<Rightarrow> c\<lparr>peer := s, answers := answers c @ [pad n (take n d)]\<rparr>)"

definition client_rounds :: "nat \<Rightarrow> nat \<Rightarrow> 's connection \<Rightarrow> bytes list \<Rightarrow> 's client \<Rightarrow> 's client" where
  "client_rounds n per net insts c = fold (\<lambda>b. exchange n net (strncpy n b)) (take per insts) c"

text \<open>
  \<open>client_worker\<close> of the thread \<open>thread_id\<close>; \<open>connected\<close> is whether \<open>connect\<close> succeeds. The last
  message is \<open>EXIT\<close> or \<open>LOADDONE\<close>, with its NUL, and the answer to it is read, and printed by the
  load client. The progress messages are left out.
\<close>

definition text_of :: "bytes \<Rightarrow> string" where
  "text_of b = map (\<lambda>c. char_of (unat c)) (takeWhile (\<lambda>c. c \<noteq> 0) b)"

definition client_worker ::
  "bool \<Rightarrow> string \<Rightarrow> string \<Rightarrow> client_arg \<Rightarrow> bool \<Rightarrow> 's connection \<Rightarrow> bytes list list \<Rightarrow> nat \<Rightarrow> 's \<Rightarrow> 's client res" where
  "client_worker echo complete last_msg a connected net inst thread_id s =
     bindE (requireE connected Exited) (\<lambda>_.
     bindE (requireE (thread_id < length inst) OutOfBounds) (\<lambda>_.
     let n = nat (c_max_buf_size a); per = nat (c_div (c_inst_size a) (c_num_threads a)) in
     bindE (requireE (per \<le> length (inst ! thread_id)) OutOfBounds) (\<lambda>_.
     let c1 = client_rounds n per net (inst ! thread_id) \<lparr>peer = s, answers = [], c_out = []\<rparr>;
         c2 = exchange n net (lit last_msg @ [0]) (c1\<lparr>c_out := c_out c1 @ [complete]\<rparr>);
         reply = last (answers c2) in
     bindE (strncmp_eq 4 reply (lit ''EXIT'' @ [0])) (\<lambda>is_exit.
       Inr (c2\<lparr>c_out := c_out c2 @ (if echo then [text_of reply] else []) @
              (if is_exit then [''Exit message: '' @ text_of reply] else [])\<rparr>)))))"

definition run_worker ::
  "client_arg \<Rightarrow> bool \<Rightarrow> 's connection \<Rightarrow> bytes list list \<Rightarrow> nat \<Rightarrow> 's \<Rightarrow> 's client res" where
  "run_worker a connected net inst thread_id s =
     client_worker False ''RUN COMPLETE'' ''EXIT'' a connected net inst thread_id s"

definition load_worker ::
  "client_arg \<Rightarrow> bool \<Rightarrow> 's connection \<Rightarrow> bytes list list \<Rightarrow> nat \<Rightarrow> 's \<Rightarrow> 's client res" where
  "load_worker a connected net inst thread_id s =
     client_worker True ''LOAD COMPLETE'' ''LOADDONE'' a connected net inst thread_id s"

section \<open>The programs\<close>

text \<open>
  \<open>main\<close> up to the creation of the threads: the configuration and the lines of each thread. (The
  process returns 1 when the threads have ended.)
\<close>

definition client_main ::
  "(client_arg \<Rightarrow> bytes list list res) \<Rightarrow> bool \<Rightarrow> (char \<times> string) list \<Rightarrow>
   (client_arg \<times> bytes list list \<times> string list) res" where
  "client_main to_memory debug opts =
     bindE (client_options debug opts (client_configuration_init, [])) (\<lambda>(a, msgs).
     bindE (to_memory a) (\<lambda>inst. Inr (a, inst, msgs @ [''Files are loaded into memory!''])))"

definition run_main ::
  "(string \<Rightarrow> bytes option) \<Rightarrow> bool \<Rightarrow> (char \<times> string) list \<Rightarrow> (client_arg \<times> bytes list list \<times> string list) res" where
  "run_main files debug opts = client_main (run_file_to_memory files) debug opts"

definition load_main ::
  "(string \<Rightarrow> bytes option) \<Rightarrow> bool \<Rightarrow> (char \<times> string) list \<Rightarrow> (client_arg \<times> bytes list list \<times> string list) res" where
  "load_main files debug opts = client_main (load_file_to_memory files) debug opts"

end
