(* ===== verification/Client_Correct.thy ===== *)
theory Client_Correct
  imports Client_App Sample_World
begin

text \<open>
  The clients divide a trace evenly among their threads, send every line as the request it
  stands for, and get back the answers of a map; and where the division and the option for the
  address go wrong.
\<close>

section \<open>Lines\<close>

text \<open>The trace file of some lines; a line fits a buffer with its newline and a NUL.\<close>

definition trace_file :: "bytes list \<Rightarrow> bytes" where
  "trace_file ls = concat (map (\<lambda>l. l @ [newline]) ls)"

definition trace_fits :: "nat \<Rightarrow> bytes \<Rightarrow> bool" where
  "trace_fits n l \<longleftrightarrow> l \<noteq> [] \<and> 0 \<notin> set l \<and> newline \<notin> set l \<and> length l + 2 \<le> n"

lemma first_line_eq: "newline \<notin> set l \<Longrightarrow> first_line (l @ newline # f) = l @ [newline]"
  by (simp add: first_line_def Let_def takeWhile_upto_first)

lemma trace_line_eq:
  assumes "trace_fits n l"
  shows "trace_line n (l @ newline # f) = Inr (pad n l, f)"
proof -
  have l: "l \<noteq> []" "0 \<notin> set l" "newline \<notin> set l" "length l + 2 \<le> n" using assms by (auto simp: trace_fits_def)
  let ?z = "replicate (n - (length l + 2)) (0 :: byte)"
  have g: "fgets n (replicate n 0) (l @ newline # f) = ((l @ [newline]) @ 0 # ?z, f)"
    using l(4) by (simp add: fgets_def first_line_eq [OF l(3)] Let_def)
  have "c_str ((l @ [newline]) @ 0 # ?z) = Inr (l @ [newline])"
    using l(2) by (intro c_str_terminated) (simp add: newline_def)
  moreover have "((l @ [newline]) @ 0 # ?z)[length (l @ [newline]) - 1 := 0] = l @ 0 # 0 # ?z"
    by (simp add: list_update_append)
  moreover have "l @ 0 # 0 # ?z = pad n l"
    using l(4) by (simp add: pad_def Suc_diff_le flip: replicate_Suc)
  ultimately show ?thesis using g by (simp add: trace_line_def)
qed

section \<open>Dividing the trace\<close>

definition split_lines :: "nat \<Rightarrow> nat \<Rightarrow> 'a list \<Rightarrow> 'a list list" where
  "split_lines per t xs = map (\<lambda>i. take per (drop (i * per) xs)) [0..<t]"

definition tid_at :: "nat \<Rightarrow> nat \<Rightarrow> nat" where
  "tid_at per j = (j - 1) div per"

lemma split_lines_snoc:
  assumes "0 < per" "length xs div per < t"
  shows "(split_lines per t xs)[length xs div per := split_lines per t xs ! (length xs div per) @ [x]] =
    split_lines per t (xs @ [x])"
    "length (split_lines per t xs ! (length xs div per)) = length xs mod per"
proof -
  let ?j = "length xs"
  let ?b = "?j div per"
  have j: "?b * per \<le> ?j" "?j - ?b * per = ?j mod per" by (simp_all add: minus_div_mult_eq_mod)
  have m: "?j mod per < per" using assms(1) by simp
  have here: "split_lines per t xs ! ?b = drop (?b * per) xs"
    using assms(2) j m by (simp add: split_lines_def)
  then show "length (split_lines per t xs ! ?b) = ?j mod per" using j by simp
  show "(split_lines per t xs)[?b := split_lines per t xs ! ?b @ [x]] = split_lines per t (xs @ [x])"
  proof (rule nth_equalityI)
    fix i assume "i < length ((split_lines per t xs)[?b := split_lines per t xs ! ?b @ [x]])"
    then have i: "i < t" by (simp add: split_lines_def)
    show "(split_lines per t xs)[?b := split_lines per t xs ! ?b @ [x]] ! i = split_lines per t (xs @ [x]) ! i"
    proof (cases i ?b rule: linorder_cases)
      case less
      then have "(i + 1) * per \<le> ?b * per" by (intro mult_le_mono1) simp
      then have "i * per + per \<le> ?j" using order_trans [OF _ j(1), of "(i + 1) * per"] by simp
      then have "per \<le> ?j - i * per" by linarith
      then show ?thesis using less i by (simp add: split_lines_def)
    next
      case equal
      then show ?thesis using here j m i by (simp add: split_lines_def)
    next
      case greater
      then have "(?b + 1) * per \<le> i * per" by (intro mult_le_mono1) simp
      moreover have "?j < (?b + 1) * per" using j m by (simp add: algebra_simps)
      ultimately have "Suc ?j \<le> i * per" by simp
      then show ?thesis using greater i by (simp add: split_lines_def)
    qed
  qed (simp add: split_lines_def)
qed

lemma next_tid:
  assumes "0 < per"
  shows "(if int j mod int per = 0 \<and> int j \<noteq> 0 then tid_at per j + 1 else tid_at per j) = j div per"
proof (cases j)
  case (Suc i)
  have "int j mod int per = 0 \<longleftrightarrow> j mod per = 0" by (metis of_nat_eq_0_iff of_nat_mod)
  moreover have "Suc i div per = (if Suc i mod per = 0 then i div per + 1 else i div per)" by (simp add: div_Suc)
  ultimately show ?thesis using Suc by (simp add: tid_at_def)
qed (simp add: tid_at_def)

lemma trace_loop_step:
  assumes "0 < per" "trace_fits n l"
  shows "trace_loop n (int per) (Suc k) (int j) (tid_at per j) (l @ newline # f) inst =
    bindE (requireE (j div per < length inst \<and> length (inst ! (j div per)) < per) OutOfBounds) (\<lambda>_.
      trace_loop n (int per) k (int (Suc j)) (tid_at per (Suc j)) f (inst[j div per := inst ! (j div per) @ [pad n l]]))"
proof -
  have t: "tid_at per (Suc j) = j div per" by (simp add: tid_at_def)
  have p: "requireE (int per \<noteq> 0) DivByZero = Inr ()" using assms(1) by simp
  show ?thesis
    unfolding trace_loop.simps(2) Let_def next_tid [OF assms(1)] trace_line_eq [OF assms(2)] p t
    by (simp add: add.commute)
qed

lemma trace_loop_lines:
  assumes "0 < per" "\<forall>l \<in> set ls. trace_fits n l" "length done + length ls \<le> t * per"
  shows "trace_loop n (int per) (length ls + k) (int (length done)) (tid_at per (length done))
      (trace_file ls @ f) (split_lines per t (map (pad n) done)) =
    trace_loop n (int per) k (int (length (done @ ls))) (tid_at per (length (done @ ls))) f
      (split_lines per t (map (pad n) (done @ ls)))"
  using assms(2,3)
proof (induction ls arbitrary: "done")
  case (Cons l ls)
  let ?j = "length done" and ?x = "map (pad n) done"
  have b: "?j div per < t" using Cons.prems(2) assms(1) by (simp add: div_less_iff_less_mult)
  note S = split_lines_snoc(1) [of per ?x t "pad n l", OF assms(1)] split_lines_snoc(2) [of per ?x t, OF assms(1)]
  have len: "length (split_lines per t ?x) = t" by (simp add: split_lines_def)
  have "trace_loop n (int per) (length (l # ls) + k) (int ?j) (tid_at per ?j) (trace_file (l # ls) @ f)
      (split_lines per t ?x) =
    trace_loop n (int per) (length ls + k) (int (length (done @ [l]))) (tid_at per (length (done @ [l]))) (trace_file ls @ f)
      (split_lines per t (map (pad n) (done @ [l])))"
    using trace_loop_step [OF assms(1), of n l "length ls + k" ?j "trace_file ls @ f" "split_lines per t ?x"]
      Cons.prems(1) S b len assms(1)
    by (simp add: trace_file_def del: trace_loop.simps(2))
  then show ?case using Cons.IH [of "done @ [l]"] Cons.prems by simp
qed (simp add: trace_file_def)

section \<open>Sessions\<close>

text \<open>The line of an operation, and when it fits.\<close>

fun op_line :: "req \<Rightarrow> bytes" where
  "op_line (Get k) = lit ''GET '' @ k"
| "op_line (Set k v) = lit ''SET '' @ k @ blank # v"

fun op_fits :: "nat \<Rightarrow> req \<Rightarrow> bool" where
  "op_fits n (Get k) \<longleftrightarrow> plain_word k \<and> newline \<notin> set k \<and> length k + 6 \<le> n"
| "op_fits n (Set k v) \<longleftrightarrow>
     plain_word k \<and> newline \<notin> set k \<and> 0 \<notin> set v \<and> newline \<notin> set v \<and> length k + length v + 7 \<le> n"

lemma op_trace_fits: "op_fits n r \<Longrightarrow> trace_fits n (op_line r)"
  by (cases r) (auto simp: trace_fits_def lit_def plain_word_def newline_def blank_def)

lemma op_encodes: "op_fits n r \<Longrightarrow> encodes n (pad n (op_line r)) r"
proof (cases r)
  case (Get k)
  assume f: "op_fits n r"
  then have "pad n (op_line r) = key_request (lit ''GET '') k (replicate (n - length (op_line r) - 1) 0)"
    using Get by (subst pad_split) (simp_all add: key_request_def)
  moreover have "length (pad n (op_line r)) = n" using f Get by (auto simp: pad_def)
  ultimately show ?thesis using f Get by auto
next
  case (Set k v)
  assume f: "op_fits n r"
  then have "pad n (op_line r) = kv_request (lit ''SET '') k v (replicate (n - length (op_line r) - 1) 0)"
    using Set by (subst pad_split) (simp_all add: kv_request_def)
  moreover have "length (pad n (op_line r)) = n" using f Set by (auto simp: pad_def)
  ultimately show ?thesis using f Set by auto
qed

lemma strncpy_pad: "0 \<notin> set l \<Longrightarrow> length l \<le> n \<Longrightarrow> strncpy n (pad n l) = pad n l"
proof -
  assume l: "0 \<notin> set l" "length l \<le> n"
  have "takeWhile (\<lambda>c. c \<noteq> 0) (l @ replicate m 0) = l" for m
    using l(1) by (induction l) auto
  with l(2) show ?thesis by (simp add: strncpy_def pad_def Let_def)
qed

text \<open>
  The store at the other end of the connection: every message is handled by the request handlers
  of the enclave, with the nonces \<open>rnd\<close> one after the other.
\<close>

definition store_peer :: "env \<Rightarrow> (nat \<Rightarrow> bytes) \<Rightarrow> (enclave \<times> nat) connection" where
  "store_peer E rnd st msg =
     (case process_request E (rnd (snd st)) (fst st) msg of
        Inr (Reply c, s') \<Rightarrow> ((s', snd st + 1), Some c)
      | _ \<Rightarrow> (st, None))"

definition store_serves :: "env \<Rightarrow> nat \<Rightarrow> enclave \<Rightarrow> bool" where
  "store_serves E n s \<longleftrightarrow> ndebug E \<and> store_inv E s \<and> \<not> mac_opt (arg s) \<and> max_buf_size (arg s) = int n \<and>
     values_fit n (store_map E s)"

fun answers_of :: "nat \<Rightarrow> (bytes \<rightharpoonup> bytes) \<Rightarrow> req list \<Rightarrow> bytes list" where
  "answers_of n m [] = []"
| "answers_of n m (r # rs) = answer n (pad n (op_line r)) m r # answers_of n (apply_req r m) rs"

lemma request_served:
  assumes "store_serves E n s" "encodes n b r" "length rand = NAC_SIZE"
  obtains s' where "process_request E rand s b = Inr (Reply (answer n b (store_map E s) r), s')"
    "store_serves E n s'" "store_map E s' = apply_req r (store_map E s)"
proof -
  have s: "ndebug E" "store_inv E s" "\<not> mac_opt (arg s)" "max_buf_size (arg s) = int n" "values_fit n (store_map E s)"
    using assms(1) by (simp_all add: store_serves_def)
  have n: "n < 2 ^ 30" using store_inv_config [OF s(2)] s(4) by (simp add: config_ok_def)
  obtain s' where p: "process_request E rand s b = Inr (Reply (answer n b (store_map E s) r), s')" "performed E n r s s'"
  proof (cases r)
    case (Get k)
    with get_performed [OF s(2,4) n s(5), of b k rand] assms(2) that show thesis by metis
  next
    case (Set k v)
    with set_performed [OF s(2,4) n s(5) _ assms(3) s(1,3), of b k v] assms(2) that show thesis by metis
  qed
  with s that show thesis by (auto simp: store_serves_def performed_def)
qed

lemma client_rounds_map:
  assumes "store_serves E n s" "\<forall>r \<in> set rs. op_fits n r" "\<And>i. length (rnd i) = NAC_SIZE"
  shows "\<exists>s' i'. client_rounds n (length rs) (store_peer E rnd) (map (\<lambda>r. pad n (op_line r)) rs)
      \<lparr>peer = (s, i), answers = as, c_out = msgs\<rparr> =
      \<lparr>peer = (s', i'), answers = as @ answers_of n (store_map E s) rs, c_out = msgs\<rparr> \<and>
    store_serves E n s' \<and> store_map E s' = fold apply_req rs (store_map E s)"
  using assms(1,2)
proof (induction rs arbitrary: s i as)
  case (Cons r rs)
  let ?b = "pad n (op_line r)"
  have f: "op_fits n r" using Cons.prems(2) by simp
  have t: "trace_fits n (op_line r)" by (rule op_trace_fits [OF f])
  obtain s1 where s1: "process_request E (rnd i) s ?b = Inr (Reply (answer n ?b (store_map E s) r), s1)"
    "store_serves E n s1" "store_map E s1 = apply_req r (store_map E s)"
    using request_served [OF Cons.prems(1) op_encodes [OF f] assms(3)] .
  have len: "length (answer n ?b (store_map E s) r) = n"
    using length_answer [OF op_encodes [OF f]] Cons.prems(1) by (simp add: store_serves_def)
  have cp: "strncpy n ?b = ?b" using t by (intro strncpy_pad) (simp_all add: trace_fits_def)
  have full: "pad n (take n x) = x" if "length x = n" for x using that by (simp add: pad_def)
  have "exchange n (store_peer E rnd) (strncpy n ?b) \<lparr>peer = (s, i), answers = as, c_out = msgs\<rparr> =
      \<lparr>peer = (s1, i + 1), answers = as @ [answer n ?b (store_map E s) r], c_out = msgs\<rparr>"
    unfolding cp using s1(1) full [OF len] by (simp add: exchange_def store_peer_def)
  then show ?case
    using Cons.IH [OF s1(2), of "i + 1" "as @ [answer n ?b (store_map E s) r]"] Cons.prems(2) s1(3)
    by (simp add: client_rounds_def)
qed (simp add: client_rounds_def)

section \<open>What the clients do\<close>

lemma to_memory_loop:
  assumes "files name = Some f" "c_max_buf_size a = int n" "0 < n" "c_num_threads a = int t" "0 < t"
    "c_inst_size a = int m"
  shows "client_file_to_memory files name a =
    trace_loop n (int (m div t)) m (int (length ([] :: bytes list))) (tid_at (m div t) (length ([] :: bytes list))) f
      (split_lines (m div t) t (map (pad n) []))"
proof -
  have "split_lines (m div t) t ([] :: bytes list) = replicate t []"
    by (simp add: split_lines_def map_replicate_const)
  moreover have "c_div (int m) (int t) = int (m div t)" using assms(5) by (simp add: c_div_pos zdiv_int)
  ultimately show ?thesis
    using assms by (simp add: client_file_to_memory_def tid_at_def)
qed

lemma file_divided:
  assumes "files name = Some (trace_file ls)" "\<forall>l \<in> set ls. trace_fits n l" "c_max_buf_size a = int n" "0 < n"
    "c_num_threads a = int t" "0 < t" "t dvd length ls" "c_inst_size a = int (length ls)"
  shows "client_file_to_memory files name a = Inr (split_lines (length ls div t) t (map (pad n) ls))"
proof (cases "ls = []")
  case True
  then show ?thesis
    using to_memory_loop [where files = files and name = name, OF assms(1,3-6,8)] by (simp add: split_lines_def)
next
  case False
  let ?per = "length ls div t"
  have m: "t * ?per = length ls" using assms(7) by simp
  then have "0 < ?per" using False by (metis length_0_conv mult_0_right not_gr_zero)
  from trace_loop_lines [OF this assms(2), of "[]" t 0 "[]"] m show ?thesis
    unfolding to_memory_loop [where files = files and name = name, OF assms(1,3-6,8)] by simp
qed

text \<open>
  C18. The clients end to end. Let the trace file have one line for each of some GET and SET
  operations that fit the buffer, as many as the configured number of operations, which the number
  of threads divides. Then the trace is read, and a thread that talks to the request handlers of a
  well-formed store gets back the answers of a map for its share of the operations, in order, and
  leaves the store with exactly these operations performed.
\<close>

theorem client_session:
  assumes "files ''traces/trace_run.txt'' = Some (trace_file (map op_line rs))" "\<forall>r \<in> set rs. op_fits n r"
    "c_max_buf_size a = int n" "0 < n" "c_num_threads a = int t" "0 < t" "t dvd length rs"
    "c_inst_size a = int (length rs)" "i < t" "store_serves E n s" "\<And>j. length (rnd j) = NAC_SIZE"
  shows "\<exists>inst c. run_file_to_memory files a = Inr inst \<and>
    client_rounds n (length rs div t) (store_peer E rnd) (inst ! i) \<lparr>peer = (s, 0), answers = [], c_out = []\<rparr> = c \<and>
    answers c = answers_of n (store_map E s) (split_lines (length rs div t) t rs ! i) \<and>
    store_map E (fst (peer c)) = fold apply_req (split_lines (length rs div t) t rs ! i) (store_map E s) \<and>
    store_serves E n (fst (peer c))"
proof -
  let ?per = "length rs div t"
  let ?mine = "split_lines ?per t rs ! i"
  have fits: "\<forall>l \<in> set (map op_line rs). trace_fits n l" using assms(2) op_trace_fits by auto
  have len: "t dvd length (map op_line rs)" "c_inst_size a = int (length (map op_line rs))" using assms(7,8) by simp_all
  have inst: "run_file_to_memory files a = Inr (split_lines ?per t (map (pad n) (map op_line rs)))"
    using file_divided [where files = files and name = "''traces/trace_run.txt''", OF assms(1) fits assms(3-6) len] by (simp add: run_file_to_memory_def)
  have mine: "split_lines ?per t (map (pad n) (map op_line rs)) ! i = map (\<lambda>r. pad n (op_line r)) ?mine"
    using assms(9) by (simp add: split_lines_def take_map drop_map)
  have sub: "\<forall>r \<in> set ?mine. op_fits n r"
    using assms(2,9) by (auto simp: split_lines_def dest: in_set_takeD in_set_dropD)
  have "Suc i * ?per \<le> t * ?per" using assms(9) by (intro mult_le_mono1) simp
  also have "t * ?per = length rs" using assms(7) by simp
  finally have "length ?mine = ?per" using assms(9) by (simp add: split_lines_def)
  with client_rounds_map [where rnd = rnd and i = 0 and as = "[]" and msgs = "[]", OF assms(10) sub assms(11)] inst mine show ?thesis by auto
qed

definition sample_ops :: "req list" where
  "sample_ops = [Set sample_key (lit ''xy''), Get sample_key, Set (lit ''c'') (lit ''d''), Get (lit ''e'')]"

definition sample_client :: client_arg where
  "sample_client = client_configuration_init\<lparr>c_num_threads := 2, c_inst_size := 4, c_max_buf_size := 16\<rparr>"

lemma sample_ops_fit: "\<forall>r \<in> set sample_ops. op_fits 16 r"
proof -
  have "list_all (op_fits 16) sample_ops" by code_simp
  then show ?thesis by (simp add: list_all_iff)
qed

lemma sample_store_serves: "store_serves sample_env 16 sample_store"
  using sample_store_inv sample_env_ok(2)
  by (simp add: store_serves_def values_fit_def) (simp add: sample_store_def fresh_def sample_arg_def)

theorem client_session_witness:
  "\<exists>inst c. run_file_to_memory (\<lambda>_. Some (trace_file (map op_line sample_ops))) sample_client = Inr inst \<and>
    client_rounds 16 2 (store_peer sample_env (\<lambda>_. sample_nonce)) (inst ! 0)
      \<lparr>peer = (sample_store, 0), answers = [], c_out = []\<rparr> = c \<and>
    answers c = [pad 16 (sample_key @ [0]), pad 16 (lit ''xy'' @ [0])]"
proof -
  have "length sample_ops = 4" "split_lines 2 2 sample_ops ! 0 = [Set sample_key (lit ''xy''), Get sample_key]"
    by (simp_all add: sample_ops_def split_lines_def)
  with client_session [where files = "\<lambda>_. Some (trace_file (map op_line sample_ops))" and a = sample_client and t = 2 and i = 0
      and rnd = "\<lambda>_. sample_nonce", OF refl sample_ops_fit, OF _ _ _ _ _ _ _ sample_store_serves length_sample_nonce]
  show ?thesis by (auto simp: sample_client_def sample_store_inv)
qed

text \<open>
  C34. A number of operations that the number of threads does not divide. The lines that are left
  over are counted for a thread that does not exist: the client writes beyond the end of its
  arrays.
\<close>

theorem trace_remainder:
  assumes "files name = Some (trace_file ls)" "\<forall>l \<in> set ls. trace_fits n l" "c_max_buf_size a = int n" "0 < n"
    "c_num_threads a = int t" "0 < t" "t \<le> length ls" "\<not> t dvd length ls" "c_inst_size a = int (length ls)"
  shows "client_file_to_memory files name a = Inl OutOfBounds"
proof -
  let ?per = "length ls div t"
  have per: "0 < ?per" using assms(6,7) by (simp add: div_greater_zero_iff)
  have less: "t * ?per < length ls"
    using assms(8) by (metis dvd_triv_left le_neq_implies_less times_div_less_eq_dividend)
  define xs ys where "xs = take (t * ?per) ls" and "ys = drop (Suc (t * ?per)) ls"
  define l where "l = ls ! (t * ?per)"
  have ls: "ls = xs @ l # ys" and len: "length xs = t * ?per" using less
    by (simp_all add: xs_def ys_def l_def id_take_nth_drop [OF less, symmetric])
  have fit: "\<forall>l \<in> set xs. trace_fits n l" "trace_fits n l" using assms(2) by (simp_all add: ls)
  have f: "trace_file ls = trace_file xs @ l @ newline # trace_file ys" by (simp add: ls trace_file_def)
  have k: "length ls = length xs + Suc (length ys)" by (simp add: ls)
  have "client_file_to_memory files name a =
      trace_loop n (int ?per) (Suc (length ys)) (int (length xs)) (tid_at ?per (length xs)) (l @ newline # trace_file ys)
        (split_lines ?per t (map (pad n) xs))"
    using to_memory_loop [where files = files and name = name, OF assms(1,3-6,9)]
      trace_loop_lines [OF per fit(1), of "[]" t "Suc (length ys)" "l @ newline # trace_file ys"] len
    unfolding f k by simp
  also have "\<dots> = Inl OutOfBounds"
    unfolding trace_loop_step [OF per fit(2)] using len per by (simp add: split_lines_def)
  finally show ?thesis .
qed

theorem trace_remainder_witness:
  "run_file_to_memory (\<lambda>_. Some (trace_file (map op_line sample_ops))) (sample_client\<lparr>c_num_threads := 3\<rparr>) =
     Inl OutOfBounds"
proof -
  have "\<forall>l \<in> set (map op_line sample_ops). trace_fits 16 l" using sample_ops_fit op_trace_fits by auto
  moreover have "length (map op_line sample_ops) = 4" "\<not> (3 :: nat) dvd 4" by (simp_all add: sample_ops_def)
  ultimately show ?thesis
    using trace_remainder [where files = "\<lambda>_. Some (trace_file (map op_line sample_ops))" and t = 3 and n = 16
        and name = "''traces/trace_run.txt''" and a = "sample_client\<lparr>c_num_threads := 3\<rparr>", OF refl]
    by (simp add: run_file_to_memory_def sample_client_def)
qed

text \<open>
  C35. The address option. The address is copied without its NUL over the default \<open>127.0.0.1\<close>, so the
  string that \<open>inet_addr\<close> is given is the address exactly when it has nine to eleven characters: a
  shorter address keeps the rest of the default, one of twelve characters has no NUL in its array,
  and a longer one is written beyond the array.
\<close>

theorem client_address:
  assumes "0 \<notin> set (lit ip)"
  shows "bindE (client_option debug (CHR ''i'', ip) (client_configuration_init, msgs)) (\<lambda>(a, _). c_str (c_ipaddr a)) =
    (if length ip < 9 then Inr (lit ip @ drop (length ip) (lit ''127.0.0.1''))
     else if length ip < MAX_IP_ADDR then Inr (lit ip) else Inl OutOfBounds)"
proof -
  let ?d = "lit ''127.0.0.1''" and ?ip = "lit ip @ drop (length ip) (lit ''127.0.0.1'' @ [0, 0, 0])"
  have d: "0 \<notin> set ?d" "length ?d = 9" by (simp_all add: lit_def)
  have opt: "client_option debug (CHR ''i'', ip) (client_configuration_init, msgs) =
    (if length ip \<le> 12 then Inr (client_configuration_init\<lparr>c_ipaddr := ?ip\<rparr>, msgs) else Inl OutOfBounds)"
    by (simp add: client_option_def client_configuration_init_def memcpy_at_def)
  consider "length ip < 9" | "9 \<le> length ip" "length ip < 12" | "length ip = 12" | "12 < length ip" by linarith
  then show ?thesis
  proof cases
    case 1
    have "0 \<notin> set (lit ip @ drop (length ip) ?d)" using assms d(1) by (auto dest: in_set_dropD)
    from c_str_terminated [OF this, of "[0, 0]"] 1 d(2) show ?thesis by (simp add: opt)
  next
    case 2
    then consider "length ip = 9" | "length ip = 10" | "length ip = 11" by linarith
    then have "\<exists>z. ?ip = lit ip @ 0 # z" using d(2) by cases auto
    with c_str_terminated [OF assms] 2 show ?thesis by (auto simp: opt MAX_IP_ADDR_def)
  next
    case 3
    then show ?thesis using assms d(2) by (simp add: opt MAX_IP_ADDR_def c_str_def)
  qed (simp add: opt MAX_IP_ADDR_def)
qed

theorem client_address_witness:
  "bindE (client_option True (CHR ''i'', ''10.0.0.1'') (client_configuration_init, [])) (\<lambda>(a, _). c_str (c_ipaddr a)) =
     Inr (lit ''10.0.0.11'')"
proof -
  have "0 \<notin> set (lit ''10.0.0.1'')" by code_simp
  from client_address [OF this] show ?thesis by (simp add: lit_def)
qed

end
