(* ===== verification/Page_Map.thy ===== *)
theory Page_Map
  imports Prelude
begin

text \<open>
  The page maps of the allocator (\<open>gperftools-2.5/src/pagemap.h\<close>): maps from page numbers to pointers
  as a flat array, a two-level and a three-level radix tree. \<open>B\<close> is the template parameter \<open>BITS\<close>;
  \<open>alloc i\<close> tells whether the \<open>i\<close>-th call of the allocator succeeds. A page number is a \<open>nat\<close> below
  \<open>2 ^ 64\<close>; the places where the unsigned arithmetic of the code can wrap around are written out.
\<close>

named_theorems pm_defs \<open>definitions of the page maps\<close>

definition array_read :: "'a list \<Rightarrow> nat \<Rightarrow> 'a res" where
  "array_read xs i = (if i < length xs then Inr (xs ! i) else Inl OutOfBounds)"

definition array_write :: "'a list \<Rightarrow> nat \<Rightarrow> 'a \<Rightarrow> 'a list res" where
  "array_write xs i x = (if i < length xs then Inr (xs[i := x]) else Inl OutOfBounds)"

definition nonnull :: "'a option \<Rightarrow> 'a res" where
  "nonnull p = (case p of None \<Rightarrow> Inl NullDeref | Some x \<Rightarrow> Inr x)"

lemma array_simps [simp]:
  "i < length xs \<Longrightarrow> array_read xs i = Inr (xs ! i)"
  "i < length xs \<Longrightarrow> array_write xs i x = Inr (xs[i := x])"
  by (simp_all add: array_read_def array_write_def)

lemma nonnull_simps [simp]: "nonnull (Some x) = Inr x" "nonnull None = Inl NullDeref"
  by (simp_all add: nonnull_def)

section \<open>The flat array\<close>

record 'v pagemap1 =
  pm_array :: "'v option list"

definition pm1_new :: "nat \<Rightarrow> (nat \<Rightarrow> bool) \<Rightarrow> 'v pagemap1 res" where
  "pm1_new B alloc = (if alloc 0 then Inr \<lparr>pm_array = replicate (2 ^ B) None\<rparr> else Inl NullDeref)"

text \<open>\<open>LENGTH - x\<close> is computed in 64 bits, without a sign.\<close>

definition pm1_Ensure :: "nat \<Rightarrow> 'v pagemap1 \<Rightarrow> nat \<Rightarrow> nat \<Rightarrow> bool" where
  "pm1_Ensure B m x n \<longleftrightarrow> int n \<le> (2 ^ B - int x) mod 2 ^ 64"

definition pm1_get :: "nat \<Rightarrow> 'v pagemap1 \<Rightarrow> nat \<Rightarrow> 'v option res" where
  "pm1_get B m k = (if k div 2 ^ B > 0 then Inr None else array_read (pm_array m) k)"

definition pm1_set :: "nat \<Rightarrow> 'v pagemap1 \<Rightarrow> nat \<Rightarrow> 'v option \<Rightarrow> 'v pagemap1 res" where
  "pm1_set B m k v = bindE (array_write (pm_array m) k v) (\<lambda>a. Inr (m\<lparr>pm_array := a\<rparr>))"

function pm1_Next :: "nat \<Rightarrow> 'v pagemap1 \<Rightarrow> nat \<Rightarrow> 'v option res" where
  "pm1_Next B m k =
     (if k < 2 ^ B
      then bindE (array_read (pm_array m) k) (\<lambda>v. if v \<noteq> None then Inr v else pm1_Next B m (k + 1))
      else Inr None)"
  by auto
termination by (relation "measure (\<lambda>(B, m, k). 2 ^ B - k)") auto

section \<open>The two-level tree\<close>

definition ROOT_BITS :: nat where
  "ROOT_BITS = 5"

definition LEAF2_BITS :: "nat \<Rightarrow> nat" where
  "LEAF2_BITS B = B - ROOT_BITS"

record 'v pagemap2 =
  root2 :: "'v option list option list"
  calls2 :: nat

definition pm2_new :: "'v pagemap2" where
  "pm2_new = \<lparr>root2 = replicate (2 ^ ROOT_BITS) None, calls2 = 0\<rparr>"

definition pm2_get :: "nat \<Rightarrow> 'v pagemap2 \<Rightarrow> nat \<Rightarrow> 'v option res" where
  "pm2_get B m k =
     (let i1 = k div 2 ^ LEAF2_BITS B; i2 = k mod 2 ^ LEAF2_BITS B in
      if k div 2 ^ B > 0 then Inr None
      else bindE (array_read (root2 m) i1) (\<lambda>leaf.
        case leaf of None \<Rightarrow> Inr None | Some vs \<Rightarrow> array_read vs i2))"

definition pm2_set :: "nat \<Rightarrow> 'v pagemap2 \<Rightarrow> nat \<Rightarrow> 'v option \<Rightarrow> 'v pagemap2 res" where
  "pm2_set B m k v =
     (let i1 = k div 2 ^ LEAF2_BITS B; i2 = k mod 2 ^ LEAF2_BITS B in
      bindE (requireE (i1 < 2 ^ ROOT_BITS) AssertFail) (\<lambda>_.
      bindE (array_read (root2 m) i1) (\<lambda>leaf.
      bindE (nonnull leaf) (\<lambda>vs.
      bindE (array_write vs i2 v) (\<lambda>vs'. Inr (m\<lparr>root2 := (root2 m)[i1 := Some vs']\<rparr>))))))"

text \<open>One round of \<open>Ensure\<close> for the leaf \<open>i1\<close>.\<close>

definition pm2_leaf :: "nat \<Rightarrow> (nat \<Rightarrow> bool) \<Rightarrow> nat \<Rightarrow> 'v pagemap2 \<Rightarrow> bool \<times> 'v pagemap2" where
  "pm2_leaf B alloc i1 m =
     (if root2 m ! i1 \<noteq> None then (True, m)
      else if \<not> alloc (calls2 m) then (False, m\<lparr>calls2 := Suc (calls2 m)\<rparr>)
      else (True, m\<lparr>root2 := (root2 m)[i1 := Some (replicate (2 ^ LEAF2_BITS B) None)],
                    calls2 := Suc (calls2 m)\<rparr>))"

function pm2_loop :: "nat \<Rightarrow> (nat \<Rightarrow> bool) \<Rightarrow> int \<Rightarrow> nat \<Rightarrow> 'v pagemap2 \<Rightarrow> bool \<times> 'v pagemap2" where
  "pm2_loop B alloc hi key m =
     (if int key \<le> hi then
        let i1 = key div 2 ^ LEAF2_BITS B in
        if i1 \<ge> 2 ^ ROOT_BITS then (False, m)
        else case pm2_leaf B alloc i1 m of
          (False, m1) \<Rightarrow> (False, m1)
        | (True, m1) \<Rightarrow> pm2_loop B alloc hi ((key div 2 ^ LEAF2_BITS B + 1) * 2 ^ LEAF2_BITS B) m1
      else (True, m))"
  by auto
termination
  by (relation "measure (\<lambda>(B, alloc, hi, key, m). 2 ^ ROOT_BITS - key div 2 ^ LEAF2_BITS B)") auto

definition pm2_Ensure :: "nat \<Rightarrow> (nat \<Rightarrow> bool) \<Rightarrow> 'v pagemap2 \<Rightarrow> nat \<Rightarrow> nat \<Rightarrow> bool \<times> 'v pagemap2" where
  "pm2_Ensure B alloc m start n = pm2_loop B alloc ((int start + int n - 1) mod 2 ^ 64) start m"

definition pm2_PreallocateMoreMemory :: "nat \<Rightarrow> (nat \<Rightarrow> bool) \<Rightarrow> 'v pagemap2 \<Rightarrow> 'v pagemap2" where
  "pm2_PreallocateMoreMemory B alloc m = snd (pm2_Ensure B alloc m 0 (2 ^ B))"

text \<open>The scan forward in a leaf: the first pointer from index \<open>i\<close> on that is not NULL.\<close>

definition scan_leaf :: "'v option list \<Rightarrow> nat \<Rightarrow> 'v option" where
  "scan_leaf vs i = (case dropWhile (\<lambda>v. v = None) (drop i vs) of [] \<Rightarrow> None | v # _ \<Rightarrow> v)"

function pm2_Next :: "nat \<Rightarrow> 'v pagemap2 \<Rightarrow> nat \<Rightarrow> 'v option res" where
  "pm2_Next B m k =
     (if k < 2 ^ B
      then let i1 = k div 2 ^ LEAF2_BITS B in
        bindE (array_read (root2 m) i1) (\<lambda>leaf.
          case (case leaf of None \<Rightarrow> None | Some vs \<Rightarrow> scan_leaf vs (k mod 2 ^ LEAF2_BITS B)) of
            Some v \<Rightarrow> Inr (Some v)
          | None \<Rightarrow> pm2_Next B m ((i1 + 1) * 2 ^ LEAF2_BITS B))
      else Inr None)"
  by auto
termination
proof (relation "measure (\<lambda>(B, m, k). 2 ^ B - k)", goal_cases)
  case (2 B m k i1)
  have "k < (k div 2 ^ LEAF2_BITS B + 1) * 2 ^ LEAF2_BITS B"
    using dividend_less_div_times [of "2 ^ LEAF2_BITS B" k] by simp
  with 2 show ?case by simp
qed simp

section \<open>The three-level tree\<close>

definition INTERIOR_BITS :: "nat \<Rightarrow> nat" where
  "INTERIOR_BITS B = (B + 2) div 3"

definition LEAF_BITS :: "nat \<Rightarrow> nat" where
  "LEAF_BITS B = B - 2 * INTERIOR_BITS B"

type_synonym 'v pm_node = "'v option list option list"

record 'v pagemap3 =
  root3 :: "'v pm_node option list option"
  calls :: nat

definition pm3_i1 :: "nat \<Rightarrow> nat \<Rightarrow> nat" where
  "pm3_i1 B k = k div 2 ^ (LEAF_BITS B + INTERIOR_BITS B)"

definition pm3_i2 :: "nat \<Rightarrow> nat \<Rightarrow> nat" where
  "pm3_i2 B k = k div 2 ^ LEAF_BITS B mod 2 ^ INTERIOR_BITS B"

definition pm3_i3 :: "nat \<Rightarrow> nat \<Rightarrow> nat" where
  "pm3_i3 B k = k mod 2 ^ LEAF_BITS B"

definition pm3_new :: "nat \<Rightarrow> (nat \<Rightarrow> bool) \<Rightarrow> 'v pagemap3" where
  "pm3_new B alloc =
     \<lparr>root3 = if alloc 0 then Some (replicate (2 ^ INTERIOR_BITS B) None) else None, calls = 1\<rparr>"

definition pm3_get :: "nat \<Rightarrow> 'v pagemap3 \<Rightarrow> nat \<Rightarrow> 'v option res" where
  "pm3_get B m k =
     (if k div 2 ^ B > 0 then Inr None
      else bindE (nonnull (root3 m)) (\<lambda>r.
        bindE (array_read r (pm3_i1 B k)) (\<lambda>node.
        case node of
          None \<Rightarrow> Inr None
        | Some nd \<Rightarrow>
            bindE (array_read nd (pm3_i2 B k)) (\<lambda>leaf.
            case leaf of None \<Rightarrow> Inr None | Some vs \<Rightarrow> array_read vs (pm3_i3 B k)))))"

definition pm3_set :: "nat \<Rightarrow> 'v pagemap3 \<Rightarrow> nat \<Rightarrow> 'v option \<Rightarrow> 'v pagemap3 res" where
  "pm3_set B m k v =
     bindE (requireE (k div 2 ^ B = 0) AssertFail) (\<lambda>_.
     bindE (nonnull (root3 m)) (\<lambda>r.
     bindE (array_read r (pm3_i1 B k)) (\<lambda>node.
     bindE (nonnull node) (\<lambda>nd.
     bindE (array_read nd (pm3_i2 B k)) (\<lambda>leaf.
     bindE (nonnull leaf) (\<lambda>vs.
     bindE (array_write vs (pm3_i3 B k) v) (\<lambda>vs'.
       Inr (m\<lparr>root3 := Some (r[pm3_i1 B k := Some (nd[pm3_i2 B k := Some vs'])])\<rparr>))))))))"

text \<open>
  One round of \<open>Ensure\<close>: the second-level node and then the leaf are made if they are missing. A
  node stays when the leaf cannot be allocated.
\<close>

definition pm3_node :: "nat \<Rightarrow> (nat \<Rightarrow> bool) \<Rightarrow> nat \<Rightarrow> 'v pm_node option list \<Rightarrow> 'v pagemap3 \<Rightarrow> bool \<times> 'v pagemap3" where
  "pm3_node B alloc i1 r m =
     (if r ! i1 \<noteq> None then (True, m)
      else if \<not> alloc (calls m) then (False, m\<lparr>calls := Suc (calls m)\<rparr>)
      else (True, m\<lparr>root3 := Some (r[i1 := Some (replicate (2 ^ INTERIOR_BITS B) None)]), calls := Suc (calls m)\<rparr>))"

definition pm3_leaf :: "nat \<Rightarrow> (nat \<Rightarrow> bool) \<Rightarrow> nat \<Rightarrow> nat \<Rightarrow> 'v pm_node option list \<Rightarrow> 'v pagemap3 \<Rightarrow> (bool \<times> 'v pagemap3) res" where
  "pm3_leaf B alloc i1 i2 r m =
     bindE (nonnull (r ! i1)) (\<lambda>nd.
       Inr (if nd ! i2 \<noteq> None then (True, m)
          else if \<not> alloc (calls m) then (False, m\<lparr>calls := Suc (calls m)\<rparr>)
          else (True, m\<lparr>root3 := Some (r[i1 := Some (nd[i2 := Some (replicate (2 ^ LEAF_BITS B) None)])]),
                        calls := Suc (calls m)\<rparr>)))"

definition pm3_round :: "nat \<Rightarrow> (nat \<Rightarrow> bool) \<Rightarrow> nat \<Rightarrow> nat \<Rightarrow> 'v pagemap3 \<Rightarrow> (bool \<times> 'v pagemap3) res" where
  "pm3_round B alloc i1 i2 m =
     bindE (nonnull (root3 m)) (\<lambda>r.
       case pm3_node B alloc i1 r m of
         (False, m1) \<Rightarrow> Inr (False, m1)
       | (True, m1) \<Rightarrow> bindE (nonnull (root3 m1)) (\<lambda>r1. pm3_leaf B alloc i1 i2 r1 m1))"

function pm3_loop :: "nat \<Rightarrow> (nat \<Rightarrow> bool) \<Rightarrow> int \<Rightarrow> nat \<Rightarrow> 'v pagemap3 \<Rightarrow> (bool \<times> 'v pagemap3) res" where
  "pm3_loop B alloc hi key m =
     (if int key \<le> hi then
        if pm3_i1 B key \<ge> 2 ^ INTERIOR_BITS B \<or> pm3_i2 B key \<ge> 2 ^ INTERIOR_BITS B then Inr (False, m)
        else bindE (pm3_round B alloc (pm3_i1 B key) (pm3_i2 B key) m) (\<lambda>(ok, m1).
          if \<not> ok then Inr (False, m1)
          else pm3_loop B alloc hi ((key div 2 ^ LEAF_BITS B + 1) * 2 ^ LEAF_BITS B) m1)
      else Inr (True, m))"
  by auto
termination
proof (relation "measure (\<lambda>(B, alloc, hi, key, m). 2 ^ INTERIOR_BITS B * 2 ^ (LEAF_BITS B + INTERIOR_BITS B) - key)", goal_cases)
  case (2 B alloc hi key m)
  have "key < (key div 2 ^ LEAF_BITS B + 1) * 2 ^ LEAF_BITS B"
    using dividend_less_div_times [of "2 ^ LEAF_BITS B" key] by simp
  moreover have "key < 2 ^ INTERIOR_BITS B * 2 ^ (LEAF_BITS B + INTERIOR_BITS B)"
    using 2(2) by (simp add: pm3_i1_def div_less_iff_less_mult not_le)
  ultimately show ?case by simp
qed simp

definition pm3_Ensure :: "nat \<Rightarrow> (nat \<Rightarrow> bool) \<Rightarrow> 'v pagemap3 \<Rightarrow> nat \<Rightarrow> nat \<Rightarrow> (bool \<times> 'v pagemap3) res" where
  "pm3_Ensure B alloc m start n = pm3_loop B alloc ((int start + int n - 1) mod 2 ^ 64) start m"

function pm3_Next :: "nat \<Rightarrow> 'v pagemap3 \<Rightarrow> nat \<Rightarrow> 'v option res" where
  "pm3_Next B m k =
     (if k < 2 ^ B
      then bindE (nonnull (root3 m)) (\<lambda>r.
        bindE (array_read r (pm3_i1 B k)) (\<lambda>node.
        case node of
          None \<Rightarrow> pm3_Next B m ((pm3_i1 B k + 1) * 2 ^ (LEAF_BITS B + INTERIOR_BITS B))
        | Some nd \<Rightarrow>
            bindE (array_read nd (pm3_i2 B k)) (\<lambda>leaf.
            case (case leaf of None \<Rightarrow> None | Some vs \<Rightarrow> scan_leaf vs (pm3_i3 B k)) of
              Some v \<Rightarrow> Inr (Some v)
            | None \<Rightarrow> pm3_Next B m ((k div 2 ^ LEAF_BITS B + 1) * 2 ^ LEAF_BITS B))))
      else Inr None)"
  by auto
termination
proof (relation "measure (\<lambda>(B, m, k). 2 ^ B - k)", goal_cases)
  case (2 B m k)
  have "k < (pm3_i1 B k + 1) * 2 ^ (LEAF_BITS B + INTERIOR_BITS B)"
    using dividend_less_div_times [of "2 ^ (LEAF_BITS B + INTERIOR_BITS B)" k] by (simp add: pm3_i1_def)
  with 2 show ?case by simp
next
  case (3 B m k)
  have "k < (k div 2 ^ LEAF_BITS B + 1) * 2 ^ LEAF_BITS B"
    using dividend_less_div_times [of "2 ^ LEAF_BITS B" k] by simp
  with 3 show ?case by simp
qed simp

declare pm1_Next.simps [simp del] pm2_loop.simps [simp del] pm2_Next.simps [simp del]
  pm3_loop.simps [simp del] pm3_Next.simps [simp del]

lemmas [pm_defs] = pm1_get_def pm1_set_def pm2_get_def pm2_set_def pm3_get_def pm3_set_def

end
