(* ===== verification/Page_Map_Correct.thy ===== *)
theory Page_Map_Correct
  imports Page_Map
begin

text \<open>
  What the page maps promise: they are maps from the page numbers below \<open>2 ^ BITS\<close> to pointers, a
  number can be set once \<open>Ensure\<close> has covered it, and \<open>Next\<close> finds the first pointer from a number
  on. The contract is the locale \<open>page_map\<close>; the three representations are instances of it.
\<close>

section \<open>The contract\<close>

definition first_from :: "(nat \<Rightarrow> 'v option) \<Rightarrow> nat \<Rightarrow> nat \<Rightarrow> 'v option" where
  "first_from c n k = (case filter (\<lambda>j. c j \<noteq> None) [k..<n] of [] \<Rightarrow> None | j # _ \<Rightarrow> c j)"

text \<open>The same pointer for each of some pages, as \<open>RegisterSizeClass\<close> writes it.\<close>

fun set_each :: "('m \<Rightarrow> nat \<Rightarrow> 'v option \<Rightarrow> 'm res) \<Rightarrow> nat list \<Rightarrow> 'v option \<Rightarrow> 'm \<Rightarrow> 'm res" where
  "set_each put [] v m = Inr m"
| "set_each put (k # ks) v m = bindE (put m k v) (set_each put ks v)"

locale page_map =
  fixes bits :: nat
    and ok :: "'m \<Rightarrow> bool"
    and covers :: "'m \<Rightarrow> nat \<Rightarrow> bool"
    and content :: "'m \<Rightarrow> nat \<Rightarrow> 'v option"
    and get :: "'m \<Rightarrow> nat \<Rightarrow> 'v option res"
    and put :: "'m \<Rightarrow> nat \<Rightarrow> 'v option \<Rightarrow> 'm res"
    and ensure :: "'m \<Rightarrow> nat \<Rightarrow> nat \<Rightarrow> (bool \<times> 'm) res"
    and nxt :: "'m \<Rightarrow> nat \<Rightarrow> 'v option res"
  assumes get_content: "ok m \<Longrightarrow> get m k = Inr (content m k)"
    and covers_less: "ok m \<Longrightarrow> covers m k \<Longrightarrow> k < 2 ^ bits"
    and uncovered: "ok m \<Longrightarrow> \<not> covers m k \<Longrightarrow> content m k = None"
    and put_covered: "ok m \<Longrightarrow> covers m k \<Longrightarrow>
      \<exists>m'. put m k v = Inr m' \<and> ok m' \<and> covers m' = covers m \<and> content m' = (content m)(k := v)"
    and ensure_covers: "ok m \<Longrightarrow> 0 < n \<Longrightarrow> start \<le> 2 ^ bits \<Longrightarrow> start + n \<le> 2 ^ 64 \<Longrightarrow>
      \<exists>b m'. ensure m start n = Inr (b, m') \<and> ok m' \<and> content m' = content m \<and>
        (\<forall>k. covers m k \<longrightarrow> covers m' k) \<and> (b \<longrightarrow> (\<forall>k. start \<le> k \<and> k < start + n \<longrightarrow> covers m' k))"
    and next_first: "ok m \<Longrightarrow> nxt m k = Inr (first_from (content m) (2 ^ bits) k)"
begin

lemma get_put:
  assumes "ok m" "covers m k"
  shows "bindE (put m k v) (\<lambda>m'. get m' k') = Inr (if k' = k then v else content m k')"
  using put_covered [OF assms, of v] get_content by auto

lemma set_each_covered:
  "ok m \<Longrightarrow> \<forall>k \<in> set ks. covers m k \<Longrightarrow>
   \<exists>m'. set_each put ks v m = Inr m' \<and> ok m' \<and> covers m' = covers m \<and>
     content m' = (\<lambda>k. if k \<in> set ks then v else content m k)"
proof (induction ks arbitrary: m)
  case (Cons k ks)
  then obtain m1 where m1: "put m k v = Inr m1" "ok m1" "covers m1 = covers m" "content m1 = (content m)(k := v)"
    using put_covered [of m k v] by auto
  with Cons show ?case using Cons.IH [OF m1(2)] by (auto simp: fun_eq_iff)
qed simp

lemma get_set_each:
  assumes "ok m" "\<forall>k \<in> set ks. covers m k"
  shows "bindE (set_each put ks v m) (\<lambda>m'. get m' k) = Inr (if k \<in> set ks then v else content m k)"
  using set_each_covered [OF assms, of v] get_content by auto

text \<open>After a successful \<open>Ensure\<close> all pages of the range can be set, and everything else is as before.\<close>

lemma ensured_set_each:
  assumes "ok m" "0 < n" "start \<le> 2 ^ bits" "start + n \<le> 2 ^ 64" "ensure m start n = Inr (True, m1)"
    "\<forall>k \<in> set ks. start \<le> k \<and> k < start + n"
  shows "bindE (set_each put ks v m1) (\<lambda>m'. get m' k) = Inr (if k \<in> set ks then v else content m k)"
proof -
  from ensure_covers [OF assms(1-4)] assms(5)
  have "ok m1" "content m1 = content m" "\<forall>k. start \<le> k \<and> k < start + n \<longrightarrow> covers m1 k" by auto
  with get_set_each [of m1 ks v k] assms(6) show ?thesis by simp
qed

end

section \<open>Searching forward\<close>

lemma upt_split: "i \<le> j \<Longrightarrow> j \<le> k \<Longrightarrow> [i..<k] = [i..<j] @ [j..<k]"
  using upt_add_eq_append [of i j "k - j"] by simp

lemma first_from_skip:
  assumes "\<And>j. k \<le> j \<Longrightarrow> j < k' \<Longrightarrow> c j = None"
  shows "first_from c n k = first_from c n (max k k')"
proof -
  have "filter (\<lambda>j. c j \<noteq> None) [k..<n] = filter (\<lambda>j. c j \<noteq> None) [max k k'..<n]"
  proof (cases "max k k' \<le> n")
    case True
    then have "[k..<n] = [k..<max k k'] @ [max k k'..<n]" by (intro upt_split) simp_all
    moreover have "filter (\<lambda>j. c j \<noteq> None) [k..<max k k'] = []" using assms by (auto simp: filter_empty_conv max_def)
    ultimately show ?thesis by simp
  next
    case False
    then show ?thesis using assms by (auto simp: filter_empty_conv max_def split: if_splits)
  qed
  then show ?thesis by (simp add: first_from_def)
qed

lemma first_from_ge [simp]: "n \<le> k \<Longrightarrow> first_from c n k = None"
  by (simp add: first_from_def)

lemma first_from_here: "k < n \<Longrightarrow> c k \<noteq> None \<Longrightarrow> first_from c n k = c k"
  by (simp add: first_from_def upt_conv_Cons)

lemma first_from_append:
  assumes "k \<le> i" "i \<le> n"
  shows "first_from c n k = (case first_from c i k of None \<Rightarrow> first_from c n i | Some v \<Rightarrow> Some v)"
proof -
  have split: "filter (\<lambda>j. c j \<noteq> None) [k..<n] = filter (\<lambda>j. c j \<noteq> None) [k..<i] @ filter (\<lambda>j. c j \<noteq> None) [i..<n]"
    by (simp add: upt_split [OF assms])
  show ?thesis
  proof (cases "filter (\<lambda>j. c j \<noteq> None) [k..<i]")
    case Nil
    then show ?thesis unfolding first_from_def split by simp
  next
    case (Cons j js)
    then have "j \<in> set (filter (\<lambda>j. c j \<noteq> None) [k..<i])" by simp
    then obtain v where "c j = Some v" by auto
    with Cons show ?thesis unfolding first_from_def split by simp
  qed
qed

lemma first_from_shift:
  assumes "\<And>j. j < n \<Longrightarrow> c (b + j) = d j"
  shows "first_from c (b + n) (b + k) = first_from d n k"
proof -
  have "[b + k..<b + n] = map ((+) b) [k..<n]" by (rule nth_equalityI) simp_all
  moreover have "filter (\<lambda>j. c (b + j) \<noteq> None) [k..<n] = filter (\<lambda>j. d j \<noteq> None) [k..<n]"
    using assms by (intro filter_cong) auto
  moreover have "j < n" if "filter (\<lambda>j. d j \<noteq> None) [k..<n] = j # js" for j js
  proof -
    have "j \<in> set (filter (\<lambda>j. d j \<noteq> None) [k..<n])" unfolding that by simp
    then show ?thesis by simp
  qed
  ultimately show ?thesis
    using assms by (cases "filter (\<lambda>j. d j \<noteq> None) [k..<n]") (simp_all add: first_from_def filter_map comp_def)
qed

lemma scan_leaf_first: "scan_leaf vs i = first_from ((!) vs) (length vs) i"
proof -
  have "drop i vs = map ((!) vs) [i..<length vs]"
    by (rule nth_equalityI) simp_all
  moreover have "(case dropWhile (\<lambda>v. v = None) (map f ks) of [] \<Rightarrow> None | v # _ \<Rightarrow> v) =
      (case filter (\<lambda>j. f j \<noteq> None) ks of [] \<Rightarrow> None | j # _ \<Rightarrow> f j)" for f :: "nat \<Rightarrow> 'a option" and ks
    by (induction ks) auto
  ultimately show ?thesis by (simp add: scan_leaf_def first_from_def)
qed

section \<open>The flat array\<close>

definition pm1_ok :: "nat \<Rightarrow> 'v pagemap1 \<Rightarrow> bool" where
  "pm1_ok B m \<longleftrightarrow> B < 64 \<and> length (pm_array m) = 2 ^ B"

definition pm1_covers :: "nat \<Rightarrow> 'v pagemap1 \<Rightarrow> nat \<Rightarrow> bool" where
  "pm1_covers B m k \<longleftrightarrow> k < 2 ^ B"

definition pm1_map :: "nat \<Rightarrow> 'v pagemap1 \<Rightarrow> nat \<Rightarrow> 'v option" where
  "pm1_map B m k = (if k < 2 ^ B then pm_array m ! k else None)"

lemma pm1_next_first: "pm1_ok B m \<Longrightarrow> pm1_Next B m k = Inr (first_from (pm1_map B m) (2 ^ B) k)"
proof (induction B m k rule: pm1_Next.induct)
  case (1 B m k)
  show ?case
  proof (cases "k < 2 ^ B")
    case True
    then have v: "array_read (pm_array m) k = Inr (pm1_map B m k)" using 1(2) by (simp add: pm1_ok_def pm1_map_def)
    show ?thesis
    proof (cases "pm1_map B m k")
      case None
      with 1(1) [OF True v] 1(2) True v first_from_skip [of k "k + 1" "pm1_map B m" "2 ^ B"]
      show ?thesis by (subst pm1_Next.simps) (auto simp: less_Suc_eq_le)
    next
      case (Some x)
      with True v first_from_here [of k "2 ^ B" "pm1_map B m"] show ?thesis by (subst pm1_Next.simps) simp
    qed
  qed (simp add: pm1_Next.simps)
qed

lemma pm1_ensured:
  assumes "start \<le> 2 ^ B" "pm1_Ensure B m start n" "B < 64"
  shows "start + n \<le> 2 ^ B"
proof -
  have "(2 ^ B - int start) mod 2 ^ 64 = 2 ^ B - int start"
  proof (rule mod_pos_pos_trivial)
    have "int start \<le> int (2 ^ B)" using assms(1) by (simp del: of_nat_power)
    then show "0 \<le> 2 ^ B - int start" by simp
    have "(2 :: int) ^ B < 2 ^ 64" using assms(3) by (intro power_strict_increasing) simp_all
    then show "2 ^ B - int start < 2 ^ 64" by linarith
  qed
  with assms(2) have "int (start + n) \<le> int (2 ^ B)" by (simp add: pm1_Ensure_def)
  then show ?thesis by (simp del: of_nat_power of_nat_add)
qed

lemma pm1_set_covered:
  assumes "pm1_ok B m" "pm1_covers B m k"
  shows "\<exists>m'. pm1_set B m k v = Inr m' \<and> pm1_ok B m' \<and> pm1_covers B m' = pm1_covers B m \<and>
    pm1_map B m' = (pm1_map B m)(k := v)"
  using assms by (simp add: pm1_set_def pm1_ok_def pm1_covers_def pm1_map_def fun_eq_iff)

interpretation flat: page_map B "pm1_ok B" "pm1_covers B" "pm1_map B" "pm1_get B" "pm1_set B"
  "\<lambda>m start n. Inr (pm1_Ensure B m start n, m)" "pm1_Next B" for B
proof (unfold_locales, goal_cases)
  case (1 m k)
  then show ?case by (simp add: pm1_get_def pm1_ok_def pm1_map_def div_eq_0_iff)
next
  case (5 m n start)
  then have "pm1_Ensure B m start n \<Longrightarrow> start + n \<le> 2 ^ B" by (intro pm1_ensured) (simp_all add: pm1_ok_def)
  then have "pm1_Ensure B m start n \<longrightarrow> (\<forall>k. start \<le> k \<and> k < start + n \<longrightarrow> k < 2 ^ B)" using order_less_le_trans by blast
  with 5(1) show ?case by (simp add: pm1_covers_def)
qed (simp_all add: pm1_covers_def pm1_map_def pm1_set_covered pm1_next_first)

section \<open>The two-level tree\<close>

definition pm2_ok :: "nat \<Rightarrow> 'v pagemap2 \<Rightarrow> bool" where
  "pm2_ok B m \<longleftrightarrow> B < 64 \<and> ROOT_BITS \<le> B \<and> length (root2 m) = 2 ^ ROOT_BITS \<and>
     (\<forall>vs. Some vs \<in> set (root2 m) \<longrightarrow> length vs = 2 ^ LEAF2_BITS B)"

definition pm2_covers :: "nat \<Rightarrow> 'v pagemap2 \<Rightarrow> nat \<Rightarrow> bool" where
  "pm2_covers B m k \<longleftrightarrow> k < 2 ^ B \<and> root2 m ! (k div 2 ^ LEAF2_BITS B) \<noteq> None"

definition pm2_map :: "nat \<Rightarrow> 'v pagemap2 \<Rightarrow> nat \<Rightarrow> 'v option" where
  "pm2_map B m k =
     (if k < 2 ^ B then case root2 m ! (k div 2 ^ LEAF2_BITS B) of None \<Rightarrow> None | Some vs \<Rightarrow> vs ! (k mod 2 ^ LEAF2_BITS B)
      else None)"

lemma pm2_root_less: "pm2_ok B m \<Longrightarrow> k div 2 ^ LEAF2_BITS B < 2 ^ ROOT_BITS \<longleftrightarrow> k < (2 ^ B :: nat)"
proof -
  assume "pm2_ok B m"
  then have "(2 :: nat) ^ B = 2 ^ ROOT_BITS * 2 ^ LEAF2_BITS B"
    by (simp add: pm2_ok_def LEAF2_BITS_def power_add [symmetric])
  then show ?thesis by (simp add: div_less_iff_less_mult)
qed

lemma pm2_okD:
  assumes "pm2_ok B m" "i < 2 ^ ROOT_BITS"
  shows "array_read (root2 m) i = Inr (root2 m ! i)" "root2 m ! i = Some vs \<Longrightarrow> length vs = 2 ^ LEAF2_BITS B"
  using assms unfolding pm2_ok_def by (simp, metis nth_mem)

lemma pm2_ok_update:
  assumes "pm2_ok B m" "length vs = 2 ^ LEAF2_BITS B"
  shows "pm2_ok B (m\<lparr>root2 := (root2 m)[i := Some vs], calls2 := c\<rparr>)"
  using assms set_update_subset_insert [of "root2 m" i "Some vs"] unfolding pm2_ok_def by auto

lemma pm2_get_map: "pm2_ok B m \<Longrightarrow> pm2_get B m k = Inr (pm2_map B m k)"
  using pm2_root_less [of B m k] pm2_okD [of B m "k div 2 ^ LEAF2_BITS B"]
  by (cases "k < 2 ^ B") (auto simp: pm2_get_def pm2_map_def div_eq_0_iff split: option.splits)

lemma pm2_set_covered:
  assumes "pm2_ok B m" "pm2_covers B m k"
  shows "\<exists>m'. pm2_set B m k v = Inr m' \<and> pm2_ok B m' \<and> pm2_covers B m' = pm2_covers B m \<and>
    pm2_map B m' = (pm2_map B m)(k := v)"
proof -
  let ?i = "k div 2 ^ LEAF2_BITS B" and ?j = "k mod 2 ^ LEAF2_BITS B"
  from assms(2) obtain vs where k: "k < 2 ^ B" and vs: "root2 m ! ?i = Some vs" by (auto simp: pm2_covers_def)
  have i: "?i < 2 ^ ROOT_BITS" using pm2_root_less [OF assms(1)] k by blast
  note D = pm2_okD [OF assms(1) i]
  have len: "length (root2 m) = 2 ^ ROOT_BITS" using assms(1) by (simp add: pm2_ok_def)
  have j: "?j < length vs" using D(2) [OF vs] by simp
  define m' where "m' = m\<lparr>root2 := (root2 m)[?i := Some (vs[?j := v])], calls2 := calls2 m\<rparr>"
  have "pm2_set B m k v = Inr m'" using i D(1) vs j by (simp add: pm2_set_def m'_def)
  moreover have "pm2_ok B m'" unfolding m'_def using D(2) [OF vs] by (intro pm2_ok_update [OF assms(1)]) simp
  moreover have "pm2_covers B m' = pm2_covers B m"
    using i len vs by (auto simp: pm2_covers_def m'_def fun_eq_iff nth_list_update)
  moreover have "pm2_map B m' k' = ((pm2_map B m)(k := v)) k'" for k'
  proof (cases "k' div 2 ^ LEAF2_BITS B = ?i")
    case True
    then have "k' mod 2 ^ LEAF2_BITS B = ?j \<longleftrightarrow> k' = k" by (metis div_mult_mod_eq)
    with True k i j len vs show ?thesis by (auto simp: pm2_map_def m'_def nth_list_update)
  qed (auto simp: pm2_map_def m'_def)
  ultimately show ?thesis by blast
qed

definition pm2_grows :: "nat \<Rightarrow> 'v pagemap2 \<Rightarrow> 'v pagemap2 \<Rightarrow> bool" where
  "pm2_grows B m m' \<longleftrightarrow> pm2_ok B m' \<and>
     (\<forall>i < 2 ^ ROOT_BITS. root2 m' ! i = root2 m ! i \<or>
        root2 m ! i = None \<and> root2 m' ! i = Some (replicate (2 ^ LEAF2_BITS B) None))"

lemma pm2_grows_refl [simp]: "pm2_ok B m \<Longrightarrow> pm2_grows B m m"
  by (simp add: pm2_grows_def)

lemma pm2_grows_trans: "pm2_grows B m m1 \<Longrightarrow> pm2_grows B m1 m2 \<Longrightarrow> pm2_grows B m m2"
  unfolding pm2_grows_def by (metis option.distinct(1))

lemma pm2_growsD:
  assumes "pm2_grows B m m'"
  shows "pm2_ok B m'" "pm2_map B m' = pm2_map B m" "pm2_covers B m k \<Longrightarrow> pm2_covers B m' k"
proof -
  show ok: "pm2_ok B m'" using assms by (simp add: pm2_grows_def)
  have g: "root2 m' ! (k div 2 ^ LEAF2_BITS B) = root2 m ! (k div 2 ^ LEAF2_BITS B) \<or>
      root2 m ! (k div 2 ^ LEAF2_BITS B) = None \<and>
      root2 m' ! (k div 2 ^ LEAF2_BITS B) = Some (replicate (2 ^ LEAF2_BITS B) None)" if "k < 2 ^ B" for k
    using assms that pm2_root_less [OF ok, of k] by (simp add: pm2_grows_def)
  have "pm2_map B m' k = pm2_map B m k" for k
    using g [of k] by (cases "k < 2 ^ B") (auto simp: pm2_map_def)
  then show "pm2_map B m' = pm2_map B m" ..
  show "pm2_covers B m k \<Longrightarrow> pm2_covers B m' k" using g [of k] by (auto simp: pm2_covers_def)
qed

lemma pm2_leaf_grows:
  assumes "pm2_ok B m" "i < 2 ^ ROOT_BITS" "pm2_leaf B alloc i m = (b, m')"
  shows "pm2_grows B m m'" "b \<Longrightarrow> root2 m' ! i \<noteq> None"
proof -
  have len: "i < length (root2 m)" using assms(1,2) by (simp add: pm2_ok_def)
  have "pm2_ok B (m\<lparr>root2 := (root2 m)[i := Some (replicate (2 ^ LEAF2_BITS B) None)], calls2 := Suc (calls2 m)\<rparr>)"
    by (intro pm2_ok_update [OF assms(1)]) simp
  moreover have "pm2_ok B (m\<lparr>calls2 := c\<rparr>)" for c using assms(1) by (simp add: pm2_ok_def)
  ultimately show "pm2_grows B m m'" "b \<Longrightarrow> root2 m' ! i \<noteq> None"
    using assms len by (auto simp: pm2_leaf_def pm2_grows_def nth_list_update split: if_splits)
qed

lemma pm2_loop_grows:
  "pm2_ok B m \<Longrightarrow> pm2_grows B m (snd (pm2_loop B alloc hi key m)) \<and>
     (fst (pm2_loop B alloc hi key m) \<longrightarrow>
        (\<forall>k. key \<le> k \<and> int k \<le> hi \<longrightarrow> pm2_covers B (snd (pm2_loop B alloc hi key m)) k))"
proof (induction B alloc hi key m rule: pm2_loop.induct)
  case (1 B alloc hi key m)
  let ?i = "key div 2 ^ LEAF2_BITS B" and ?next = "(key div 2 ^ LEAF2_BITS B + 1) * 2 ^ LEAF2_BITS B"
  consider "hi < int key" | "int key \<le> hi" "\<not> ?i < 2 ^ ROOT_BITS" | "int key \<le> hi" "?i < 2 ^ ROOT_BITS" by linarith
  then show ?case
  proof cases
    case 1
    then have "pm2_loop B alloc hi key m = (True, m)" by (subst pm2_loop.simps) simp
    moreover have "\<not> (key \<le> k \<and> int k \<le> hi)" for k using 1 by linarith
    ultimately show ?thesis using \<open>pm2_ok B m\<close> by auto
  next
    case 2
    then have "pm2_loop B alloc hi key m = (False, m)" by (subst pm2_loop.simps) simp
    with \<open>pm2_ok B m\<close> show ?thesis by simp
  next
    case 3
    obtain b m1 where l: "pm2_leaf B alloc ?i m = (b, m1)" by fastforce
    note g = pm2_leaf_grows [OF \<open>pm2_ok B m\<close> 3(2) l]
    have step: "pm2_loop B alloc hi key m = (if b then pm2_loop B alloc hi ?next m1 else (False, m1))"
      using 3 l by (subst pm2_loop.simps) (simp split: bool.split)
    show ?thesis
    proof (cases b)
      case True
      have IH: "pm2_grows B m1 (snd (pm2_loop B alloc hi ?next m1)) \<and> (fst (pm2_loop B alloc hi ?next m1) \<longrightarrow>
          (\<forall>k. ?next \<le> k \<and> int k \<le> hi \<longrightarrow> pm2_covers B (snd (pm2_loop B alloc hi ?next m1)) k))"
        using 3 l True pm2_growsD(1) [OF g(1)] by (intro "1.IH" [OF 3(1) refl _ l [symmetric]]) simp_all
      have "pm2_covers B (snd (pm2_loop B alloc hi ?next m1)) k"
        if "fst (pm2_loop B alloc hi ?next m1)" "key \<le> k" "int k \<le> hi" for k
      proof (cases "?next \<le> k")
        case False
        have "k div 2 ^ LEAF2_BITS B = ?i"
          using False that(2) div_le_mono [OF that(2), of "2 ^ LEAF2_BITS B"]
          by (metis Suc_eq_plus1 div_less_iff_less_mult le_antisym less_Suc_eq_le not_le zero_less_numeral zero_less_power)
        then have "pm2_covers B m1 k"
          using g(2) True 3(2) pm2_root_less [OF \<open>pm2_ok B m\<close>, of k] by (simp add: pm2_covers_def)
        then show ?thesis using pm2_growsD(3) IH by blast
      qed (use IH that in blast)
      with IH True step pm2_grows_trans [OF g(1)] show ?thesis by auto
    qed (use g step in simp)
  qed
qed

lemma pm2_Ensure_grows:
  assumes "pm2_ok B m" "0 < n" "start + n \<le> 2 ^ 64"
  shows "pm2_grows B m (snd (pm2_Ensure B alloc m start n))"
    "fst (pm2_Ensure B alloc m start n) \<Longrightarrow> start \<le> k \<Longrightarrow> k < start + n \<Longrightarrow> pm2_covers B (snd (pm2_Ensure B alloc m start n)) k"
proof -
  have "int (start + n) \<le> 2 ^ 64" using assms(3) by (simp del: of_nat_add flip: of_nat_power)
  then have "(int start + int n - 1) mod 2 ^ 64 = int start + int n - 1" using assms(2) by (intro mod_pos_pos_trivial) linarith+
  then have eq: "pm2_Ensure B alloc m start n = pm2_loop B alloc (int start + int n - 1) start m" by (simp add: pm2_Ensure_def)
  note L = pm2_loop_grows [OF assms(1), of alloc "int start + int n - 1" start]
  show "pm2_grows B m (snd (pm2_Ensure B alloc m start n))" unfolding eq using L by blast
  assume "fst (pm2_Ensure B alloc m start n)" "start \<le> k" "k < start + n"
  moreover from this(3) have "int k \<le> int start + int n - 1" by linarith
  ultimately show "pm2_covers B (snd (pm2_Ensure B alloc m start n)) k" using L unfolding eq by blast
qed

lemma pm2_next_leaf:
  assumes "pm2_ok B m" "k < 2 ^ B"
  defines "L \<equiv> 2 ^ LEAF2_BITS B" and "leaf \<equiv> root2 m ! (k div 2 ^ LEAF2_BITS B)"
  shows "first_from (pm2_map B m) (2 ^ B) k =
    (case (case leaf of None \<Rightarrow> None | Some vs \<Rightarrow> scan_leaf vs (k mod L)) of
       Some v \<Rightarrow> Some v | None \<Rightarrow> first_from (pm2_map B m) (2 ^ B) ((k div L + 1) * L))"
proof -
  let ?b = "k div L * L"
  have i: "k div L < 2 ^ ROOT_BITS" using pm2_root_less [OF assms(1), of k] assms(2) by (simp add: L_def)
  have L: "0 < L" by (simp add: L_def)
  have B: "(2 :: nat) ^ B = 2 ^ ROOT_BITS * L"
    using assms(1) by (simp add: L_def pm2_ok_def LEAF2_BITS_def power_add [symmetric])
  have "Suc (k div L) * L \<le> 2 ^ ROOT_BITS * L" using i by (intro mult_le_mono1) simp
  then have le: "?b + L \<le> 2 ^ B" by (simp add: B)
  have content: "pm2_map B m (?b + j) = (case leaf of None \<Rightarrow> None | Some vs \<Rightarrow> vs ! j)" if "j < L" for j
  proof -
    have "(?b + j) div L = k div L" "(?b + j) mod L = j" using that by simp_all
    with that le show ?thesis by (simp add: pm2_map_def leaf_def flip: L_def split: option.split)
  qed
  have len: "leaf = Some vs \<Longrightarrow> length vs = L" for vs using pm2_okD(2) [OF assms(1) i [unfolded L_def]] by (simp add: leaf_def L_def)
  have here: "first_from (pm2_map B m) (?b + L) (?b + k mod L) = (case leaf of None \<Rightarrow> None | Some vs \<Rightarrow> scan_leaf vs (k mod L))"
  proof (cases leaf)
    case None
    have "first_from (pm2_map B m) (?b + L) (?b + k mod L) = first_from (\<lambda>j. None :: 'a option) L (k mod L)"
      by (rule first_from_shift) (use content None in simp)
    then show ?thesis using None by (simp add: first_from_def)
  next
    case (Some vs)
    have "first_from (pm2_map B m) (?b + L) (?b + k mod L) = first_from ((!) vs) L (k mod L)"
      by (rule first_from_shift) (use content Some in simp)
    then show ?thesis using Some len by (simp add: scan_leaf_first)
  qed
  have k: "?b + k mod L = k" by (rule div_mult_mod_eq)
  have "k mod L \<le> L" using L by (simp add: less_imp_le)
  then have "k \<le> ?b + L" using k by linarith
  from first_from_append [OF this le, of "pm2_map B m"] here
  show ?thesis unfolding k add_mult_distrib mult_1_left by simp
qed

lemma pm2_next_first: "pm2_ok B m \<Longrightarrow> pm2_Next B m k = Inr (first_from (pm2_map B m) (2 ^ B) k)"
proof (induction B m k rule: pm2_Next.induct)
  case (1 B m k)
  let ?leaf = "root2 m ! (k div 2 ^ LEAF2_BITS B)"
  show ?case
  proof (cases "k < 2 ^ B")
    case True
    have rd: "array_read (root2 m) (k div 2 ^ LEAF2_BITS B) = Inr ?leaf"
      using pm2_okD(1) [OF \<open>pm2_ok B m\<close>] pm2_root_less [OF \<open>pm2_ok B m\<close>, of k] True by blast
    note step = pm2_next_leaf [OF \<open>pm2_ok B m\<close> True]
    show ?thesis
    proof (cases "case ?leaf of None \<Rightarrow> None | Some vs \<Rightarrow> scan_leaf vs (k mod 2 ^ LEAF2_BITS B)")
      case None
      from "1.IH" [OF True refl rd None \<open>pm2_ok B m\<close>] step None
      show ?thesis using True rd by (subst pm2_Next.simps) (simp add: Let_def)
    next
      case (Some v)
      with step True rd show ?thesis by (subst pm2_Next.simps) (simp add: Let_def)
    qed
  qed (simp add: pm2_Next.simps)
qed

interpretation tree2: page_map B "pm2_ok B" "pm2_covers B" "pm2_map B" "pm2_get B" "pm2_set B"
  "\<lambda>m start n. Inr (pm2_Ensure B alloc m start n)" "pm2_Next B" for B alloc
proof (unfold_locales, goal_cases)
  case (5 m n start)
  note g = pm2_Ensure_grows [OF 5(1,2,4), of alloc]
  show ?case using pm2_growsD [OF g(1)] g(2) by (intro exI [of _ "fst (pm2_Ensure B alloc m start n)"] exI [of _ "snd (pm2_Ensure B alloc m start n)"]) simp
qed (auto simp: pm2_get_map pm2_set_covered pm2_next_first pm2_covers_def pm2_map_def)

section \<open>The three-level tree\<close>

text \<open>The widths that the template admits: \<open>LEAF_BITS\<close> is not negative.\<close>

definition pm3_bits :: "nat \<Rightarrow> bool" where
  "pm3_bits B \<longleftrightarrow> B < 64 \<and> 2 * INTERIOR_BITS B \<le> B"

definition pm3_shape :: "nat \<Rightarrow> 'v pm_node option list \<Rightarrow> bool" where
  "pm3_shape B r \<longleftrightarrow> length r = 2 ^ INTERIOR_BITS B \<and>
     (\<forall>nd. Some nd \<in> set r \<longrightarrow> length nd = 2 ^ INTERIOR_BITS B \<and>
       (\<forall>vs. Some vs \<in> set nd \<longrightarrow> length vs = 2 ^ LEAF_BITS B))"

definition pm3_ok :: "nat \<Rightarrow> 'v pagemap3 \<Rightarrow> bool" where
  "pm3_ok B m \<longleftrightarrow> pm3_bits B \<and> (\<exists>r. root3 m = Some r \<and> pm3_shape B r)"

definition pm3_leaf_at :: "'v pagemap3 \<Rightarrow> nat \<Rightarrow> nat \<Rightarrow> 'v option list option" where
  "pm3_leaf_at m i1 i2 =
     (case root3 m of None \<Rightarrow> None | Some r \<Rightarrow> case r ! i1 of None \<Rightarrow> None | Some nd \<Rightarrow> nd ! i2)"

definition pm3_covers :: "nat \<Rightarrow> 'v pagemap3 \<Rightarrow> nat \<Rightarrow> bool" where
  "pm3_covers B m k \<longleftrightarrow> k < 2 ^ B \<and> pm3_leaf_at m (pm3_i1 B k) (pm3_i2 B k) \<noteq> None"

definition pm3_map :: "nat \<Rightarrow> 'v pagemap3 \<Rightarrow> nat \<Rightarrow> 'v option" where
  "pm3_map B m k =
     (if k < 2 ^ B then case pm3_leaf_at m (pm3_i1 B k) (pm3_i2 B k) of None \<Rightarrow> None | Some vs \<Rightarrow> vs ! pm3_i3 B k
      else None)"

lemma pm3_bits_sum: "pm3_bits B \<Longrightarrow> B = INTERIOR_BITS B + (LEAF_BITS B + INTERIOR_BITS B)"
  by (simp add: pm3_bits_def LEAF_BITS_def)

lemma pm3_i1_less: "pm3_bits B \<Longrightarrow> pm3_i1 B k < 2 ^ INTERIOR_BITS B \<longleftrightarrow> k < 2 ^ B"
  unfolding pm3_i1_def by (subst (4) pm3_bits_sum, assumption) (simp add: div_less_iff_less_mult power_add)

lemma pm3_i2_less [simp]: "pm3_i2 B k < 2 ^ INTERIOR_BITS B"
  by (simp add: pm3_i2_def)

lemma pm3_i3_less [simp]: "pm3_i3 B k < 2 ^ LEAF_BITS B"
  by (simp add: pm3_i3_def)

lemma pm3_index_inj:
  assumes "pm3_i1 B k = pm3_i1 B k'" "pm3_i2 B k = pm3_i2 B k'" "pm3_i3 B k = pm3_i3 B k'"
  shows "k = k'"
proof -
  have "k div 2 ^ LEAF_BITS B = k' div 2 ^ LEAF_BITS B"
    using assms(1,2) unfolding pm3_i1_def pm3_i2_def power_add div_mult2_eq
    by (metis div_mult_mod_eq)
  with assms(3) show ?thesis unfolding pm3_i3_def by (metis div_mult_mod_eq)
qed

text \<open>The parts of a well-formed tree.\<close>

lemma pm3_shapeD:
  assumes "pm3_shape B r"
  shows "length r = 2 ^ INTERIOR_BITS B"
    "\<lbrakk>i < 2 ^ INTERIOR_BITS B; r ! i = Some nd\<rbrakk> \<Longrightarrow> length nd = 2 ^ INTERIOR_BITS B"
    "\<lbrakk>i < 2 ^ INTERIOR_BITS B; r ! i = Some nd; j < 2 ^ INTERIOR_BITS B; nd ! j = Some vs\<rbrakk> \<Longrightarrow> length vs = 2 ^ LEAF_BITS B"
    "\<lbrakk>i < 2 ^ INTERIOR_BITS B; r ! i = Some nd; Some vs \<in> set nd\<rbrakk> \<Longrightarrow> length vs = 2 ^ LEAF_BITS B"
  using assms unfolding pm3_shape_def by (metis nth_mem)+

lemma pm3_shape_update:
  assumes "pm3_shape B r" "length nd = 2 ^ INTERIOR_BITS B" "\<And>vs. Some vs \<in> set nd \<Longrightarrow> length vs = 2 ^ LEAF_BITS B"
  shows "pm3_shape B (r[i := Some nd])"
proof -
  have "set (r[i := Some nd]) \<subseteq> insert (Some nd) (set r)" by (rule set_update_subset_insert)
  with assms show ?thesis unfolding pm3_shape_def by fastforce
qed

text \<open>Putting a leaf into the tree.\<close>

lemma pm3_put_leaf:
  fixes c :: nat
  assumes "pm3_ok B m" "root3 m = Some r" "i < 2 ^ INTERIOR_BITS B" "r ! i = Some nd" "j < 2 ^ INTERIOR_BITS B"
    "length vs = 2 ^ LEAF_BITS B"
  defines "m' \<equiv> m\<lparr>root3 := Some (r[i := Some (nd[j := Some vs])]), calls := c\<rparr>"
  shows "pm3_ok B m'" "pm3_leaf_at m' = (pm3_leaf_at m)(i := (pm3_leaf_at m i)(j := Some vs))"
proof -
  from assms(1,2) have r: "pm3_bits B" "pm3_shape B r" by (auto simp: pm3_ok_def)
  note nd = pm3_shapeD(2) [OF r(2) assms(3,4)] pm3_shapeD(4) [OF r(2) assms(3,4)]
  have "Some us \<in> set (nd[j := Some vs]) \<Longrightarrow> length us = 2 ^ LEAF_BITS B" for us
    using nd(2) [of us] assms(6) set_update_subset_insert [of nd j "Some vs"] by auto
  with pm3_shape_update [OF r(2), of "nd[j := Some vs]" i] nd(1) r(1)
  show "pm3_ok B m'" by (simp add: m'_def pm3_ok_def)
  have "i < length r" "j < length nd" using assms(3,5) nd(1) pm3_shapeD(1) [OF r(2)] by simp_all
  then show "pm3_leaf_at m' = (pm3_leaf_at m)(i := (pm3_leaf_at m i)(j := Some vs))"
    using assms(2,4) by (auto simp: m'_def pm3_leaf_at_def fun_eq_iff nth_list_update split: option.splits)
qed

lemma pm3_get_map:
  assumes "pm3_ok B m"
  shows "pm3_get B m k = Inr (pm3_map B m k)"
proof (cases "k < 2 ^ B")
  case True
  from assms obtain r where r: "pm3_bits B" "root3 m = Some r" "pm3_shape B r" by (auto simp: pm3_ok_def)
  from r(1) True have "pm3_i1 B k < 2 ^ INTERIOR_BITS B" by (simp add: pm3_i1_less)
  note D = this pm3_shapeD(1) [OF r(3)] pm3_shapeD(2) [OF r(3) this] pm3_shapeD(3) [OF r(3) this _ pm3_i2_less]
  from True r(2) D show ?thesis
    by (auto simp: pm3_get_def pm3_map_def pm3_leaf_at_def split: option.splits)
qed (simp add: pm3_get_def pm3_map_def div_eq_0_iff)

lemma pm3_set_covered:
  assumes "pm3_ok B m" "pm3_covers B m k"
  shows "\<exists>m'. pm3_set B m k v = Inr m' \<and> pm3_ok B m' \<and> pm3_covers B m' = pm3_covers B m \<and>
    pm3_map B m' = (pm3_map B m)(k := v)"
proof -
  from assms(1) obtain r where r: "pm3_bits B" "root3 m = Some r" "pm3_shape B r" by (auto simp: pm3_ok_def)
  have k: "k < 2 ^ B" and i1: "pm3_i1 B k < 2 ^ INTERIOR_BITS B"
    using assms(2) r(1) by (auto simp: pm3_covers_def pm3_i1_less)
  obtain nd vs where nd: "r ! pm3_i1 B k = Some nd" "nd ! pm3_i2 B k = Some vs"
    using assms(2) r(2) by (auto simp: pm3_covers_def pm3_leaf_at_def split: option.splits)
  note len = pm3_shapeD(1) [OF r(3)] pm3_shapeD(2) [OF r(3) i1 nd(1)] pm3_shapeD(3) [OF r(3) i1 nd(1) pm3_i2_less nd(2)]
  define m' where "m' = m\<lparr>root3 := Some (r[pm3_i1 B k := Some (nd[pm3_i2 B k := Some (vs[pm3_i3 B k := v])])]), calls := calls m\<rparr>"
  have set: "pm3_set B m k v = Inr m'" using r(2) k i1 nd len by (simp add: pm3_set_def m'_def)
  have "length (vs[pm3_i3 B k := v]) = 2 ^ LEAF_BITS B" using len(3) by simp
  note put = pm3_put_leaf [OF assms(1) r(2) i1 nd(1) pm3_i2_less [of B k] this, where c = "calls m", folded m'_def]
  have old: "pm3_leaf_at m (pm3_i1 B k) (pm3_i2 B k) = Some vs" using r(2) nd by (simp add: pm3_leaf_at_def)
  have "pm3_covers B m' = pm3_covers B m" using old by (auto simp: pm3_covers_def put(2) fun_eq_iff)
  moreover have "pm3_map B m' k' = ((pm3_map B m)(k := v)) k'" for k'
  proof (cases "pm3_i1 B k' = pm3_i1 B k \<and> pm3_i2 B k' = pm3_i2 B k")
    case True
    then have "pm3_i3 B k' = pm3_i3 B k \<longleftrightarrow> k' = k" using pm3_index_inj [of B k' k] by auto
    with True k len(3) old show ?thesis by (auto simp: pm3_map_def put(2) nth_list_update)
  next
    case False
    then show ?thesis by (auto simp: pm3_map_def put(2))
  qed
  ultimately show ?thesis using set put(1) by blast
qed

text \<open>A round of \<open>Ensure\<close> adds empty leaves and changes no pointer.\<close>

definition pm3_grows :: "nat \<Rightarrow> 'v pagemap3 \<Rightarrow> 'v pagemap3 \<Rightarrow> bool" where
  "pm3_grows B m m' \<longleftrightarrow> pm3_ok B m' \<and>
     (\<forall>i j. i < 2 ^ INTERIOR_BITS B \<longrightarrow> j < 2 ^ INTERIOR_BITS B \<longrightarrow>
        pm3_leaf_at m' i j = pm3_leaf_at m i j \<or>
        pm3_leaf_at m i j = None \<and> pm3_leaf_at m' i j = Some (replicate (2 ^ LEAF_BITS B) None))"

lemma pm3_grows_refl [simp]: "pm3_ok B m \<Longrightarrow> pm3_grows B m m"
  by (simp add: pm3_grows_def)

lemma pm3_grows_trans: "pm3_grows B m m1 \<Longrightarrow> pm3_grows B m1 m2 \<Longrightarrow> pm3_grows B m m2"
  unfolding pm3_grows_def by (metis option.distinct(1))

lemma pm3_growsD:
  assumes "pm3_grows B m m'"
  shows "pm3_ok B m'" "pm3_map B m' = pm3_map B m" "pm3_covers B m k \<Longrightarrow> pm3_covers B m' k"
proof -
  show ok: "pm3_ok B m'" using assms by (simp add: pm3_grows_def)
  have g: "pm3_leaf_at m' (pm3_i1 B k) (pm3_i2 B k) = pm3_leaf_at m (pm3_i1 B k) (pm3_i2 B k) \<or>
      pm3_leaf_at m (pm3_i1 B k) (pm3_i2 B k) = None \<and>
      pm3_leaf_at m' (pm3_i1 B k) (pm3_i2 B k) = Some (replicate (2 ^ LEAF_BITS B) None)" if "k < 2 ^ B" for k
    using assms that ok by (simp add: pm3_grows_def pm3_ok_def pm3_i1_less)
  have "pm3_map B m' k = pm3_map B m k" for k
    using g [of k] by (cases "k < 2 ^ B") (auto simp: pm3_map_def)
  then show "pm3_map B m' = pm3_map B m" ..
  show "pm3_covers B m k \<Longrightarrow> pm3_covers B m' k" using g [of k] by (auto simp: pm3_covers_def)
qed

lemma pm3_node_grows:
  assumes "pm3_ok B m" "root3 m = Some r" "i < 2 ^ INTERIOR_BITS B" "pm3_node B alloc i r m = (b, m')"
  shows "pm3_grows B m m'" "b \<Longrightarrow> \<exists>r' nd. root3 m' = Some r' \<and> r' ! i = Some nd"
proof -
  let ?nd = "replicate (2 ^ INTERIOR_BITS B) None"
  from assms(1,2) have r: "pm3_bits B" "pm3_shape B r" by (auto simp: pm3_ok_def)
  have i: "i < length r" using assms(3) pm3_shapeD(1) [OF r(2)] by simp
  consider "m' = m" "b = (r ! i \<noteq> None)" "r ! i \<noteq> None" | "m' = m\<lparr>calls := Suc (calls m)\<rparr>" "\<not> b"
    | "r ! i = None" "b" "m' = m\<lparr>root3 := Some (r[i := Some ?nd]), calls := Suc (calls m)\<rparr>"
    using assms(4) by (auto simp: pm3_node_def split: if_splits)
  then have "pm3_grows B m m' \<and> (b \<longrightarrow> (\<exists>r' nd. root3 m' = Some r' \<and> r' ! i = Some nd))"
  proof cases
    case 1
    then show ?thesis using assms(1,2) by auto
  next
    case 2
    then show ?thesis using assms(1) by (simp add: pm3_grows_def pm3_ok_def pm3_leaf_at_def)
  next
    case 3
    have "pm3_shape B (r[i := Some ?nd])" using r(2) by (rule pm3_shape_update) simp_all
    then have "pm3_ok B m'" using 3 r(1) by (simp add: pm3_ok_def)
    moreover have "pm3_leaf_at m' a j = pm3_leaf_at m a j" if "j < 2 ^ INTERIOR_BITS B" for a j
      using that 3 assms(2) i by (auto simp: pm3_leaf_at_def nth_list_update)
    ultimately show ?thesis using 3 i by (simp add: pm3_grows_def)
  qed
  then show "pm3_grows B m m'" "b \<Longrightarrow> \<exists>r' nd. root3 m' = Some r' \<and> r' ! i = Some nd" by simp_all
qed

lemma pm3_leaf_grows:
  assumes "pm3_ok B m" "root3 m = Some r" "i < 2 ^ INTERIOR_BITS B" "j < 2 ^ INTERIOR_BITS B" "r ! i = Some nd"
  shows "\<exists>b m'. pm3_leaf B alloc i j r m = Inr (b, m') \<and> pm3_grows B m m' \<and> (b \<longrightarrow> pm3_leaf_at m' i j \<noteq> None)"
proof -
  let ?vs = "replicate (2 ^ LEAF_BITS B) None" and ?c = "Suc (calls m)"
  consider "nd ! j \<noteq> None" | "nd ! j = None" "\<not> alloc (calls m)" | "nd ! j = None" "alloc (calls m)" by blast
  then show ?thesis
  proof cases
    case 1
    then show ?thesis using assms by (auto simp: pm3_leaf_def pm3_leaf_at_def)
  next
    case 2
    have "pm3_grows B m (m\<lparr>calls := ?c\<rparr>)" using assms(1) by (simp add: pm3_grows_def pm3_ok_def pm3_leaf_at_def)
    with 2 assms show ?thesis by (intro exI [of _ False] exI [of _ "m\<lparr>calls := ?c\<rparr>"]) (simp add: pm3_leaf_def)
  next
    case 3
    have "length ?vs = 2 ^ LEAF_BITS B" by simp
    note put = pm3_put_leaf [OF assms(1,2,3,5,4) this, where c = ?c]
    have "pm3_leaf_at m i j = None" using assms 3 by (simp add: pm3_leaf_at_def)
    with put have "pm3_grows B m (m\<lparr>root3 := Some (r[i := Some (nd[j := Some ?vs])]), calls := ?c\<rparr>)"
      by (auto simp: pm3_grows_def)
    with 3 assms put(2) show ?thesis by (intro exI [of _ True]) (auto simp: pm3_leaf_def)
  qed
qed

lemma pm3_round_grows:
  assumes "pm3_ok B m" "i < 2 ^ INTERIOR_BITS B" "j < 2 ^ INTERIOR_BITS B"
  shows "\<exists>b m'. pm3_round B alloc i j m = Inr (b, m') \<and> pm3_grows B m m' \<and> (b \<longrightarrow> pm3_leaf_at m' i j \<noteq> None)"
proof -
  from assms(1) obtain r where r: "root3 m = Some r" by (auto simp: pm3_ok_def)
  obtain b m1 where n: "pm3_node B alloc i r m = (b, m1)" by fastforce
  note g = pm3_node_grows [OF assms(1) r assms(2) n]
  show ?thesis
  proof (cases b)
    case True
    with g(2) obtain r1 nd where r1: "root3 m1 = Some r1" "r1 ! i = Some nd" by blast
    from pm3_leaf_grows [OF pm3_growsD(1) [OF g(1)] r1(1) assms(2,3) r1(2), of alloc]
    show ?thesis using True n r r1(1) pm3_grows_trans [OF g(1)] by (auto simp: pm3_round_def)
  next
    case False
    with g n r show ?thesis by (intro exI [of _ False] exI [of _ m1]) (simp add: pm3_round_def)
  qed
qed

lemma pm3_same_leaf:
  assumes "key \<le> k" "k < (key div 2 ^ LEAF_BITS B + 1) * 2 ^ LEAF_BITS B"
  shows "pm3_i1 B k = pm3_i1 B key" "pm3_i2 B k = pm3_i2 B key"
proof -
  have "k div 2 ^ LEAF_BITS B = key div 2 ^ LEAF_BITS B"
    using assms div_le_mono [OF assms(1), of "2 ^ LEAF_BITS B"]
    by (metis Suc_eq_plus1 div_less_iff_less_mult le_antisym less_Suc_eq_le zero_less_numeral zero_less_power)
  then show "pm3_i1 B k = pm3_i1 B key" "pm3_i2 B k = pm3_i2 B key"
    by (simp_all add: pm3_i1_def pm3_i2_def power_add div_mult2_eq)
qed

lemma pm3_loop_grows:
  "pm3_ok B m \<Longrightarrow> \<exists>b m'. pm3_loop B alloc hi key m = Inr (b, m') \<and> pm3_grows B m m' \<and>
     (b \<longrightarrow> (\<forall>k. key \<le> k \<and> int k \<le> hi \<longrightarrow> pm3_covers B m' k))"
proof (induction B alloc hi key m rule: pm3_loop.induct)
  case (1 B alloc hi key m)
  let ?next = "(key div 2 ^ LEAF_BITS B + 1) * 2 ^ LEAF_BITS B"
  consider "hi < int key" | "int key \<le> hi" "\<not> key < 2 ^ B" | "int key \<le> hi" "key < 2 ^ B" by linarith
  then show ?case
  proof cases
    case 1
    then have "pm3_loop B alloc hi key m = Inr (True, m)" by (subst pm3_loop.simps) simp
    moreover have "\<not> (key \<le> k \<and> int k \<le> hi)" for k using 1 by linarith
    ultimately show ?thesis using \<open>pm3_ok B m\<close> by auto
  next
    case 2
    with \<open>pm3_ok B m\<close> have "\<not> pm3_i1 B key < 2 ^ INTERIOR_BITS B" by (simp add: pm3_ok_def pm3_i1_less)
    with 2 \<open>pm3_ok B m\<close> show ?thesis by (intro exI [of _ False] exI [of _ m]) (subst pm3_loop.simps, simp)
  next
    case 3
    with \<open>pm3_ok B m\<close> have i: "pm3_i1 B key < 2 ^ INTERIOR_BITS B" by (simp add: pm3_ok_def pm3_i1_less)
    from pm3_round_grows [OF \<open>pm3_ok B m\<close> i pm3_i2_less, of alloc key]
    obtain b m1 where r: "pm3_round B alloc (pm3_i1 B key) (pm3_i2 B key) m = Inr (b, m1)" "pm3_grows B m m1"
      "b \<longrightarrow> pm3_leaf_at m1 (pm3_i1 B key) (pm3_i2 B key) \<noteq> None" by blast
    have step: "pm3_loop B alloc hi key m = (if \<not> b then Inr (False, m1) else pm3_loop B alloc hi ?next m1)"
      using 3(1) i r(1) by (subst pm3_loop.simps) (simp add: not_le [THEN iffD2, OF pm3_i2_less] not_le [THEN iffD2])
    show ?thesis
    proof (cases b)
      case False
      with r step show ?thesis by auto
    next
      case True
      have "\<exists>b m'. pm3_loop B alloc hi ?next m1 = Inr (b, m') \<and> pm3_grows B m1 m' \<and>
          (b \<longrightarrow> (\<forall>k. ?next \<le> k \<and> int k \<le> hi \<longrightarrow> pm3_covers B m' k))"
      proof (rule "1.IH" [OF 3(1) _ r(1) refl])
        show "\<not> (2 ^ INTERIOR_BITS B \<le> pm3_i1 B key \<or> 2 ^ INTERIOR_BITS B \<le> pm3_i2 B key)" using i by (simp add: not_le)
      qed (use True pm3_growsD(1) [OF r(2)] in simp_all)
      then obtain b' m2 where l: "pm3_loop B alloc hi ?next m1 = Inr (b', m2)" "pm3_grows B m1 m2"
        "b' \<longrightarrow> (\<forall>k. ?next \<le> k \<and> int k \<le> hi \<longrightarrow> pm3_covers B m2 k)" by blast
      have "pm3_covers B m2 k" if "b'" "key \<le> k" "int k \<le> hi" for k
      proof (cases "?next \<le> k")
        case False
        then have s: "pm3_i1 B k = pm3_i1 B key" "pm3_i2 B k = pm3_i2 B key"
          using pm3_same_leaf [OF that(2), of B] by (simp_all add: not_le)
        have "k < 2 ^ B" using i pm3_i1_less [of B k] \<open>pm3_ok B m\<close> by (simp add: pm3_ok_def s)
        then have "pm3_covers B m1 k" using r(3) True s by (simp add: pm3_covers_def)
        then show ?thesis by (rule pm3_growsD(3) [OF l(2)])
      qed (use l(3) that in blast)
      with True step l(1) pm3_grows_trans [OF r(2) l(2)] show ?thesis by auto
    qed
  qed
qed

lemma pm3_Ensure_grows:
  assumes "pm3_ok B m" "0 < n" "start + n \<le> 2 ^ 64"
  shows "\<exists>b m'. pm3_Ensure B alloc m start n = Inr (b, m') \<and> pm3_grows B m m' \<and>
    (b \<longrightarrow> (\<forall>k. start \<le> k \<and> k < start + n \<longrightarrow> pm3_covers B m' k))"
proof -
  have "int (start + n) \<le> 2 ^ 64" using assms(3) by (simp del: of_nat_add flip: of_nat_power)
  then have "(int start + int n - 1) mod 2 ^ 64 = int start + int n - 1" using assms(2) by (intro mod_pos_pos_trivial) linarith+
  with pm3_loop_grows [OF assms(1), of alloc "int start + int n - 1" start] show ?thesis
    by (simp add: pm3_Ensure_def) force
qed

text \<open>\<open>Next\<close>: a missing node or leaf is skipped as a whole.\<close>

lemma pm3_leaf_content:
  assumes "pm3_ok B m" "k < 2 ^ B" "pm3_leaf_at m (pm3_i1 B k) (pm3_i2 B k) = leaf"
  shows "k div 2 ^ LEAF_BITS B * 2 ^ LEAF_BITS B + 2 ^ LEAF_BITS B \<le> 2 ^ B"
    "j < 2 ^ LEAF_BITS B \<Longrightarrow> pm3_map B m (k div 2 ^ LEAF_BITS B * 2 ^ LEAF_BITS B + j) = (case leaf of None \<Rightarrow> None | Some vs \<Rightarrow> vs ! j)"
proof -
  let ?L = "2 ^ LEAF_BITS B :: nat" and ?b = "k div 2 ^ LEAF_BITS B * 2 ^ LEAF_BITS B"
  have B: "(2 :: nat) ^ B = 2 ^ (2 * INTERIOR_BITS B) * ?L"
    using assms(1) pm3_bits_sum [of B] by (simp add: pm3_ok_def power_add [symmetric] mult_2 ac_simps)
  then have "k div ?L < 2 ^ (2 * INTERIOR_BITS B)" using assms(2) by (simp add: less_mult_imp_div_less)
  then have "Suc (k div ?L) * ?L \<le> 2 ^ (2 * INTERIOR_BITS B) * ?L" by (intro mult_le_mono1) simp
  then show le: "?b + ?L \<le> 2 ^ B" by (simp add: B)
  assume j: "j < ?L"
  have d: "(?b + j) div ?L = k div ?L" using j by simp
  have "pm3_i1 B (?b + j) = pm3_i1 B k" "pm3_i2 B (?b + j) = pm3_i2 B k" "pm3_i3 B (?b + j) = j"
    using j by (simp_all add: pm3_i1_def pm3_i2_def pm3_i3_def power_add div_mult2_eq d)
  with le j assms(3) show "pm3_map B m (?b + j) = (case leaf of None \<Rightarrow> None | Some vs \<Rightarrow> vs ! j)"
    by (simp add: pm3_map_def split: option.split)
qed

lemma pm3_next_leaf:
  assumes "pm3_ok B m" "k < 2 ^ B" "pm3_leaf_at m (pm3_i1 B k) (pm3_i2 B k) = leaf" "\<And>vs. leaf = Some vs \<Longrightarrow> length vs = 2 ^ LEAF_BITS B"
  shows "first_from (pm3_map B m) (2 ^ B) k =
    (case (case leaf of None \<Rightarrow> None | Some vs \<Rightarrow> scan_leaf vs (pm3_i3 B k)) of
       Some v \<Rightarrow> Some v
     | None \<Rightarrow> first_from (pm3_map B m) (2 ^ B) ((k div 2 ^ LEAF_BITS B + 1) * 2 ^ LEAF_BITS B))"
proof -
  let ?L = "2 ^ LEAF_BITS B :: nat" and ?b = "k div 2 ^ LEAF_BITS B * 2 ^ LEAF_BITS B"
  note C = pm3_leaf_content [OF assms(1-3)]
  have k: "k = ?b + pm3_i3 B k" unfolding pm3_i3_def by (rule div_mult_mod_eq [symmetric])
  have nxt: "(k div ?L + 1) * ?L = ?b + ?L" by simp
  have here: "first_from (pm3_map B m) (?b + ?L) (?b + pm3_i3 B k) =
      (case leaf of None \<Rightarrow> None | Some vs \<Rightarrow> scan_leaf vs (pm3_i3 B k))"
  proof (cases leaf)
    case None
    have "first_from (pm3_map B m) (?b + ?L) (?b + pm3_i3 B k) = first_from (\<lambda>j. None :: 'a option) ?L (pm3_i3 B k)"
      by (rule first_from_shift) (use C(2) None in simp)
    then show ?thesis using None by (simp add: first_from_def)
  next
    case (Some vs)
    have "first_from (pm3_map B m) (?b + ?L) (?b + pm3_i3 B k) = first_from ((!) vs) ?L (pm3_i3 B k)"
      by (rule first_from_shift) (use C(2) Some in simp)
    then show ?thesis using Some assms(4) by (simp add: scan_leaf_first)
  qed
  have "k \<le> ?b + ?L" by (subst k) (simp add: less_imp_le)
  from first_from_append [OF this C(1), of "pm3_map B m"] show ?thesis
    unfolding nxt by (subst (asm) (2) k) (simp only: here)
qed

lemma pm3_next_node:
  assumes "pm3_ok B m" "k < 2 ^ B" "root3 m = Some r" "r ! pm3_i1 B k = None"
  shows "first_from (pm3_map B m) (2 ^ B) k =
    first_from (pm3_map B m) (2 ^ B) ((pm3_i1 B k + 1) * 2 ^ (LEAF_BITS B + INTERIOR_BITS B))"
proof -
  let ?n = "(pm3_i1 B k + 1) * 2 ^ (LEAF_BITS B + INTERIOR_BITS B)"
  have le: "k < ?n" using dividend_less_div_times [of "2 ^ (LEAF_BITS B + INTERIOR_BITS B)" k] by (simp add: pm3_i1_def)
  have "pm3_map B m j = None" if "k \<le> j" "j < ?n" for j
  proof -
    have "pm3_i1 B k \<le> pm3_i1 B j" using that(1) by (simp add: pm3_i1_def div_le_mono)
    moreover have "pm3_i1 B j < pm3_i1 B k + 1" using that(2) by (simp only: pm3_i1_def less_mult_imp_div_less)
    ultimately have "pm3_i1 B j = pm3_i1 B k" by simp
    with assms(3,4) show ?thesis by (simp add: pm3_map_def pm3_leaf_at_def)
  qed
  from first_from_skip [of k ?n "pm3_map B m" "2 ^ B", OF this] le show ?thesis by (simp add: max_def)
qed

lemma pm3_next_first:
  "pm3_ok B m \<Longrightarrow> pm3_Next B m k = Inr (first_from (pm3_map B m) (2 ^ B) k)"
proof (induction B m k rule: pm3_Next.induct)
  case (1 B m k)
  show ?case
  proof (cases "k < 2 ^ B")
    case True
    from \<open>pm3_ok B m\<close> obtain r where r: "pm3_bits B" "root3 m = Some r" "pm3_shape B r" by (auto simp: pm3_ok_def)
    have i1: "pm3_i1 B k < 2 ^ INTERIOR_BITS B" using r(1) True by (simp add: pm3_i1_less)
    have rd: "nonnull (root3 m) = Inr r" "array_read r (pm3_i1 B k) = Inr (r ! pm3_i1 B k)"
      using r(2) i1 pm3_shapeD(1) [OF r(3)] by simp_all
    show ?thesis
    proof (cases "r ! pm3_i1 B k")
      case None
      from "1.IH"(1) [OF True rd None \<open>pm3_ok B m\<close>] pm3_next_node [OF \<open>pm3_ok B m\<close> True r(2) None]
      show ?thesis using True rd None by (subst pm3_Next.simps) simp
    next
      case (Some nd)
      let ?leaf = "nd ! pm3_i2 B k"
      have rd2: "array_read nd (pm3_i2 B k) = Inr ?leaf" using pm3_shapeD(2) [OF r(3) i1 Some] by simp
      have at: "pm3_leaf_at m (pm3_i1 B k) (pm3_i2 B k) = ?leaf" using r(2) Some by (simp add: pm3_leaf_at_def)
      note step = pm3_next_leaf [OF \<open>pm3_ok B m\<close> True at pm3_shapeD(3) [OF r(3) i1 Some pm3_i2_less]]
      show ?thesis
      proof (cases "case ?leaf of None \<Rightarrow> None | Some vs \<Rightarrow> scan_leaf vs (pm3_i3 B k)")
        case None
        from "1.IH"(2) [OF True rd Some rd2 None \<open>pm3_ok B m\<close>] step None
        show ?thesis using True rd rd2 Some by (subst pm3_Next.simps) simp
      next
        case (Some v)
        with step True rd rd2 \<open>r ! pm3_i1 B k = Some nd\<close> show ?thesis by (subst pm3_Next.simps) simp
      qed
    qed
  qed (simp add: pm3_Next.simps)
qed

interpretation tree: page_map B "pm3_ok B" "pm3_covers B" "pm3_map B" "pm3_get B" "pm3_set B" "pm3_Ensure B alloc" "pm3_Next B"
  for B alloc
proof (unfold_locales, goal_cases)
  case (5 m n start)
  from pm3_Ensure_grows [OF 5(1,2,4), of alloc] show ?case using pm3_growsD by blast
qed (auto simp: pm3_get_map pm3_set_covered pm3_next_first pm3_covers_def pm3_map_def)

section \<open>The radix tree against the flat array\<close>

lemma pm3_new_ok: "pm3_bits B \<Longrightarrow> alloc 0 \<Longrightarrow> pm3_ok B (pm3_new B alloc)"
  by (simp add: pm3_ok_def pm3_shape_def pm3_new_def)

lemma pm3_new_empty: "pm3_bits B \<Longrightarrow> pm3_map B (pm3_new B alloc) k = None"
  by (simp add: pm3_map_def pm3_leaf_at_def pm3_new_def pm3_i1_less)

lemma pm1_new_ok: "B < 64 \<Longrightarrow> pm1_new B alloc = Inr a \<Longrightarrow> pm1_ok B a \<and> pm1_map B a k = None"
  by (auto simp: pm1_ok_def pm1_map_def pm1_new_def split: if_splits)

text \<open>
  C26. The page map of the 64-bit build is a flat array in fewer words. Take a three-level tree and
  an array with the same contents. When \<open>Ensure\<close> succeeds for a range of pages, any pages of the
  range can be set in both; then both give, for every page, the pointer that was set or the one they
  had before, and \<open>Next\<close> finds the same pointer from every page on.
\<close>

theorem tree_like_array:
  assumes "pm3_ok B m" "pm1_ok B a" "pm3_map B m = pm1_map B a" "0 < n" "start + n \<le> 2 ^ B"
    "pm3_Ensure B alloc m start n = Inr (True, m1)" "\<forall>k \<in> set ks. start \<le> k \<and> k < start + n"
  shows "\<exists>m2 a2. set_each (pm3_set B) ks v m1 = Inr m2 \<and> set_each (pm1_set B) ks v a = Inr a2 \<and>
    (\<forall>k. pm3_get B m2 k = Inr (if k \<in> set ks then v else pm3_map B m k) \<and>
         pm1_get B a2 k = pm3_get B m2 k \<and> pm3_Next B m2 k = pm1_Next B a2 k)"
proof -
  have "(2 :: nat) ^ B \<le> 2 ^ 64" using assms(1) by (intro power_increasing) (simp_all add: pm3_ok_def pm3_bits_def)
  then have "start \<le> 2 ^ B" "start + n \<le> 2 ^ 64" using assms(5) by linarith+
  from tree.ensure_covers [OF assms(1,4) this, of alloc] assms(6)
  have m1: "pm3_ok B m1" "pm3_map B m1 = pm3_map B m" "\<forall>k. start \<le> k \<and> k < start + n \<longrightarrow> pm3_covers B m1 k" by auto
  obtain m2 where m2: "set_each (pm3_set B) ks v m1 = Inr m2" "pm3_ok B m2"
    "pm3_map B m2 = (\<lambda>k. if k \<in> set ks then v else pm3_map B m k)"
    using tree.set_each_covered [OF m1(1), of ks v] m1(3) assms(7) unfolding m1(2) by blast
  have "\<forall>k \<in> set ks. pm1_covers B a k" using assms(5,7) by (auto simp: pm1_covers_def)
  then obtain a2 where a2: "set_each (pm1_set B) ks v a = Inr a2" "pm1_ok B a2"
    "pm1_map B a2 = (\<lambda>k. if k \<in> set ks then v else pm3_map B m k)"
    using flat.set_each_covered [OF assms(2), of ks v] unfolding assms(3) by blast
  show ?thesis
    using m2 a2 tree.get_content [OF m2(2)] flat.get_content [OF a2(2)] tree.next_first [OF m2(2)] flat.next_first [OF a2(2)]
    by auto
qed

theorem tree_like_array_witness:
  "\<exists>m1 m2 a2. pm3_Ensure 6 (\<lambda>_. True) (pm3_new 6 (\<lambda>_. True)) 3 20 = Inr (True, m1) \<and>
     set_each (pm3_set 6) [4, 5, 21] (Some (7 :: nat)) m1 = Inr m2 \<and> pm3_get 6 m2 5 = Inr (Some 7) \<and> pm3_get 6 m2 6 = Inr None \<and>
     set_each (pm1_set 6) [4, 5, 21] (Some 7) \<lparr>pm_array = replicate 64 None\<rparr> = Inr a2 \<and>
     pm3_Next 6 m2 6 = pm1_Next 6 a2 6"
proof -
  have bits: "pm3_bits 6" by code_simp
  define m where "m = (pm3_new 6 (\<lambda>_. True) :: nat pagemap3)"
  define a where "a = (\<lparr>pm_array = replicate 64 None\<rparr> :: nat pagemap1)"
  have a: "pm1_new 6 (\<lambda>_. True) = Inr a" by (simp add: pm1_new_def a_def)
  have m: "pm3_ok 6 m" "pm1_ok 6 a" "pm3_map 6 m = pm1_map 6 a"
    using pm3_new_ok [OF bits, of "\<lambda>_. True"] pm1_new_ok [OF _ a] by (simp_all add: m_def fun_eq_iff pm3_new_empty [OF bits])
  have "(case pm3_Ensure 6 (\<lambda>_. True) (pm3_new 6 (\<lambda>_. True) :: nat pagemap3) 3 20 of Inr (b, _) \<Rightarrow> b | _ \<Rightarrow> False)"
    by code_simp
  then obtain m1 where e: "pm3_Ensure 6 (\<lambda>_. True) m 3 20 = Inr (True, m1)"
    by (auto simp: m_def split: sum.splits)
  have "\<forall>k \<in> set [4, 5, 21]. 3 \<le> k \<and> k < 3 + (20 :: nat)" by simp
  from tree_like_array [OF m _ _ e this, of "Some 7"]
  obtain m2 a2 where r: "set_each (pm3_set 6) [4, 5, 21] (Some 7) m1 = Inr m2" "set_each (pm1_set 6) [4, 5, 21] (Some 7) a = Inr a2"
    "\<And>k. pm3_get 6 m2 k = Inr (if k \<in> set [4, 5, 21] then Some 7 else pm3_map 6 m k)" "\<And>k. pm3_Next 6 m2 k = pm1_Next 6 a2 k"
    by auto
  have "pm3_get 6 m2 5 = Inr (Some 7)" "pm3_get 6 m2 6 = Inr None" "pm3_Next 6 m2 6 = pm1_Next 6 a2 6"
    using r(3) [of 5] r(3) [of 6] r(4) [of 6] by (simp_all add: m_def pm3_new_empty [OF bits])
  with e r(1,2) show ?thesis unfolding m_def a_def by blast
qed

end
