(* ===== verification/Size_Map.thy ===== *)
theory Size_Map
  imports Page_Map
begin

text \<open>
  The size classes of the allocator (\<open>SizeMap\<close> of \<open>gperftools-2.5/src/common.h\<close> and \<open>common.cc\<close>), with the
  page size of 64 KiB that the enclave build uses. Sizes are \<open>int\<close>; they stay below \<open>2 ^ 32\<close>, and the
  conversions to 32 bits are written where the code has them. \<open>flag\<close> is
  \<open>FLAGS_tcmalloc_transfer_num_objects\<close>, which the environment can set.
\<close>

section \<open>Constants\<close>

definition kPageShift :: nat where
  "kPageShift = 16"

definition kPageSize :: int where
  "kPageSize = 2 ^ kPageShift"

definition kMinAlign :: int where
  "kMinAlign = 16"

definition kAlignment :: int where
  "kAlignment = 8"

definition kMaxSize :: int where
  "kMaxSize = 256 * 1024"

definition kNumClasses :: nat where
  "kNumClasses = 9 + 73"

definition kMaxSmallSize :: int where
  "kMaxSmallSize = 1024"

definition kClassArraySize :: int where
  "kClassArraySize = (kMaxSize + 127 + 120 * 128) div 128 + 1"

definition kDefaultTransferNumObjecs :: int where
  "kDefaultTransferNumObjecs = 512"

text \<open>The flag is read from the environment once; \<open>env\<close> is the number \<open>strtol\<close> finds there.\<close>

definition InitTCMallocTransferNumObjects :: "int option \<Rightarrow> int \<Rightarrow> int" where
  "InitTCMallocTransferNumObjects env flag =
     (if flag = 0 then case env of None \<Rightarrow> kDefaultTransferNumObjecs | Some v \<Rightarrow> sint (word_of_int v :: u32) else flag)"

definition pages :: "int \<Rightarrow> int" where
  "pages bytes = bytes div kPageSize + (if bytes mod kPageSize > 0 then 1 else 0)"

section \<open>Indices\<close>

definition SmallSizeClass :: "int \<Rightarrow> int" where
  "SmallSizeClass s = (s mod 2 ^ 32 + 7) div 8"

definition LargeSizeClass :: "int \<Rightarrow> int" where
  "LargeSizeClass s = (s mod 2 ^ 32 + 127 + 120 * 128) div 128"

definition ClassIndex :: "int \<Rightarrow> int res" where
  "ClassIndex s =
     bindE (requireE (0 \<le> s \<and> s \<le> kMaxSize) AssertFail) (\<lambda>_.
       Inr (if s \<le> kMaxSmallSize then SmallSizeClass s else LargeSizeClass s))"

section \<open>Alignment\<close>

text \<open>The loop of \<open>LgFloor\<close>, for \<open>i\<close> from 4 down to 0.\<close>

definition LgFloor_step :: "nat \<Rightarrow> int \<times> int \<Rightarrow> int \<times> int" where
  "LgFloor_step i st =
     (case st of (n, log) \<Rightarrow>
        let shift = 2 ^ i; x = n div 2 ^ shift in
        if x \<noteq> 0 then (x, log + int shift) else (n, log))"

definition LgFloor :: "int \<Rightarrow> int res" where
  "LgFloor n =
     (case fold LgFloor_step [4, 3, 2, 1, 0] (n, 0) of (m, log) \<Rightarrow>
        bindE (requireE (m = 1) AssertFail) (\<lambda>_. Inr log))"

definition AlignmentForSize :: "int \<Rightarrow> int res" where
  "AlignmentForSize sz =
     bindE (if sz > kMaxSize then Inr kPageSize
            else if sz \<ge> 128 then bindE (LgFloor sz) (\<lambda>log. Inr (2 ^ nat log div 8))
            else if sz \<ge> kMinAlign then Inr kMinAlign
            else Inr kAlignment) (\<lambda>a.
     let alignment = (if a > kPageSize then kPageSize else a) in
     bindE (requireE (sz < kMinAlign \<or> alignment \<ge> kMinAlign) AssertFail) (\<lambda>_.
     bindE (requireE (and alignment (alignment - 1) = 0) AssertFail) (\<lambda>_. Inr alignment)))"

text \<open>
  The quotient of \<open>double\<close> values is cut to an \<open>int\<close>. For a size of at most \<open>2 ^ 32\<close> it is further from the
  next integer than the rounding error, so that the result is the integer quotient.
\<close>

definition NumMoveSize :: "int \<Rightarrow> int \<Rightarrow> int" where
  "NumMoveSize flag sz =
     (if sz = 0 then 0
      else let num = 64 * 1024 div sz; num1 = (if num < 2 then 2 else num) in
        if num1 > flag then flag else num1)"

section \<open>Computing the classes\<close>

text \<open>
  The pages of a span for objects of one size: enough that at most an eighth is left over, and at
  least \<open>blocks_to_move\<close> objects. The comparison of the number of objects with \<open>blocks_to_move\<close> is
  unsigned; a negative \<open>blocks_to_move\<close> is larger than every quotient and the loop does not end.
\<close>

function fit_span :: "int \<Rightarrow> int \<Rightarrow> int" where
  "fit_span sz psize =
     (if 0 < sz \<and> 0 \<le> psize \<and> psize mod sz > psize div 8 then fit_span sz (psize + kPageSize) else psize)"
  by auto
termination
proof (relation "measure (\<lambda>(sz, psize). nat (8 * sz - psize))", goal_cases)
  case (2 sz psize)
  then have "psize mod sz < sz" "psize div 8 < sz" by (auto intro: order_less_trans)
  then have "psize < 8 * sz" by linarith
  then show ?case by (simp add: kPageSize_def kPageShift_def)
qed simp

declare fit_span.simps [simp del]

lemma fit_span_ge: "psize \<le> fit_span sz psize"
proof (induction sz psize rule: fit_span.induct)
  case (1 sz psize)
  show ?case
  proof (cases "0 < sz \<and> 0 \<le> psize \<and> psize mod sz > psize div 8")
    case True
    have "psize \<le> psize + kPageSize" by (simp add: kPageSize_def)
    also have "\<dots> \<le> fit_span sz (psize + kPageSize)" using True by (rule 1)
    also have "\<dots> = fit_span sz psize" using True by (subst (2) fit_span.simps) simp
    finally show ?thesis .
  next
    case False
    then show ?thesis by (subst fit_span.simps) auto
  qed
qed

function grow_span :: "int \<Rightarrow> int \<Rightarrow> int \<Rightarrow> int" where
  "grow_span sz blocks psize =
     (let psize1 = fit_span sz (psize + kPageSize) in
      if 0 < sz \<and> 0 \<le> psize \<and> psize1 div sz < blocks then grow_span sz blocks psize1 else psize1)"
  by auto
termination
proof (relation "measure (\<lambda>(sz, blocks, psize). nat (blocks * sz - psize))", goal_cases)
  case (2 sz blocks psize psize1)
  have "psize + kPageSize \<le> psize1" using fit_span_ge 2(1) by simp
  moreover have "psize1 < blocks * sz"
  proof -
    have "(psize1 div sz + 1) * sz \<le> blocks * sz" using 2(2) by (intro mult_right_mono) simp_all
    moreover have "psize1 div sz * sz + psize1 mod sz = psize1" "psize1 mod sz < sz" using 2(2) by simp_all
    ultimately show ?thesis by (simp only: distrib_right)
  qed
  ultimately show ?case by (simp add: kPageSize_def kPageShift_def)
qed simp

declare grow_span.simps [simp del]

definition span_bytes :: "int \<Rightarrow> int \<Rightarrow> int res" where
  "span_bytes flag sz =
     (let m = NumMoveSize flag sz; blocks_to_move = (if 0 \<le> m then m div 4 else - (- m div 4)) in
      bindE (requireE (0 < sz) DivByZero) (\<lambda>_.
      bindE (requireE (0 \<le> blocks_to_move) Diverges) (\<lambda>_. Inr (grow_span sz blocks_to_move 0))))"

record size_map =
  class_array :: "nat list"
  class_to_size :: "int list"
  class_to_pages :: "int list"
  num_objects_to_move :: "int list"

text \<open>One round of the loop over the sizes: \<open>size\<close> joins the last class or opens the class \<open>sc\<close>.\<close>

definition add_size :: "int \<Rightarrow> int \<Rightarrow> nat \<times> size_map \<Rightarrow> (nat \<times> size_map) res" where
  "add_size flag sz st =
     (case st of (sc, sm) \<Rightarrow>
        bindE (span_bytes flag sz) (\<lambda>psize.
        let my_pages = psize div kPageSize;
            merge = (if sc > 1
                     then bindE (array_read (class_to_pages sm) (sc - 1)) (\<lambda>prev_pages.
                          bindE (array_read (class_to_size sm) (sc - 1)) (\<lambda>prev_size.
                          bindE (requireE (my_pages \<noteq> prev_pages \<or> prev_size \<noteq> 0) DivByZero) (\<lambda>_.
                            Inr (my_pages = prev_pages \<and>
                                 my_pages * kPageSize div sz = prev_pages * kPageSize div prev_size))))
                     else Inr False) in
        bindE merge (\<lambda>m.
        if m
        then bindE (array_write (class_to_size sm) (sc - 1) sz) (\<lambda>cs. Inr (sc, sm\<lparr>class_to_size := cs\<rparr>))
        else bindE (array_write (class_to_pages sm) sc my_pages) (\<lambda>cp.
             bindE (array_write (class_to_size sm) sc sz) (\<lambda>cs.
               Inr (sc + 1, sm\<lparr>class_to_pages := cp, class_to_size := cs\<rparr>))))))"

text \<open>
  The loop. The alignment is at least 1, so that the size grows; \<open>AlignmentForSize\<close> never returns
  less than \<open>kAlignment\<close>.
\<close>

function class_loop :: "int \<Rightarrow> int \<Rightarrow> nat \<times> size_map \<Rightarrow> (nat \<times> size_map) res" where
  "class_loop flag sz st =
     (if sz \<le> kMaxSize then
        bindE (AlignmentForSize sz) (\<lambda>alignment.
        bindE (requireE (0 < alignment) Diverges) (\<lambda>_.
        bindE (requireE (sz mod alignment = 0) AssertFail) (\<lambda>_.
        bindE (add_size flag sz st) (\<lambda>st1. class_loop flag (sz + alignment) st1))))
      else Inr st)"
  by auto
termination
  by (relation "measure (\<lambda>(flag, sz, st). nat (kMaxSize + 1 - sz))") auto

section \<open>The index\<close>

function fill_class :: "nat \<Rightarrow> int \<Rightarrow> int \<Rightarrow> nat list \<Rightarrow> nat list res" where
  "fill_class c s max_size_in_class a =
     (if s \<le> max_size_in_class then
        bindE (ClassIndex s) (\<lambda>i.
        bindE (array_write a (nat i) c) (\<lambda>a1. fill_class c (s + kAlignment) max_size_in_class a1))
      else Inr a)"
  by auto
termination
  by (relation "measure (\<lambda>(c, s, m, a). nat (m + 1 - s))") (auto simp: kAlignment_def)

fun fill_classes :: "nat list \<Rightarrow> int \<Rightarrow> size_map \<Rightarrow> size_map res" where
  "fill_classes [] next_size sm = Inr sm"
| "fill_classes (c # cs) next_size sm =
     bindE (array_read (class_to_size sm) c) (\<lambda>max_size_in_class.
     bindE (fill_class c next_size max_size_in_class (class_array sm)) (\<lambda>a.
       fill_classes cs (max_size_in_class + kAlignment) (sm\<lparr>class_array := a\<rparr>)))"

definition SizeClass :: "size_map \<Rightarrow> int \<Rightarrow> nat res" where
  "SizeClass sm sz = bindE (ClassIndex sz) (\<lambda>i. array_read (class_array sm) (nat i))"

definition MaybeSizeClass :: "size_map \<Rightarrow> int \<Rightarrow> nat option res" where
  "MaybeSizeClass sm sz =
     (if sz \<le> kMaxSmallSize then bindE (array_read (class_array sm) (nat (SmallSizeClass sz))) (\<lambda>c. Inr (Some c))
      else if sz \<le> kMaxSize then bindE (array_read (class_array sm) (nat (LargeSizeClass sz))) (\<lambda>c. Inr (Some c))
      else Inr None)"

text \<open>The check at the end of \<open>Init\<close>, for one size; a failure crashes the process.\<close>

definition size_checked :: "size_map \<Rightarrow> int \<Rightarrow> unit res" where
  "size_checked sm sz =
     bindE (SizeClass sm sz) (\<lambda>sc.
     bindE (requireE (0 < sc \<and> sc < kNumClasses) AssertFail) (\<lambda>_.
     bindE (if sc > 1 then bindE (array_read (class_to_size sm) (sc - 1)) (\<lambda>p. requireE (p < sz) AssertFail) else Inr ()) (\<lambda>_.
     bindE (array_read (class_to_size sm) sc) (\<lambda>s. requireE (sz \<le> s \<and> s \<noteq> 0) AssertFail))))"

function check_sizes :: "size_map \<Rightarrow> int \<Rightarrow> unit res" where
  "check_sizes sm sz =
     (if sz \<le> kMaxSize
      then bindE (size_checked sm sz) (\<lambda>_. check_sizes sm (if sz \<le> kMaxSmallSize then sz + 8 else sz + 128))
      else Inr ())"
  by auto
termination by (relation "measure (\<lambda>(sm, sz). nat (kMaxSize + 1 - sz))") (simp_all split: if_splits)

declare class_loop.simps [simp del] fill_class.simps [simp del] check_sizes.simps [simp del]

fun move_sizes :: "int \<Rightarrow> nat list \<Rightarrow> size_map \<Rightarrow> size_map res" where
  "move_sizes flag [] sm = Inr sm"
| "move_sizes flag (c # cs) sm =
     bindE (array_read (class_to_size sm) c) (\<lambda>s.
     bindE (array_write (num_objects_to_move sm) c (NumMoveSize flag s)) (\<lambda>ns.
       move_sizes flag cs (sm\<lparr>num_objects_to_move := ns\<rparr>)))"

text \<open>\<open>Init\<close> after the flag is set, and the whole of it, with the value of the environment variable.\<close>

definition build_classes :: "int \<Rightarrow> size_map \<Rightarrow> size_map res" where
  "build_classes flag sm0 =
     bindE (class_loop flag kAlignment (1, sm0)) (\<lambda>(sc, sm1).
     bindE (requireE (sc = kNumClasses) AssertFail) (\<lambda>_.
     bindE (fill_classes [1..<kNumClasses] 0 sm1) (\<lambda>sm2.
     bindE (check_sizes sm2 0) (\<lambda>_.
       move_sizes flag [1..<kNumClasses] sm2))))"

definition SizeMap_Init :: "int option \<Rightarrow> int \<Rightarrow> size_map \<Rightarrow> size_map res" where
  "SizeMap_Init env flag sm0 = build_classes (InitTCMallocTransferNumObjects env flag) sm0"

end
