(* ===== verification/Size_Map_Correct.thy ===== *)
theory Size_Map_Correct
  imports Size_Map
begin

text \<open>
  \<open>SizeMap::Init\<close> succeeds for every setting of the transfer flag that is not negative, with the same
  classes; the index sends every size to the smallest class that holds it, and a span of a class
  wastes at most an eighth.
\<close>

section \<open>The classes\<close>

definition size_table :: "int list" where
  "size_table =
    [8, 16, 32, 48, 64, 80, 96, 112, 128, 144, 160, 176, 192, 208, 224, 240, 256, 288, 320, 352,
     384, 416, 448, 480, 512, 576, 640, 704, 768, 832, 896, 960, 1024, 1152, 1280, 1408, 1536,
     1664, 1792, 1920, 2048, 2304, 2560, 2816, 3072, 3328, 3584, 3840, 4096, 4608, 5120, 5632,
     6144, 7168, 8192, 9216, 10240, 11264, 12288, 13312, 16384, 18432, 20480, 22528, 24576, 26624,
     32768, 36864, 40960, 49152, 53248, 65536, 73728, 81920, 98304, 106496, 131072, 163840, 196608,
     212992, 262144]"

definition page_table :: "int list" where
  "page_table =
    [1, 1, 1, 1, 1, 1, 1, 1, 1, 1, 1, 1, 1, 1, 1, 1, 1, 1, 1, 1, 1, 1, 1, 1, 1, 1, 1, 1, 1, 1, 1,
     1, 1, 1, 1, 1, 1, 1, 1, 1, 1, 1, 1, 1, 1, 1, 1, 1, 1, 1, 1, 1, 1, 1, 1, 1, 1, 2, 1, 2, 1, 2,
     1, 3, 2, 3, 1, 3, 2, 3, 5, 1, 5, 4, 3, 5, 2, 5, 3, 7, 4]"

definition SizeMap_zero :: size_map where
  "SizeMap_zero =
     \<lparr>class_array = replicate (nat kClassArraySize) 0, class_to_size = replicate kNumClasses 0,
      class_to_pages = replicate kNumClasses 0, num_objects_to_move = replicate kNumClasses 0\<rparr>"

text \<open>The number of blocks to move never asks for more than one page, whatever the flag is.\<close>

lemma span_bytes_any:
  assumes "0 < sz" "0 \<le> flag"
  shows "span_bytes flag sz = Inr (fit_span sz kPageSize)"
proof -
  let ?m = "NumMoveSize flag sz" and ?p = "fit_span sz kPageSize"
  have m: "0 \<le> ?m" "?m \<le> max 2 (65536 div sz)"
    using assms pos_imp_zdiv_nonneg_iff [OF assms(1), of 65536] by (simp_all add: NumMoveSize_def Let_def)
  then have "?m div 4 \<le> 65536 div sz" by (auto simp: max_def pos_imp_zdiv_nonneg_iff [OF assms(1)] split: if_splits)
  also have "\<dots> \<le> ?p div sz"
    using fit_span_ge [of kPageSize sz] assms(1) by (intro zdiv_mono1) (simp_all add: kPageSize_def kPageShift_def)
  finally have "grow_span sz (?m div 4) 0 = ?p" by (subst grow_span.simps) (simp add: Let_def)
  with assms(1) m(1) show ?thesis by (simp add: span_bytes_def Let_def pos_imp_zdiv_nonneg_iff)
qed

lemma class_loop_any:
  "0 < sz \<Longrightarrow> 0 \<le> flag \<Longrightarrow> class_loop flag sz st = class_loop 512 sz st"
proof (induction flag sz st rule: class_loop.induct)
  case (1 flag sz st)
  have "add_size flag sz st = add_size 512 sz st"
    using 1(2,3) by (simp add: add_size_def span_bytes_any split: prod.split)
  then show ?case
    using 1 by (subst (1 2) class_loop.simps) (auto intro!: bindE_cong)
qed

lemma class_loop_512:
  "class_loop 512 kAlignment
     (1, \<lparr>class_array = a, class_to_size = replicate kNumClasses 0, class_to_pages = replicate kNumClasses 0,
          num_objects_to_move = ns\<rparr>) =
   Inr (kNumClasses, \<lparr>class_array = a, class_to_size = 0 # size_table, class_to_pages = 0 # page_table,
          num_objects_to_move = ns\<rparr>)"
  by code_simp

section \<open>The index\<close>

text \<open>The index of a size and the largest size of an index.\<close>

definition size_index :: "int \<Rightarrow> int" where
  "size_index s = (if s \<le> 1024 then (s + 7) div 8 else (s + 127 + 15360) div 128)"

definition index_size :: "int \<Rightarrow> int" where
  "index_size i = (if i \<le> 128 then 8 * i else 128 * (i - 120))"

lemma ClassIndex_index: "0 \<le> s \<Longrightarrow> s \<le> kMaxSize \<Longrightarrow> ClassIndex s = Inr (size_index s)"
  by (simp add: ClassIndex_def size_index_def SmallSizeClass_def LargeSizeClass_def kMaxSize_def kMaxSmallSize_def)

lemma size_le_iff: "s \<le> index_size i \<longleftrightarrow> size_index s \<le> i"
proof
  show "s \<le> index_size i \<Longrightarrow> size_index s \<le> i"
    unfolding size_index_def index_size_def by (cases "s \<le> 1024"; cases "i \<le> 128"; simp; linarith)
  show "size_index s \<le> i \<Longrightarrow> s \<le> index_size i"
    unfolding size_index_def index_size_def by (cases "s \<le> 1024"; cases "i \<le> 128"; simp; linarith)
qed

lemma size_index_size [simp]: "size_index (index_size i) = i"
  unfolding size_index_def index_size_def by (cases "i \<le> 128") simp_all

lemma size_index_next [simp]: "size_index (index_size i + 8) = i + 1"
  unfolding size_index_def index_size_def by (cases "i < 128"; cases "i = 128"; simp; linarith)

lemma size_index_step: "size_index s \<le> size_index (s + 8)" "size_index (s + 8) \<le> size_index s + 1"
  unfolding size_index_def by (cases "s \<le> 1016"; cases "s \<le> 1024"; simp; linarith)+

lemma size_index_mono: "s \<le> t \<Longrightarrow> size_index s \<le> size_index t"
  using size_le_iff [of s "size_index t"] size_le_iff [of t "size_index t"] by linarith

lemma size_index_bounds: "0 \<le> s \<Longrightarrow> s \<le> kMaxSize \<Longrightarrow> 0 \<le> size_index s \<and> size_index s < kClassArraySize"
  unfolding size_index_def kMaxSize_def kClassArraySize_def by (cases "s \<le> 1024"; simp; linarith)

text \<open>The classes end at sizes that are the largest of their index.\<close>

definition on_index :: "int \<Rightarrow> bool" where
  "on_index t \<longleftrightarrow> index_size (size_index t) = t \<and> 0 \<le> t \<and> t \<le> kMaxSize"

lemma fill_class_fills:
  "0 \<le> s \<Longrightarrow> on_index m \<Longrightarrow> length a = nat kClassArraySize \<Longrightarrow>
   \<exists>a'. fill_class c s m a = Inr a' \<and> length a' = length a \<and>
     (\<forall>i. 0 \<le> i \<and> i < kClassArraySize \<longrightarrow> a' ! nat i = (if size_index s \<le> i \<and> i \<le> size_index m then c else a ! nat i))"
proof (induction c s m a rule: fill_class.induct)
  case (1 c s m a)
  show ?case
  proof (cases "s \<le> m")
    case True
    with 1(2,3) have s: "0 \<le> s" "s \<le> kMaxSize" by (auto simp: on_index_def)
    note b = size_index_bounds [OF s] and ci = ClassIndex_index [OF s]
    have w: "array_write a (nat (size_index s)) c = Inr (a[nat (size_index s) := c])" using b 1(4) by simp
    have "\<exists>a'. fill_class c (s + kAlignment) m (a[nat (size_index s) := c]) = Inr a' \<and>
        length a' = length (a[nat (size_index s) := c]) \<and>
        (\<forall>i. 0 \<le> i \<and> i < kClassArraySize \<longrightarrow> a' ! nat i =
          (if size_index (s + kAlignment) \<le> i \<and> i \<le> size_index m then c else a[nat (size_index s) := c] ! nat i))"
      using 1(2-4) by (intro "1.IH" [OF True ci w]) (simp_all add: kAlignment_def)
    then obtain a' where a': "fill_class c (s + 8) m (a[nat (size_index s) := c]) = Inr a'" "length a' = length a"
      "\<And>i. 0 \<le> i \<Longrightarrow> i < kClassArraySize \<Longrightarrow> a' ! nat i =
        (if size_index (s + 8) \<le> i \<and> i \<le> size_index m then c else a[nat (size_index s) := c] ! nat i)"
      by (auto simp: kAlignment_def)
    have "a' ! nat i = (if size_index s \<le> i \<and> i \<le> size_index m then c else a ! nat i)"
      if "0 \<le> i" "i < kClassArraySize" for i
      using a'(3) [OF that] size_index_step [of s] size_index_mono [OF True] b 1(4) that
      by (auto simp: nth_list_update nat_eq_iff split: if_splits)
    with a'(1,2) True ci w show ?thesis by (subst fill_class.simps) (simp add: kAlignment_def)
  next
    case False
    then have "size_index m < size_index s" using 1(3) size_le_iff [of s "size_index m"] by (auto simp: on_index_def)
    with False show ?thesis by (subst fill_class.simps) auto
  qed
qed

lemma fill_classes_fill:
  assumes "\<forall>t \<in> set us. on_index t" "length (class_array sm) = nat kClassArraySize" "0 \<le> nxt"
    "length pre = c" "class_to_size sm = pre @ us"
    "sorted us" "us \<noteq> [] \<longrightarrow> size_index nxt \<le> size_index (hd us) + 1"
  shows "\<exists>a. fill_classes [c..<c + length us] nxt sm = Inr (sm\<lparr>class_array := a\<rparr>) \<and> length a = nat kClassArraySize \<and>
    (\<forall>i. 0 \<le> i \<and> i < kClassArraySize \<longrightarrow>
       a ! nat i = (if size_index nxt \<le> i \<and> (\<exists>t \<in> set us. index_size i \<le> t)
                    then c + length (takeWhile (\<lambda>t. t < index_size i) us) else class_array sm ! nat i))"
  using assms
proof (induction us arbitrary: sm nxt pre c)
  case Nil
  then show ?case by (intro exI [of _ "class_array sm"]) simp
next
  case (Cons u us)
  have u: "on_index u" "array_read (class_to_size sm) c = Inr u" using Cons.prems by (simp_all add: nth_append)
  from fill_class_fills [OF Cons.prems(3) u(1) Cons.prems(2), of c]
  obtain a where a: "fill_class c nxt u (class_array sm) = Inr a" "length a = nat kClassArraySize"
    "\<And>i. 0 \<le> i \<Longrightarrow> i < kClassArraySize \<Longrightarrow> a ! nat i = (if size_index nxt \<le> i \<and> i \<le> size_index u then c else class_array sm ! nat i)"
    using Cons.prems(2) by auto
  have nu: "size_index (u + 8) = size_index u + 1" using u(1) size_index_next [of "size_index u"] by (simp add: on_index_def)
  have le: "i \<le> size_index u \<longleftrightarrow> index_size i \<le> u" for i
    using u(1) size_le_iff [of "index_size i" "size_index u"] by (simp add: on_index_def)
  have lt: "u < index_size i \<longleftrightarrow> size_index u < i" for i using le [of i] by linarith
  define sm1 where "sm1 = sm\<lparr>class_array := a\<rparr>"
  have "\<exists>a'. fill_classes [Suc c..<Suc c + length us] (u + 8) sm1 = Inr (sm1\<lparr>class_array := a'\<rparr>) \<and>
      length a' = nat kClassArraySize \<and> (\<forall>i. 0 \<le> i \<and> i < kClassArraySize \<longrightarrow>
       a' ! nat i = (if size_index (u + 8) \<le> i \<and> (\<exists>t \<in> set us. index_size i \<le> t)
                    then Suc c + length (takeWhile (\<lambda>t. t < index_size i) us) else class_array sm1 ! nat i))"
  proof (rule Cons.IH [where pre = "pre @ [u]"])
    show "us \<noteq> [] \<longrightarrow> size_index (u + 8) \<le> size_index (hd us) + 1"
      using Cons.prems(6) size_index_mono by (cases us) (simp_all add: nu)
  qed (use Cons.prems a(2) u(1) in \<open>simp_all add: on_index_def sm1_def\<close>)
  then obtain a' where a': "fill_classes [Suc c..<Suc c + length us] (u + 8) sm1 = Inr (sm1\<lparr>class_array := a'\<rparr>)"
      "length a' = nat kClassArraySize" "\<forall>i. 0 \<le> i \<and> i < kClassArraySize \<longrightarrow>
       a' ! nat i = (if size_index (u + 8) \<le> i \<and> (\<exists>t \<in> set us. index_size i \<le> t)
                    then Suc c + length (takeWhile (\<lambda>t. t < index_size i) us) else class_array sm1 ! nat i)" by blast
  have "a' ! nat i = (if size_index nxt \<le> i \<and> (\<exists>t \<in> set (u # us). index_size i \<le> t)
      then c + length (takeWhile (\<lambda>t. t < index_size i) (u # us)) else class_array sm ! nat i)"
    if "0 \<le> i" "i < kClassArraySize" for i
    using a'(3) [rule_format, OF conjI, OF that] a(3) [OF that] Cons.prems(7)
    by (auto simp: nu lt le [symmetric] sm1_def)
  moreover have "[c..<c + length (u # us)] = c # [Suc c..<Suc c + length us]" by (simp add: upt_conv_Cons del: upt_Suc)
  ultimately show ?case using u(2) a(1) a'(1,2) by (intro exI [of _ a']) (simp add: kAlignment_def sm1_def del: upt_Suc)
qed

section \<open>The class of a size\<close>

text \<open>The smallest class whose objects hold \<open>s\<close> bytes.\<close>

definition class_for :: "int \<Rightarrow> nat" where
  "class_for s = Suc (length (takeWhile (\<lambda>t. t < s) size_table))"

lemma size_table_facts:
  "\<forall>t \<in> set size_table. on_index t" "sorted size_table" "length size_table = 81" "length page_table = 81"
  "last size_table = kMaxSize" "hd size_table = 8" "\<forall>t \<in> set size_table. 0 < t"
proof -
  have "list_all on_index size_table" "sorted size_table" "list_all (\<lambda>t. 0 < t) size_table" by code_simp+
  then show "\<forall>t \<in> set size_table. on_index t" "sorted size_table" "\<forall>t \<in> set size_table. 0 < t" by (simp_all add: list_all_iff)
qed (simp_all add: size_table_def page_table_def kMaxSize_def)

lemma class_for_index: "class_for (index_size (size_index s)) = class_for s"
proof -
  have "t < index_size (size_index s) \<longleftrightarrow> t < s" if "t \<in> set size_table" for t
    using size_table_facts(1) that size_le_iff [of s "size_index t"] size_le_iff [of "index_size (size_index s)" "size_index t"]
    by (auto simp: on_index_def not_le [symmetric])
  then show ?thesis unfolding class_for_def by (metis (mono_tags, lifting) takeWhile_cong)
qed

lemma class_for_bounds:
  assumes "s \<le> kMaxSize"
  shows "1 \<le> class_for s" "class_for s < kNumClasses" "s \<le> (0 # size_table) ! class_for s"
    "\<And>d. 1 \<le> d \<Longrightarrow> d < class_for s \<Longrightarrow> (0 # size_table) ! d < s"
proof -
  let ?n = "length (takeWhile (\<lambda>t. t < s) size_table)"
  have "last size_table \<in> set size_table" using size_table_facts(3) by (intro last_in_set) auto
  then have n: "?n < length size_table"
    using assms size_table_facts(5) by (metis length_takeWhile_le not_less order_le_imp_less_or_eq set_takeWhileD takeWhile_eq_all_conv takeWhile_eq_take take_all_iff)
  show "1 \<le> class_for s" by (simp add: class_for_def)
  show "class_for s < kNumClasses" using n size_table_facts(3) by (simp add: class_for_def kNumClasses_def)
  show "s \<le> (0 # size_table) ! class_for s" using nth_length_takeWhile [OF n] by (simp add: class_for_def)
  show "(0 # size_table) ! d < s" if d: "1 \<le> d" "d < class_for s" for d
  proof -
    obtain e where e: "d = Suc e" "e < ?n" using d by (cases d) (auto simp: class_for_def)
    then have "takeWhile (\<lambda>t. t < s) size_table ! e = size_table ! e" by (simp add: takeWhile_nth)
    moreover have "takeWhile (\<lambda>t. t < s) size_table ! e \<in> set (takeWhile (\<lambda>t. t < s) size_table)" using e(2) by (rule nth_mem)
    ultimately show ?thesis using e(1) by (auto dest: set_takeWhileD)
  qed
qed

text \<open>What \<open>Init\<close> leaves behind.\<close>

definition indexed :: "size_map \<Rightarrow> bool" where
  "indexed sm \<longleftrightarrow> class_to_size sm = 0 # size_table \<and> class_to_pages sm = 0 # page_table \<and>
     length (class_array sm) = nat kClassArraySize \<and>
     (\<forall>i. 0 \<le> i \<and> i < kClassArraySize \<longrightarrow> class_array sm ! nat i = class_for (index_size i))"

lemma SizeClass_indexed:
  assumes "indexed sm" "0 \<le> s" "s \<le> kMaxSize"
  shows "SizeClass sm s = Inr (class_for s)" "MaybeSizeClass sm s = Inr (Some (class_for s))"
proof -
  note b = size_index_bounds [OF assms(2,3)]
  have r: "array_read (class_array sm) (nat (size_index s)) = Inr (class_for s)"
    using assms(1) b by (simp add: indexed_def class_for_index)
  then show "SizeClass sm s = Inr (class_for s)" using ClassIndex_index [OF assms(2,3)] by (simp add: SizeClass_def)
  have "size_index s = (if s \<le> kMaxSmallSize then SmallSizeClass s else LargeSizeClass s)"
    using ClassIndex_index [OF assms(2,3)] assms(2,3) by (simp add: ClassIndex_def)
  with r assms(3) show "MaybeSizeClass sm s = Inr (Some (class_for s))" by (auto simp: MaybeSizeClass_def)
qed

lemma size_checked_indexed:
  assumes "indexed sm" "0 \<le> s" "s \<le> kMaxSize"
  shows "size_checked sm s = Inr ()"
proof -
  note c = class_for_bounds [OF assms(3)]
  have len: "length (class_to_size sm) = kNumClasses" using assms(1) size_table_facts(3) by (simp add: indexed_def kNumClasses_def)
  have "(0 # size_table) ! class_for s \<noteq> 0"
  proof (cases "class_for s")
    case (Suc n)
    then have "size_table ! n \<in> set size_table" using c(2) size_table_facts(3) by (intro nth_mem) (simp add: kNumClasses_def)
    with Suc size_table_facts(7) show ?thesis by auto
  qed (use c(1) in simp)
  moreover have "class_for s > 1 \<Longrightarrow> (0 # size_table) ! (class_for s - 1) < s" by (rule c(4)) simp_all
  ultimately show ?thesis
    using SizeClass_indexed [OF assms] c(1-3) len assms(1) by (simp add: size_checked_def indexed_def)
qed

lemma check_sizes_indexed: "indexed sm \<Longrightarrow> 0 \<le> s \<Longrightarrow> check_sizes sm s = Inr ()"
proof (induction sm s rule: check_sizes.induct)
  case (1 sm s)
  then show ?case using size_checked_indexed [of sm s] by (subst check_sizes.simps) (auto simp del: One_nat_def)
qed

lemma move_sizes_ok:
  "\<forall>c \<in> set cs. c < length (class_to_size sm) \<and> c < length (num_objects_to_move sm) \<Longrightarrow>
   \<exists>ns. move_sizes flag cs sm = Inr (sm\<lparr>num_objects_to_move := ns\<rparr>) \<and> length ns = length (num_objects_to_move sm) \<and>
     (\<forall>c < length ns. ns ! c = (if c \<in> set cs then NumMoveSize flag (class_to_size sm ! c) else num_objects_to_move sm ! c))"
proof (induction cs arbitrary: sm)
  case Nil
  then show ?case by (intro exI [of _ "num_objects_to_move sm"]) simp
next
  case (Cons c cs)
  define sm1 where "sm1 = sm\<lparr>num_objects_to_move := (num_objects_to_move sm)[c := NumMoveSize flag (class_to_size sm ! c)]\<rparr>"
  from Cons.prems have "\<exists>ns. move_sizes flag cs sm1 = Inr (sm1\<lparr>num_objects_to_move := ns\<rparr>) \<and> length ns = length (num_objects_to_move sm1) \<and>
     (\<forall>c < length ns. ns ! c = (if c \<in> set cs then NumMoveSize flag (class_to_size sm1 ! c) else num_objects_to_move sm1 ! c))"
    by (intro Cons.IH) (simp add: sm1_def)
  then obtain ns where ns: "move_sizes flag cs sm1 = Inr (sm1\<lparr>num_objects_to_move := ns\<rparr>)" "length ns = length (num_objects_to_move sm1)"
    "\<forall>c < length ns. ns ! c = (if c \<in> set cs then NumMoveSize flag (class_to_size sm1 ! c) else num_objects_to_move sm1 ! c)" by blast
  with Cons.prems show ?case
    by (intro exI [of _ ns]) (auto simp: sm1_def nth_list_update)
qed

lemma build_classes_ok:
  assumes "0 \<le> flag"
  shows "\<exists>sm. build_classes flag SizeMap_zero = Inr sm \<and> indexed sm \<and>
    (\<forall>c. 1 \<le> c \<and> c < kNumClasses \<longrightarrow> num_objects_to_move sm ! c = NumMoveSize flag (class_to_size sm ! c))"
proof -
  define sm1 where "sm1 = \<lparr>class_array = replicate (nat kClassArraySize) 0, class_to_size = 0 # size_table, class_to_pages = 0 # page_table,
    num_objects_to_move = replicate kNumClasses 0\<rparr>"
  have loop: "class_loop flag kAlignment (1, SizeMap_zero) = Inr (kNumClasses, sm1)"
    using class_loop_any [OF _ assms, of kAlignment "(1, SizeMap_zero)"] class_loop_512 [of "replicate (nat kClassArraySize) 0"]
    by (simp add: kAlignment_def SizeMap_zero_def sm1_def)
  have n: "kNumClasses = 1 + length size_table" by (simp add: size_table_facts kNumClasses_def)
  have "\<exists>a. fill_classes [1..<1 + length size_table] 0 sm1 = Inr (sm1\<lparr>class_array := a\<rparr>) \<and> length a = nat kClassArraySize \<and>
    (\<forall>i. 0 \<le> i \<and> i < kClassArraySize \<longrightarrow>
       a ! nat i = (if size_index 0 \<le> i \<and> (\<exists>t \<in> set size_table. index_size i \<le> t)
                    then 1 + length (takeWhile (\<lambda>t. t < index_size i) size_table) else class_array sm1 ! nat i))"
  proof (rule fill_classes_fill [OF size_table_facts(1), where pre = "[0]"])
    show "size_table \<noteq> [] \<longrightarrow> size_index 0 \<le> size_index (hd size_table) + 1" by (simp add: size_table_facts size_index_def)
  qed (simp_all add: sm1_def size_table_facts)
  then obtain a where a: "fill_classes [1..<kNumClasses] 0 sm1 = Inr (sm1\<lparr>class_array := a\<rparr>)" "length a = nat kClassArraySize"
    "\<forall>i. 0 \<le> i \<and> i < kClassArraySize \<longrightarrow>
       a ! nat i = (if size_index 0 \<le> i \<and> (\<exists>t \<in> set size_table. index_size i \<le> t)
                    then 1 + length (takeWhile (\<lambda>t. t < index_size i) size_table) else class_array sm1 ! nat i)"
    unfolding n by blast
  define sm2 where "sm2 = sm1\<lparr>class_array := a\<rparr>"
  have last: "kMaxSize \<in> set size_table" using size_table_facts(3,5) by (metis last_in_set list.size(3) zero_neq_numeral)
  have "index_size i \<le> kMaxSize" if "i < kClassArraySize" for i
    using that by (simp add: index_size_def kClassArraySize_def kMaxSize_def)
  then have "\<forall>i. 0 \<le> i \<and> i < kClassArraySize \<longrightarrow> a ! nat i = class_for (index_size i)"
    using a(3) last by (auto simp: class_for_def size_index_def)
  then have ix: "indexed sm2" using a(2) by (simp add: indexed_def sm2_def sm1_def)
  obtain ns where ns: "move_sizes flag [1..<kNumClasses] sm2 = Inr (sm2\<lparr>num_objects_to_move := ns\<rparr>)" "length ns = kNumClasses"
    "\<forall>c < length ns. ns ! c = (if c \<in> set [1..<kNumClasses] then NumMoveSize flag (class_to_size sm2 ! c) else num_objects_to_move sm2 ! c)"
  proof -
    have "\<forall>c \<in> set [1..<kNumClasses]. c < length (class_to_size sm2) \<and> c < length (num_objects_to_move sm2)"
      using n by (simp add: sm2_def sm1_def)
    from move_sizes_ok [OF this, of flag] that show ?thesis by (auto simp: sm2_def sm1_def)
  qed
  have "build_classes flag SizeMap_zero = Inr (sm2\<lparr>num_objects_to_move := ns\<rparr>)"
    using loop a(1) check_sizes_indexed [OF ix] ns(1) by (simp add: build_classes_def sm2_def)
  moreover have "indexed (sm2\<lparr>num_objects_to_move := ns\<rparr>)" using ix by (simp add: indexed_def)
  ultimately show ?thesis using ns(2,3) by auto
qed

text \<open>The spans of the classes.\<close>

definition class_spans :: "int list \<Rightarrow> int list \<Rightarrow> bool" where
  "class_spans ss ps \<longleftrightarrow> list_all2 (\<lambda>s p. s mod 8 = 0 \<and> (16 \<le> s \<longrightarrow> s mod 16 = 0) \<and> 0 < p \<and> s \<le> p * kPageSize \<and>
     p * kPageSize mod s \<le> p * kPageSize div 8) ss ps"

lemma class_spans_table: "class_spans size_table page_table"
  by code_simp

text \<open>
  C27. The size classes. Unless \<open>TCMALLOC_TRANSFER_NUM_OBJ\<close> gives a negative number of objects, \<open>SizeMap::Init\<close> ends without a crash;
  every size up to \<open>kMaxSize\<close> is in a class from 1 to 81 whose objects hold it, and in no smaller one;
  larger sizes have no class. The objects of a class are aligned to 8 bytes, and to 16 when they have
  16 bytes or more; a span of a class holds at least one object and wastes at most an eighth.
\<close>

theorem size_classes:
  assumes "0 \<le> InitTCMallocTransferNumObjects env flag"
  shows "\<exists>sm. SizeMap_Init env flag SizeMap_zero = Inr sm \<and>
    (\<forall>s. 0 \<le> s \<and> s \<le> kMaxSize \<longrightarrow> (\<exists>c. SizeClass sm s = Inr c \<and> MaybeSizeClass sm s = Inr (Some c) \<and>
       1 \<le> c \<and> c < kNumClasses \<and> s \<le> class_to_size sm ! c \<and>
       (\<forall>d. 1 \<le> d \<and> d < c \<longrightarrow> class_to_size sm ! d < s))) \<and>
    (\<forall>s. kMaxSize < s \<longrightarrow> MaybeSizeClass sm s = Inr None) \<and>
    (\<forall>c. 1 \<le> c \<and> c < kNumClasses \<longrightarrow>
       (let s = class_to_size sm ! c; b = class_to_pages sm ! c * kPageSize in
        s mod 8 = 0 \<and> (16 \<le> s \<longrightarrow> s mod 16 = 0) \<and> s \<le> b \<and> b mod s \<le> b div 8))"
proof -
  obtain sm where sm: "SizeMap_Init env flag SizeMap_zero = Inr sm" "indexed sm"
    using build_classes_ok [OF assms] unfolding SizeMap_Init_def by blast
  have ct: "class_to_size sm = 0 # size_table" "class_to_pages sm = 0 # page_table" using sm(2) by (simp_all add: indexed_def)
  have "\<exists>c. SizeClass sm s = Inr c \<and> MaybeSizeClass sm s = Inr (Some c) \<and> 1 \<le> c \<and> c < kNumClasses \<and> s \<le> class_to_size sm ! c \<and>
       (\<forall>d. 1 \<le> d \<and> d < c \<longrightarrow> class_to_size sm ! d < s)" if "0 \<le> s" "s \<le> kMaxSize" for s
    using SizeClass_indexed [OF sm(2) that] class_for_bounds [OF that(2)] unfolding ct by blast
  moreover have "MaybeSizeClass sm s = Inr None" if "kMaxSize < s" for s
    using that by (simp add: MaybeSizeClass_def kMaxSize_def kMaxSmallSize_def)
  moreover have "let s = class_to_size sm ! c; b = class_to_pages sm ! c * kPageSize in
        s mod 8 = 0 \<and> (16 \<le> s \<longrightarrow> s mod 16 = 0) \<and> s \<le> b \<and> b mod s \<le> b div 8" if c: "1 \<le> c" "c < kNumClasses" for c
  proof -
    obtain e where e: "c = Suc e" using c(1) by (cases c) simp_all
    then have "e < length size_table" using c(2) by (simp add: size_table_facts kNumClasses_def)
    with list_all2_nthD [OF class_spans_table [unfolded class_spans_def]] show ?thesis unfolding ct e Let_def by simp
  qed
  ultimately show ?thesis using sm(1) by blast
qed

theorem size_classes_witness:
  "\<exists>sm c. SizeMap_Init None 0 SizeMap_zero = Inr sm \<and> SizeClass sm 24 = Inr c \<and> 24 \<le> class_to_size sm ! c"
proof -
  have "0 \<le> InitTCMallocTransferNumObjects None 0" by (simp add: InitTCMallocTransferNumObjects_def kDefaultTransferNumObjecs_def)
  from size_classes [OF this] obtain sm where sm: "SizeMap_Init None 0 SizeMap_zero = Inr sm"
    "\<And>s. 0 \<le> s \<Longrightarrow> s \<le> kMaxSize \<Longrightarrow> \<exists>c. SizeClass sm s = Inr c \<and> s \<le> class_to_size sm ! c" by blast
  from sm(1) sm(2) [of 24] show ?thesis by (auto simp: kMaxSize_def)
qed

end
