(* ===== verification/Spec2Isabelle.thy ===== *)
theory Spec2Isabelle
  imports Store_Properties Security_Properties Store_Limits Store_Interface Server_Properties
    Server_App_Correct Hot_Calls_Correct Client_Correct Page_Map_Correct Size_Map_Correct
begin

text \<open>
  ShieldStore, a key-value store that keeps its hash table in untrusted memory and its secrets and
  the roots of its MAC tree in an SGX enclave, with the programs it is compared with.

  \<^bold>\<open>The program and how its parts interact.\<close> Clients (\<open>client/\<close>) read a trace and send GET, SET and
  APPEND requests over sockets. The server application (\<open>App/App.cpp\<close>) waits for them in a \<open>select\<close>
  loop and hands each message to the enclave through a HotCall (\<open>Common/hot_calls.h\<close>,
  \<open>App/spinlock.c\<close>), where \<open>enclave_message_pass\<close> puts it into the queue of the worker that owns the
  bucket of its key. A worker (\<open>enclave_worker_thread\<close>) takes requests from its queue, runs the
  handler (\<open>enclave_set\<close>, \<open>enclave_get\<close>, \<open>enclave_append\<close> of \<open>Enclave/Enclave.cpp\<close>) and sends the answer
  back. A handler searches the bucket in untrusted memory (\<open>Enclave/ht.cpp\<close>), decrypts and
  authenticates the entry, and checks or rebuilds the root of the bucket's group of MACs
  (\<open>Enclave/core.cpp\<close>).

  \<^bold>\<open>Conventions.\<close> Code that can fail returns \<open>fault + 'a\<close>: a fault is a NULL dereference, an access out
  of bounds, a failed assertion, a division by zero, an exit of the process, a loop that does not
  end, or a value the C standard leaves open. Untrusted memory is a list of entries with indices as
  pointers. Bytes, sizes and hashes are words of the width the code uses; \<open>int\<close> expressions that are
  narrowed are narrowed in the model as well. AES-CTR, CMAC, the allocator and the random numbers
  are fields of the record \<open>env\<close>, with their contracts as the named hypotheses \<open>aes_ok\<close>, \<open>cmac_ok\<close> and
  \<open>memory_ok\<close>; \<open>Sample_World\<close> has an instance on which they hold and all handlers evaluate.

  \<^bold>\<open>The theories.\<close>
  \<^item> \<open>Prelude\<close>, \<open>C_Library\<close>: results and faults; \<open>strtok_r\<close>, \<open>strncmp\<close>, \<open>memcpy\<close>, \<open>fgets\<close>, \<open>atoi\<close>, printing.
  \<^item> \<open>Linked_Chain\<close>, \<open>Chain_Walk\<close>, \<open>Chained_Table\<close>, \<open>Kv_Interface\<close>: linked chains in a memory of records, and
    the interfaces: \<open>chain_walk\<close> (a search along a chain, with its fuel), \<open>kv_store\<close> (what a store
    promises to whoever puts and fetches) and \<open>kv_pair\<close> (two stores that promise it agree).
  \<^item> \<open>Common_Types\<close>, \<open>Hash_Functions\<close>, \<open>Entry_Crypto\<close>, \<open>Hash_Table\<close>, \<open>Mac_Tree\<close>, \<open>Enclave_Ops\<close>: \<open>Common/common.h\<close>,
    \<open>Enclave/ht.cpp\<close>, \<open>Enclave/core.cpp\<close> and the handlers of \<open>Enclave/Enclave.cpp\<close>, function by function.
  \<^item> \<open>Table_Semantics\<close>, \<open>Tree_Semantics\<close>, \<open>Store_Rep\<close>, \<open>Store_Update\<close>, \<open>Store_Insert\<close>, \<open>Store_Ops\<close>,
    \<open>Store_Handlers\<close>: the invariant of the store (chains, entries, MAC buckets, roots), the map it
    represents, and what each operation does to them.
  \<^item> \<open>Store_Properties\<close>, \<open>Search_Fuel\<close>, \<open>Store_Limits\<close>: correctness of SET, GET and APPEND, the round trip
    of encryption, the hash functions, that the fuel of the searches is enough, and the limits of the
    MAC buckets and of the assertion in the rebuild.
  \<^item> \<open>Integrity\<close>, \<open>Integrity_Gaps\<close>, \<open>Security_Properties\<close>: what the handlers detect when an adversary has
    replaced the untrusted memory, and what they do not.
  \<^item> \<open>Server_Setup\<close>, \<open>Workers\<close>, \<open>Server_Correct\<close>, \<open>Server_Properties\<close>: start-up, queues and workers; every
    interleaving of the responder and the workers behaves as one sequential map.
  \<^item> \<open>Server_App\<close>, \<open>Server_App_Correct\<close>: options, set-up and the loop of the application, and its counting of
    connections.
  \<^item> \<open>Hot_Calls\<close>, \<open>Hot_Calls_Correct\<close>: HotCalls as a step relation; mutual exclusion, each call run once
    and answered.
  \<^item> \<open>Client_App\<close>, \<open>Client_Correct\<close>: the two clients, alone and against the handlers.
  \<^item> \<open>Plain_Table\<close>, \<open>Plain_Semantics\<close>, \<open>Plain_Programs\<close>, \<open>Plain_Correct\<close>, \<open>Eleos_Store\<close>, \<open>Eleos_Correct\<close>,
    \<open>Store_Interface\<close>: the stores under \<open>Experiment/\<close>, that they run a workload as a map would, and that
    ShieldStore gives the same answers.
  \<^item> \<open>Page_Map\<close>, \<open>Page_Map_Correct\<close>: the three page maps of the allocator for untrusted memory
    (\<open>gperftools-2.5/src/pagemap.h\<close>); the locale \<open>page_map\<close> is their contract, and the radix trees answer as
    the flat array does.
  \<^item> \<open>Size_Map\<close>, \<open>Size_Map_Correct\<close>: the size classes of the allocator (\<open>common.h\<close>, \<open>common.cc\<close>): start-up ends,
    and every size is in the smallest class that holds it.
  \<^item> \<open>Sample_World\<close>: concrete configurations, requests and stores for the witnesses.

  \<^bold>\<open>Fuel.\<close> A search along a chain has as much fuel as there are entries in memory, plus one; a chain
  that is longer has a cycle, and \<open>Search_Fuel\<close> shows that the search with this fuel diverges exactly
  when the loop does. The lock of HotCalls and the polling loops are steps of a relation and need
  none.

  \<^bold>\<open>Not modelled.\<close> Allocation in the enclave is assumed to succeed. Untrusted memory does not change
  during a handler, so a value that is read twice is the same. A group of buckets has fewer than
  \<open>2 ^ 27\<close> MACs. The value of \<open>atoi\<close> beyond the range of \<open>int\<close> is left open by C and by the model. The
  paging of Eleos is taken by its contract. Timing, progress messages and the generated bridge code
  are left out. YCSB prints the traces the clients read, and its database bindings are not used by
  the store. The Switchless copy of the server differs in one call. The memory benchmarks time
  accesses to an array. Of gperftools, the page heap, the caches, the system layer and the profilers are
  not modelled; to the store the allocator is the field \<open>malloc_ok\<close> of its environment.
\<close>

end
